(* ===== verification/Prelude.thy ===== *)
theory Prelude
  imports Main "HOL-Library.Word"
begin

text \<open>
  Shared vocabulary of the development: the machine types of the C++ service as HOL
  types, the two conversions the sources perform on integers, the character mapping
  behind \<^verbatim>\<open>std::toupper\<close>, the outcome of an operation that may throw, and
  the collections of facts the component theories extend.
\<close>

section \<open>Fact collections\<close>

named_theorems gw_defs \<open>defining equations of the operations of a component\<close>
named_theorems gw_inv \<open>an operation keeps the invariant of its component\<close>

section \<open>Machine types\<close>

type_synonym byte = "8 word"
type_synonym job_id = string

text \<open>
  A C++ \<^verbatim>\<open>int\<close> is modelled by the integer it denotes. The only places where the
  sources narrow a wider value to \<^verbatim>\<open>int\<close> are explicit casts, which wrap modulo
  $2^{32}$ on the two's complement targets of the service.
\<close>

definition int32_cast :: "int \<Rightarrow> int" where
  "int32_cast x = (x + 2147483648) mod 4294967296 - 2147483648"

abbreviation is_int32 :: "int \<Rightarrow> bool" where
  "is_int32 x \<equiv> - 2147483648 \<le> x \<and> x \<le> 2147483647"

abbreviation is_int64 :: "int \<Rightarrow> bool" where
  "is_int64 x \<equiv> - 9223372036854775808 \<le> x \<and> x \<le> 9223372036854775807"

lemma int32_cast_range [simp]:
  "- 2147483648 \<le> int32_cast x" "int32_cast x \<le> 2147483647"
proof -
  have "0 \<le> (x + 2147483648) mod 4294967296" by simp
  then show "- 2147483648 \<le> int32_cast x" by (simp add: int32_cast_def)
  have "(x + 2147483648) mod 4294967296 < 4294967296" by simp
  then show "int32_cast x \<le> 2147483647" unfolding int32_cast_def by linarith
qed

lemma int32_cast_id [simp]: "is_int32 x \<Longrightarrow> int32_cast x = x"
  by (simp add: int32_cast_def)

lemma int32_cast_eq_iff: "int32_cast x = x \<longleftrightarrow> is_int32 x"
  using int32_cast_range [of x] by (metis int32_cast_id)

section \<open>Characters and strings\<close>

text \<open>
  \<^verbatim>\<open>std::toupper\<close> on an \<^verbatim>\<open>unsigned char\<close> in the default locale maps the
  letters a to z and leaves every other byte alone.
\<close>

definition toupper_char :: "char \<Rightarrow> char" where
  "toupper_char c =
     (let n = (of_char c :: nat) in if 97 \<le> n \<and> n \<le> 122 then char_of (n - 32) else c)"

lemma toupper_char_idem [simp]: "toupper_char (toupper_char c) = toupper_char c"
  by (auto simp: toupper_char_def Let_def)

lemma map_toupper_idem [simp]: "map toupper_char (map toupper_char s) = map toupper_char s"
  by simp

text \<open>\<^verbatim>\<open>s.rfind(p, 0) == 0\<close>: the string starts with \<open>p\<close>.\<close>

definition starts_with :: "string \<Rightarrow> string \<Rightarrow> bool" where
  "starts_with p s \<longleftrightarrow> take (length p) s = p"

lemma starts_with_append [simp]: "starts_with p (p @ s)"
  by (simp add: starts_with_def)

section \<open>Throwing operations\<close>

text \<open>
  An operation that may throw returns a sum: \<open>Inl\<close> the exception, \<open>Inr\<close> the result.
\<close>

datatype exn = OutOfRange

section \<open>Lists\<close>

lemma map_nth_upt_take_drop:
  "i + n \<le> length xs \<Longrightarrow> map (\<lambda>j. xs ! (i + j)) [0..<n] = take n (drop i xs)"
  by (rule nth_equalityI) auto

lemma take_Suc_update: "n < length xs \<Longrightarrow> take (Suc n) (xs[n := x]) = take n xs @ [x]"
  by (simp add: take_Suc_conv_app_nth)

text \<open>Cutting a list at the first occurrence of a delimiter.\<close>

lemma prefix_before_first:
  assumes "xs @ ys = us @ x # vs" and "x \<notin> set xs"
  shows "length xs \<le> length us"
proof (rule ccontr)
  assume "\<not> length xs \<le> length us"
  then have "xs ! length us = (us @ x # vs) ! length us" unfolding assms(1) [symmetric]
    by (simp add: nth_append)
  then show False using assms(2) \<open>\<not> length xs \<le> length us\<close> by (simp add: in_set_conv_nth)
qed

lemma split_first_eq:
  assumes "xs @ x # ys = us @ x # vs" and "x \<notin> set xs" and "x \<notin> set us"
  shows "xs = us \<and> ys = vs"
  using prefix_before_first [OF assms(1,2)] prefix_before_first [OF assms(1) [symmetric] assms(3)]
    assms(1) by simp

lemma funpow_Suc_shift: "(f ^^ Suc n) x = (f ^^ n) (f x)"
  by (simp add: funpow_swap1)

end
