(* ===== verification/Core_Machine.thy ===== *)
theory Core_Machine
  imports Prelude
begin

text \<open>
  The domain state machine: \<^verbatim>\<open>core/Types.hpp\<close>, \<^verbatim>\<open>core/Core.hpp\<close> and
  \<^verbatim>\<open>core/Core.cpp\<close>. \<open>State\<close> and \<open>Response\<close> are the enumeration and the struct of
  the sources, \<open>Core\<close> the class with its one field, and each member function is a
  function from the object to the response and the updated object.
\<close>

section \<open>Types.hpp\<close>

datatype State = NOT_INIT | INIT | RUNNING | STOPPED

definition to_string :: "State \<Rightarrow> string" where
  "to_string s =
     (case s of NOT_INIT \<Rightarrow> ''NOT_INIT'' | INIT \<Rightarrow> ''INIT'' | RUNNING \<Rightarrow> ''RUNNING''
      | STOPPED \<Rightarrow> ''STOPPED'')"

record Response =
  http_status :: int
  resp_ok :: bool
  resp_command :: string
  resp_state :: State
  resp_message :: string
  resp_jobId :: "string option"
  resp_qr :: "string option"

text \<open>The member initialisers of the struct.\<close>

definition new_Response :: Response where
  "new_Response =
     \<lparr>http_status = 200, resp_ok = True, resp_command = [], resp_state = NOT_INIT,
      resp_message = [], resp_jobId = None, resp_qr = None\<rparr>"

section \<open>Core.hpp and Core.cpp\<close>

record Core =
  core_st :: State

definition new_Core :: Core where
  "new_Core = \<lparr>core_st = NOT_INIT\<rparr>"

definition upper :: "string \<Rightarrow> string" where
  "upper s = map toupper_char s"

definition core_stop :: "Core \<Rightarrow> Response \<times> Core" where
  "core_stop c =
     (let c = c\<lparr>core_st := STOPPED\<rparr>
      in (new_Response\<lparr>resp_command := ''STOP'', resp_state := core_st c,
                       resp_message := ''OK''\<rparr>, c))"

definition handle_sync_command :: "string \<Rightarrow> Core \<Rightarrow> Response \<times> Core" where
  "handle_sync_command cmd c =
     (let r = new_Response\<lparr>resp_command := upper cmd, resp_state := core_st c\<rparr>
      in if resp_command r = ''PING'' then (r\<lparr>resp_message := ''PONG''\<rparr>, c)
         else if resp_command r = ''INIT'' then
           (if core_st c = RUNNING
            then (r\<lparr>resp_ok := False, http_status := 409, resp_message := ''ERR:BUSY''\<rparr>, c)
            else let c = c\<lparr>core_st := INIT\<rparr>
                 in (r\<lparr>resp_state := core_st c, resp_message := ''OK''\<rparr>, c))
         else if resp_command r = ''STOP'' then core_stop c
         else if resp_command r = ''START'' then
           (r\<lparr>resp_ok := False, http_status := 400,
              resp_message := ''ERR:USE_START_ENDPOINT''\<rparr>, c)
         else (r\<lparr>resp_ok := False, http_status := 400,
                 resp_message := ''ERR:UNKNOWN_CMD''\<rparr>, c))"

definition start_job :: "int \<Rightarrow> Core \<Rightarrow> Response \<times> Core" where
  "start_job timeout_ms c =
     (let r = new_Response\<lparr>resp_command := ''START'', resp_state := core_st c\<rparr>
      in if core_st c = NOT_INIT
         then (r\<lparr>resp_ok := False, http_status := 409, resp_message := ''ERR:NOT_INIT''\<rparr>, c)
         else if core_st c = RUNNING
         then (r\<lparr>resp_ok := False, http_status := 409,
                 resp_message := ''ERR:ALREADY_RUNNING''\<rparr>, c)
         else if core_st c = STOPPED
         then (r\<lparr>resp_ok := False, http_status := 409, resp_message := ''ERR:STOPPED''\<rparr>, c)
         else let c = c\<lparr>core_st := RUNNING\<rparr>
              in (r\<lparr>resp_state := core_st c, resp_message := ''ACCEPTED'',
                    http_status := 202\<rparr>, c))"

definition finish_job :: "Core \<Rightarrow> Response \<times> Core" where
  "finish_job c =
     (let r = new_Response\<lparr>resp_command := ''FINISH'', resp_state := core_st c\<rparr>
      in if core_st c = NOT_INIT
         then (r\<lparr>resp_ok := False, http_status := 409, resp_message := ''ERR:NOT_INIT''\<rparr>, c)
         else if core_st c = STOPPED
         then (r\<lparr>resp_ok := False, http_status := 409, resp_message := ''ERR:STOPPED''\<rparr>, c)
         else let c = (if core_st c = RUNNING then c\<lparr>core_st := INIT\<rparr> else c)
              in (r\<lparr>resp_state := core_st c, resp_message := ''OK''\<rparr>, c))"

declare new_Response_def [gw_defs] new_Core_def [gw_defs] core_stop_def [gw_defs]
  handle_sync_command_def [gw_defs] start_job_def [gw_defs] finish_job_def [gw_defs]

text \<open>
  The calls the rest of the service makes on the object, as one type: the dispatcher's
  worker performs one of them per task.
\<close>

datatype core_op = OpSync string | OpStart int | OpStop | OpFinish

fun core_exec :: "core_op \<Rightarrow> Core \<Rightarrow> Response \<times> Core" where
  "core_exec (OpSync cmd) c = handle_sync_command cmd c"
| "core_exec (OpStart tmo) c = start_job tmo c"
| "core_exec OpStop c = core_stop c"
| "core_exec OpFinish c = finish_job c"

fun core_run :: "core_op list \<Rightarrow> Core \<Rightarrow> Core" where
  "core_run [] c = c"
| "core_run (x # xs) c = core_run xs (snd (core_exec x c))"

lemma core_run_append [simp]: "core_run (xs @ ys) c = core_run ys (core_run xs c)"
  by (induction xs arbitrary: c) auto

section \<open>The documented lifecycle\<close>

text \<open>
  The state machine as \<^verbatim>\<open>docs/ARCHITECTURE.md\<close> and
  \<^verbatim>\<open>diagrams/core_state_machine.plantuml\<close> draw it: what each event does to the state, and
  the status code and message it is answered with.
\<close>

datatype core_event = EvPing | EvInit | EvStop | EvStartCmd | EvUnknown | EvStart | EvFinish

fun event_of :: "core_op \<Rightarrow> core_event" where
  "event_of (OpSync cmd) =
     (if upper cmd = ''PING'' then EvPing else if upper cmd = ''INIT'' then EvInit
      else if upper cmd = ''STOP'' then EvStop else if upper cmd = ''START'' then EvStartCmd
      else EvUnknown)"
| "event_of (OpStart tmo) = EvStart"
| "event_of OpStop = EvStop"
| "event_of OpFinish = EvFinish"

fun lifecycle :: "core_event \<Rightarrow> State \<Rightarrow> State" where
  "lifecycle EvInit s = (if s = RUNNING then RUNNING else INIT)"
| "lifecycle EvStop s = STOPPED"
| "lifecycle EvStart s = (if s = INIT then RUNNING else s)"
| "lifecycle EvFinish s = (if s = RUNNING then INIT else s)"
| "lifecycle _ s = s"

fun lifecycle_reply :: "core_event \<Rightarrow> State \<Rightarrow> int \<times> string" where
  "lifecycle_reply EvPing s = (200, ''PONG'')"
| "lifecycle_reply EvInit s = (if s = RUNNING then (409, ''ERR:BUSY'') else (200, ''OK''))"
| "lifecycle_reply EvStop s = (200, ''OK'')"
| "lifecycle_reply EvStartCmd s = (400, ''ERR:USE_START_ENDPOINT'')"
| "lifecycle_reply EvUnknown s = (400, ''ERR:UNKNOWN_CMD'')"
| "lifecycle_reply EvStart INIT = (202, ''ACCEPTED'')"
| "lifecycle_reply EvStart NOT_INIT = (409, ''ERR:NOT_INIT'')"
| "lifecycle_reply EvStart RUNNING = (409, ''ERR:ALREADY_RUNNING'')"
| "lifecycle_reply EvStart STOPPED = (409, ''ERR:STOPPED'')"
| "lifecycle_reply EvFinish NOT_INIT = (409, ''ERR:NOT_INIT'')"
| "lifecycle_reply EvFinish STOPPED = (409, ''ERR:STOPPED'')"
| "lifecycle_reply EvFinish s = (200, ''OK'')"

lemma to_string_inject [simp]: "to_string s = to_string t \<longleftrightarrow> s = t"
  by (cases s; cases t) (simp_all add: to_string_def)

lemma upper_idem [simp]: "upper (upper s) = upper s"
  by (simp add: upper_def)

lemma core_exec_state: "core_st (snd (core_exec x c)) = lifecycle (event_of x) (core_st c)"
  by (cases x; cases "core_st c") (auto simp: gw_defs Let_def)

lemma core_exec_reply:
  "(http_status (fst (core_exec x c)), resp_message (fst (core_exec x c)))
     = lifecycle_reply (event_of x) (core_st c)"
  by (cases x; cases "core_st c") (auto simp: gw_defs Let_def)

lemma core_exec_resp_state: "resp_state (fst (core_exec x c)) = core_st (snd (core_exec x c))"
  by (cases x; cases "core_st c") (auto simp: gw_defs Let_def)

lemma core_exec_ok:
  "resp_ok (fst (core_exec x c)) \<longleftrightarrow> http_status (fst (core_exec x c)) \<in> {200, 202}"
  by (cases x; cases "core_st c") (auto simp: gw_defs Let_def)

lemma core_exec_fail:
  "\<not> resp_ok (fst (core_exec x c)) \<Longrightarrow>
     snd (core_exec x c) = c \<and> http_status (fst (core_exec x c)) \<in> {400, 409}"
  by (cases x; cases "core_st c") (auto simp: gw_defs Let_def split: if_splits)

lemma core_exec_no_payload:
  "resp_jobId (fst (core_exec x c)) = None" "resp_qr (fst (core_exec x c)) = None"
  by (cases x; cases "core_st c"; simp add: gw_defs Let_def)+

lemmas core_exec_facts =
  core_exec_state core_exec_reply core_exec_resp_state core_exec_no_payload

lemma core_st_eq_iff: "c = d \<longleftrightarrow> core_st c = core_st d" for c d :: Core
  by (cases c; cases d) simp

lemma lifecycle_into_RUNNING:
  "lifecycle e s = RUNNING \<Longrightarrow> s = RUNNING \<or> (e = EvStart \<and> s = INIT)"
  by (cases e) (auto split: if_splits)

lemma event_of_EvStart [simp]: "event_of x = EvStart \<longleftrightarrow> (\<exists>tmo. x = OpStart tmo)"
  by (cases x) auto

section \<open>Properties\<close>

text \<open>
  C25: every call on the core follows the documented lifecycle: the new state, the
  status code and message of the response and the state snapshot in the response are the
  ones of the lifecycle table for the event the call stands for.
\<close>

theorem core_refines_lifecycle:
  "core_st (snd (core_exec x c)) = lifecycle (event_of x) (core_st c) \<and>
   (http_status (fst (core_exec x c)), resp_message (fst (core_exec x c)))
     = lifecycle_reply (event_of x) (core_st c) \<and>
   resp_state (fst (core_exec x c)) = core_st (snd (core_exec x c))"
  by (intro conjI core_exec_state core_exec_reply core_exec_resp_state)

text \<open>
  A call is answered with status 200 or 202 exactly when it reports success, and a
  call that reports failure is answered with 400 or 409 and leaves the object unchanged.
\<close>

lemma core_response_contract:
  "(resp_ok (fst (core_exec x c)) \<longleftrightarrow> http_status (fst (core_exec x c)) \<in> {200, 202}) \<and>
   (resp_ok (fst (core_exec x c)) \<or>
    (snd (core_exec x c) = c \<and> http_status (fst (core_exec x c)) \<in> {400, 409}))"
  using core_exec_ok [of x c] core_exec_fail [of x c] by blast

lemma core_run_RUNNING_split:
  assumes "core_st (core_run xs c) = RUNNING" and "core_st c \<noteq> RUNNING"
  shows "\<exists>as tmo bs. xs = as @ OpStart tmo # bs \<and> core_st (core_run as c) = INIT \<and>
           (\<forall>n \<le> length bs. core_st (core_run (as @ OpStart tmo # take n bs) c) = RUNNING)"
  using assms
proof (induction xs rule: rev_induct)
  case Nil
  then show ?case by simp
next
  case (snoc x xs)
  let ?d = "core_run xs c"
  have step: "lifecycle (event_of x) (core_st ?d) = RUNNING"
    using snoc.prems by (simp add: core_exec_state)
  show ?case
  proof (cases "core_st ?d = RUNNING")
    case True
    then obtain as tmo bs where 1: "xs = as @ OpStart tmo # bs" "core_st (core_run as c) = INIT"
      and 2: "\<forall>n \<le> length bs. core_st (core_run (as @ OpStart tmo # take n bs) c) = RUNNING"
      using snoc.IH snoc.prems by blast
    have "core_st (core_run (as @ OpStart tmo # take n (bs @ [x])) c) = RUNNING"
      if "n \<le> length (bs @ [x])" for n
      using 1 2 snoc.prems that by (cases "n = Suc (length bs)") auto
    then show ?thesis using 1 by (intro exI [of _ as] exI [of _ tmo] exI [of _ "bs @ [x]"]) auto
  next
    case False
    then obtain tmo where "x = OpStart tmo" "core_st ?d = INIT"
      using lifecycle_into_RUNNING [OF step] by auto
    then show ?thesis using snoc.prems
      by (intro exI [of _ xs] exI [of _ tmo] exI [of _ "[]"]) auto
  qed
qed

text \<open>
  The machine is RUNNING only because of an accepted start: in every sequence of
  calls on a fresh core that ends in RUNNING there is a \<^verbatim>\<open>start_job\<close> call made in state
  INIT after which the machine has been RUNNING without interruption.
\<close>

lemma core_running_needs_start:
  assumes "core_st (core_run xs new_Core) = RUNNING"
  shows "\<exists>as tmo bs. xs = as @ OpStart tmo # bs \<and> core_st (core_run as new_Core) = INIT \<and>
           (\<forall>n \<le> length bs.
              core_st (core_run (as @ OpStart tmo # take n bs) new_Core) = RUNNING)"
  using core_run_RUNNING_split [OF assms] by (simp add: gw_defs)

end
