(* ===== verification/Job_Store.thy ===== *)
theory Job_Store
  imports Prelude
begin

text \<open>
  \<^verbatim>\<open>app/JobStore.hpp\<close>: the table of job results. The mutex makes each member function
  atomic, so a member function is one function on the table. \<^verbatim>\<open>unordered_map::at\<close>
  throws \<^verbatim>\<open>std::out_of_range\<close> on a missing key; the functions that call it return a sum.
  The locale \<open>job_table\<close> states what the users of the table (the job thread and the
  \<^verbatim>\<open>/result\<close> handler) rely on; the table itself is its interpretation.
\<close>

section \<open>Data\<close>

datatype JobStatus = PENDING | DONE | TIMEOUT | CANCELLED

text \<open>The order in which a status can change: PENDING is below the three final ones.\<close>

instantiation JobStatus :: order_bot
begin

definition less_eq_JobStatus :: "JobStatus \<Rightarrow> JobStatus \<Rightarrow> bool" where
  "x \<le> y \<longleftrightarrow> x = PENDING \<or> x = (y :: JobStatus)"

definition less_JobStatus :: "JobStatus \<Rightarrow> JobStatus \<Rightarrow> bool" where
  "x < y \<longleftrightarrow> x = PENDING \<and> y \<noteq> (PENDING :: JobStatus)"

definition bot_JobStatus :: JobStatus where
  "bot_JobStatus = PENDING"

instance
  by standard (auto simp: less_eq_JobStatus_def less_JobStatus_def bot_JobStatus_def)

end

record JobResult =
  jr_status :: JobStatus
  jr_message :: string
  jr_qr :: "string option"

definition new_JobResult :: JobResult where
  "new_JobResult = \<lparr>jr_status = PENDING, jr_message = ''PENDING'', jr_qr = None\<rparr>"

record JobStore =
  jobs :: "job_id \<rightharpoonup> JobResult"

definition new_JobStore :: JobStore where
  "new_JobStore = \<lparr>jobs = Map.empty\<rparr>"

section \<open>Operations\<close>

definition create :: "job_id \<Rightarrow> JobStore \<Rightarrow> JobStore" where
  "create jid s = s\<lparr>jobs := (jobs s)(jid \<mapsto> new_JobResult)\<rparr>"

definition exists_job :: "job_id \<Rightarrow> JobStore \<Rightarrow> bool" where
  "exists_job jid s = (case jobs s jid of None \<Rightarrow> False | Some _ \<Rightarrow> True)"

text \<open>\<^verbatim>\<open>jobs_.at(id)\<close>, and an update through the reference it returns.\<close>

definition at_job :: "job_id \<Rightarrow> JobStore \<Rightarrow> exn + JobResult" where
  "at_job jid s = (case jobs s jid of None \<Rightarrow> Inl OutOfRange | Some r \<Rightarrow> Inr r)"

definition modify_job :: "(JobResult \<Rightarrow> JobResult) \<Rightarrow> job_id \<Rightarrow> JobStore \<Rightarrow> exn + JobStore" where
  "modify_job f jid s =
     (case at_job jid s of Inl e \<Rightarrow> Inl e | Inr r \<Rightarrow> Inr (s\<lparr>jobs := (jobs s)(jid \<mapsto> f r)\<rparr>))"

definition get_job :: "job_id \<Rightarrow> JobStore \<Rightarrow> exn + JobResult" where
  "get_job jid s = at_job jid s"

definition set_done :: "job_id \<Rightarrow> string \<Rightarrow> JobStore \<Rightarrow> exn + JobStore" where
  "set_done jid q s =
     modify_job (\<lambda>r. r\<lparr>jr_status := DONE, jr_message := ''OK'', jr_qr := Some q\<rparr>) jid s"

definition set_timeout :: "job_id \<Rightarrow> JobStore \<Rightarrow> exn + JobStore" where
  "set_timeout jid s =
     modify_job (\<lambda>r. r\<lparr>jr_status := TIMEOUT, jr_message := ''TIMEOUT'', jr_qr := None\<rparr>) jid s"

definition set_cancelled :: "job_id \<Rightarrow> JobStore \<Rightarrow> exn + JobStore" where
  "set_cancelled jid s =
     modify_job (\<lambda>r. r\<lparr>jr_status := CANCELLED, jr_message := ''CANCELLED'', jr_qr := None\<rparr>) jid s"

lemmas job_store_defs [gw_defs] =
  new_JobResult_def new_JobStore_def create_def exists_job_def at_job_def modify_job_def
  get_job_def set_done_def set_timeout_def set_cancelled_def

section \<open>The table as its users see it\<close>

text \<open>
  The contract of the table. \<open>look\<close> is the abstraction: what is stored under an
  identifier. An update names the one identifier it changes and throws exactly when that
  identifier was never created.
\<close>

locale job_table =
  fixes look :: "'s \<Rightarrow> job_id \<Rightarrow> JobResult option"
    and new :: "job_id \<Rightarrow> 's \<Rightarrow> 's"
    and has :: "job_id \<Rightarrow> 's \<Rightarrow> bool"
    and fetch :: "job_id \<Rightarrow> 's \<Rightarrow> exn + JobResult"
    and finished :: "job_id \<Rightarrow> string \<Rightarrow> 's \<Rightarrow> exn + 's"
    and timed_out :: "job_id \<Rightarrow> 's \<Rightarrow> exn + 's"
    and cancelled :: "job_id \<Rightarrow> 's \<Rightarrow> exn + 's"
  assumes look_new: "look (new jid s) = (look s)(jid \<mapsto> new_JobResult)"
    and has_look: "has jid s \<longleftrightarrow> look s jid \<noteq> None"
    and fetch_look: "fetch jid s = (case look s jid of None \<Rightarrow> Inl OutOfRange | Some r \<Rightarrow> Inr r)"
    and finished_missing: "look s jid = None \<Longrightarrow> finished jid q s = Inl OutOfRange"
    and timed_out_missing: "look s jid = None \<Longrightarrow> timed_out jid s = Inl OutOfRange"
    and cancelled_missing: "look s jid = None \<Longrightarrow> cancelled jid s = Inl OutOfRange"
    and finished_present: "look s jid \<noteq> None \<Longrightarrow> \<exists>t. finished jid q s = Inr t \<and>
          look t = (look s)(jid \<mapsto> \<lparr>jr_status = DONE, jr_message = ''OK'', jr_qr = Some q\<rparr>)"
    and timed_out_present: "look s jid \<noteq> None \<Longrightarrow> \<exists>t. timed_out jid s = Inr t \<and>
          look t = (look s)(jid \<mapsto>
            \<lparr>jr_status = TIMEOUT, jr_message = ''TIMEOUT'', jr_qr = None\<rparr>)"
    and cancelled_present: "look s jid \<noteq> None \<Longrightarrow> \<exists>t. cancelled jid s = Inr t \<and>
          look t = (look s)(jid \<mapsto>
            \<lparr>jr_status = CANCELLED, jr_message = ''CANCELLED'', jr_qr = None\<rparr>)"
begin

lemma guarded_fetch: "has jid s \<Longrightarrow> \<exists>r. fetch jid s = Inr r \<and> look s jid = Some r"
  by (auto simp: has_look fetch_look)

lemma guard_is_needed: "\<not> has jid s \<Longrightarrow> fetch jid s = Inl OutOfRange"
  by (simp add: has_look fetch_look)

lemma fetch_new: "fetch jid (new jid s) = Inr new_JobResult"
  by (simp add: fetch_look look_new)

lemma fetch_new_other: "k \<noteq> jid \<Longrightarrow> fetch k (new jid s) = fetch k s"
  by (simp add: fetch_look look_new)

lemma update_other:
  "look s jid \<noteq> None \<Longrightarrow> k \<noteq> jid \<Longrightarrow>
     finished jid q s = Inr t \<or> timed_out jid s = Inr t \<or> cancelled jid s = Inr t \<Longrightarrow>
     fetch k t = fetch k s"
  using finished_present [of s jid q] timed_out_present [of s jid] cancelled_present [of s jid]
  by (auto simp: fetch_look)

end

interpretation store: job_table jobs create exists_job get_job set_done set_timeout set_cancelled
  by unfold_locales (auto simp: gw_defs split: option.splits)

section \<open>Well-formed results\<close>

text \<open>
  The status, the message and the payload of a stored result always agree; a payload is
  there exactly for a finished job.
\<close>

fun wf_result :: "JobResult \<Rightarrow> bool" where
  "wf_result r =
     (jr_message r = (case jr_status r of PENDING \<Rightarrow> ''PENDING'' | DONE \<Rightarrow> ''OK''
        | TIMEOUT \<Rightarrow> ''TIMEOUT'' | CANCELLED \<Rightarrow> ''CANCELLED'') \<and>
      (jr_qr r \<noteq> None \<longleftrightarrow> jr_status r = DONE))"

definition wf_store :: "JobStore \<Rightarrow> bool" where
  "wf_store s \<longleftrightarrow> (\<forall>jid r. jobs s jid = Some r \<longrightarrow> wf_result r)"

lemma wf_storeD: "wf_store s \<Longrightarrow> jobs s jid = Some r \<Longrightarrow> wf_result r"
  by (simp add: wf_store_def)

lemma wf_store_upd: "wf_store s \<Longrightarrow> wf_result r \<Longrightarrow> wf_store (s\<lparr>jobs := (jobs s)(jid \<mapsto> r)\<rparr>)"
  by (auto simp: wf_store_def)

lemma wf_new_JobStore [gw_inv]: "wf_store new_JobStore"
  by (simp add: wf_store_def gw_defs)

lemma wf_create [gw_inv]: "wf_store s \<Longrightarrow> wf_store (create jid s)"
  by (simp add: create_def new_JobResult_def wf_store_upd)

lemma wf_modify:
  "wf_store s \<Longrightarrow> modify_job f jid s = Inr t \<Longrightarrow> (\<And>r. wf_result (f r)) \<Longrightarrow> wf_store t"
  by (auto simp: modify_job_def at_job_def split: option.splits intro!: wf_store_upd)

lemma wf_set_done [gw_inv]: "wf_store s \<Longrightarrow> set_done jid q s = Inr t \<Longrightarrow> wf_store t"
  by (auto simp: set_done_def elim!: wf_modify)

lemma wf_set_timeout [gw_inv]: "wf_store s \<Longrightarrow> set_timeout jid s = Inr t \<Longrightarrow> wf_store t"
  by (auto simp: set_timeout_def elim!: wf_modify)

lemma wf_set_cancelled [gw_inv]: "wf_store s \<Longrightarrow> set_cancelled jid s = Inr t \<Longrightarrow> wf_store t"
  by (auto simp: set_cancelled_def elim!: wf_modify)

section \<open>Sequences of calls\<close>

text \<open>A call on the table; a call that throws leaves the table as it was.\<close>

datatype store_op = OpCreate job_id | OpDone job_id string | OpTimeout job_id | OpCancel job_id

fun store_exec :: "store_op \<Rightarrow> JobStore \<Rightarrow> exn + JobStore" where
  "store_exec (OpCreate jid) s = Inr (create jid s)"
| "store_exec (OpDone jid q) s = set_done jid q s"
| "store_exec (OpTimeout jid) s = set_timeout jid s"
| "store_exec (OpCancel jid) s = set_cancelled jid s"

fun op_id :: "store_op \<Rightarrow> job_id" where
  "op_id (OpCreate jid) = jid"
| "op_id (OpDone jid q) = jid"
| "op_id (OpTimeout jid) = jid"
| "op_id (OpCancel jid) = jid"

fun op_result :: "store_op \<Rightarrow> JobResult" where
  "op_result (OpCreate jid) = new_JobResult"
| "op_result (OpDone jid q) = \<lparr>jr_status = DONE, jr_message = ''OK'', jr_qr = Some q\<rparr>"
| "op_result (OpTimeout jid) = \<lparr>jr_status = TIMEOUT, jr_message = ''TIMEOUT'', jr_qr = None\<rparr>"
| "op_result (OpCancel jid) =
     \<lparr>jr_status = CANCELLED, jr_message = ''CANCELLED'', jr_qr = None\<rparr>"

fun store_run :: "store_op list \<Rightarrow> JobStore \<Rightarrow> JobStore" where
  "store_run [] s = s"
| "store_run (x # xs) s = store_run xs (case store_exec x s of Inl _ \<Rightarrow> s | Inr t \<Rightarrow> t)"

lemma store_run_append [simp]: "store_run (xs @ ys) s = store_run ys (store_run xs s)"
  by (induction xs arbitrary: s) auto

lemma wf_store_exec: "wf_store s \<Longrightarrow> store_exec x s = Inr t \<Longrightarrow> wf_store t"
  by (cases x) (auto intro: gw_inv)

lemma wf_store_run: "wf_store s \<Longrightarrow> wf_store (store_run xs s)"
  by (induction xs arbitrary: s) (auto split: sum.splits intro: wf_store_exec)

lemma wf_result_op: "wf_result (op_result x)"
  by (cases x) (auto simp: new_JobResult_def)

lemma store_exec_look:
  "jobs (case store_exec x s of Inl _ \<Rightarrow> s | Inr t \<Rightarrow> t) =
     (if (\<exists>jid. x = OpCreate jid) \<or> jobs s (op_id x) \<noteq> None
      then (jobs s)(op_id x \<mapsto> op_result x) else jobs s)"
  by (cases x) (auto simp: gw_defs split: option.splits)

text \<open>
  A lookup returns the effect of the last call on that identifier: after any
  sequence of calls that begins with the creation of a job, what \<^verbatim>\<open>get\<close> returns for it is
  the result written by the last call that names it, whatever was done to other jobs.
\<close>

lemma store_last_write_wins:
  "get_job jid (store_run (OpCreate jid # xs) s) =
     Inr (op_result (last (OpCreate jid # filter (\<lambda>x. op_id x = jid) xs)))"
proof -
  have "jobs (store_run (OpCreate jid # xs) s) jid =
      Some (op_result (last (OpCreate jid # filter (\<lambda>x. op_id x = jid) xs)))"
  proof (induction xs rule: rev_induct)
    case Nil
    then show ?case by (simp add: gw_defs)
  next
    case (snoc x xs)
    have split: "store_run (OpCreate jid # xs @ [x]) s =
        (case store_exec x (store_run (OpCreate jid # xs) s) of
           Inl _ \<Rightarrow> store_run (OpCreate jid # xs) s | Inr t \<Rightarrow> t)"
      by (simp split: sum.split)
    show ?case unfolding split store_exec_look using snoc.IH by auto
  qed
  then show ?thesis by (simp add: get_job_def at_job_def)
qed

text \<open>
  A table reached from the empty one by any sequence of calls is well-formed: in
  every result \<^verbatim>\<open>get\<close> returns, the message is the one of the status and a QR payload is
  present exactly when the status is DONE.
\<close>

lemma store_results_well_formed:
  "case get_job jid (store_run xs new_JobStore) of
     Inl e \<Rightarrow> \<not> exists_job jid (store_run xs new_JobStore)
   | Inr r \<Rightarrow> exists_job jid (store_run xs new_JobStore) \<and> wf_result r"
proof -
  have wf: "wf_store (store_run xs new_JobStore)"
    by (rule wf_store_run [OF wf_new_JobStore])
  show ?thesis
  proof (cases "exists_job jid (store_run xs new_JobStore)")
    case True
    then obtain r where "get_job jid (store_run xs new_JobStore) = Inr r"
      and "jobs (store_run xs new_JobStore) jid = Some r"
      using store.guarded_fetch by blast
    then show ?thesis using True wf by (auto dest: wf_storeD)
  next
    case False
    then show ?thesis by (simp add: store.guard_is_needed)
  qed
qed

end
