(* ===== verification/Dispatcher.thy ===== *)
theory Dispatcher
  imports Core_Machine
begin

text \<open>
  \<^verbatim>\<open>app/Dispatcher.hpp\<close>: the single worker thread that serialises the calls on the
  core. The object is a record: the core it owns a reference to, the queue, the stop
  flag, the program point of the worker thread, and the shared states of the promises it
  handed out (a promise is the number of its task; \<open>None\<close> means the future is not ready).
  A member function that runs under the mutex is one atomic function. The worker's loop is
  cut at the points where other threads can see a difference: taking a task from the
  queue, running it on the core, fulfilling its promise.
\<close>

section \<open>Data\<close>

datatype Kind = SYNC_COMMAND | START_JOB | STOP | FINISH_JOB

record Task =
  task_kind :: Kind
  task_command :: string
  task_timeout_ms :: int
  task_prom :: nat

text \<open>A default-constructed task, with the promise the object is given.\<close>

definition new_Task :: "nat \<Rightarrow> Task" where
  "new_Task p = \<lparr>task_kind = SYNC_COMMAND, task_command = [], task_timeout_ms = 0, task_prom = p\<rparr>"

datatype worker_pc = Waiting | GotTask Task | Ran Task Response | Exited

record Dispatcher =
  d_core :: Core
  d_q :: "Task list"
  d_stopping :: bool
  d_worker :: worker_pc
  d_proms :: "nat \<rightharpoonup> Response"
  d_next :: nat

definition new_Dispatcher :: "Core \<Rightarrow> Dispatcher" where
  "new_Dispatcher c = \<lparr>d_core = c, d_q = [], d_stopping = False, d_worker = Waiting,
     d_proms = Map.empty, d_next = 0\<rparr>"

section \<open>Submission\<close>

definition push :: "Task \<Rightarrow> Dispatcher \<Rightarrow> Dispatcher" where
  "push t d = d\<lparr>d_q := d_q d @ [t]\<rparr>"

text \<open>A fresh promise for the task that is being built.\<close>

definition get_future :: "Dispatcher \<Rightarrow> nat \<times> Dispatcher" where
  "get_future d = (d_next d, d\<lparr>d_next := Suc (d_next d)\<rparr>)"

definition submit_sync :: "string \<Rightarrow> Dispatcher \<Rightarrow> nat \<times> Dispatcher" where
  "submit_sync cmd d =
     (let (fut, d) = get_future d;
          t = (new_Task fut)\<lparr>task_kind := SYNC_COMMAND, task_command := cmd\<rparr>
      in (fut, push t d))"

definition submit_start_job :: "int \<Rightarrow> Dispatcher \<Rightarrow> nat \<times> Dispatcher" where
  "submit_start_job timeout_ms d =
     (let (fut, d) = get_future d;
          t = (new_Task fut)\<lparr>task_kind := START_JOB, task_timeout_ms := timeout_ms\<rparr>
      in (fut, push t d))"

definition submit_stop :: "Dispatcher \<Rightarrow> nat \<times> Dispatcher" where
  "submit_stop d =
     (let (fut, d) = get_future d; t = (new_Task fut)\<lparr>task_kind := STOP\<rparr> in (fut, push t d))"

definition submit_finish_job :: "Dispatcher \<Rightarrow> nat \<times> Dispatcher" where
  "submit_finish_job d =
     (let (fut, d) = get_future d; t = (new_Task fut)\<lparr>task_kind := FINISH_JOB\<rparr>
      in (fut, push t d))"

text \<open>
  The first half of \<^verbatim>\<open>stop()\<close>: the flag, unless it is already set. The second half joins
  the worker, which a caller can pass once \<open>join_ready\<close> holds; a caller that found the
  flag set returns without joining.
\<close>

definition dispatcher_stop :: "Dispatcher \<Rightarrow> Dispatcher" where
  "dispatcher_stop d = (if d_stopping d then d else d\<lparr>d_stopping := True\<rparr>)"

definition join_ready :: "Dispatcher \<Rightarrow> bool" where
  "join_ready d \<longleftrightarrow> d_worker d = Exited"

section \<open>The worker\<close>

text \<open>
  One task on the core, with the catch-all handler around it: \<open>throws\<close> says whether the
  call throws (an allocation failure is the only exception the core can raise), in which
  case the core is unchanged and the response is the internal error.
\<close>

definition run_task :: "bool \<Rightarrow> Task \<Rightarrow> Core \<Rightarrow> Response \<times> Core" where
  "run_task throws t c =
     (if throws then
        (new_Response\<lparr>resp_ok := False, http_status := 500, resp_command := ''INTERNAL'',
           resp_state := core_st c, resp_message := ''ERR:INTERNAL''\<rparr>, c)
      else if task_kind t = SYNC_COMMAND then handle_sync_command (task_command t) c
      else if task_kind t = START_JOB then start_job (task_timeout_ms t) c
      else if task_kind t = FINISH_JOB then finish_job c
      else core_stop c)"

definition worker_step :: "(nat \<Rightarrow> bool) \<Rightarrow> Dispatcher \<Rightarrow> Dispatcher" where
  "worker_step thr d =
     (case d_worker d of
        Waiting \<Rightarrow>
          (if d_stopping d \<or> d_q d \<noteq> [] then
             (case d_q d of
                [] \<Rightarrow> d\<lparr>d_worker := Exited\<rparr>
              | t # q \<Rightarrow> d\<lparr>d_worker := GotTask t, d_q := q\<rparr>)
           else d)
      | GotTask t \<Rightarrow>
          (let (r, c) = run_task (thr (task_prom t)) t (d_core d)
           in d\<lparr>d_core := c, d_worker := Ran t r\<rparr>)
      | Ran t r \<Rightarrow> d\<lparr>d_proms := (d_proms d)(task_prom t \<mapsto> r), d_worker := Waiting\<rparr>
      | Exited \<Rightarrow> d)"

section \<open>Interleavings\<close>

text \<open>
  What the threads of the service do to the dispatcher, one atomic action at a time and in
  any order: a request thread or the job thread submits, some thread asks it to stop, or
  the worker takes a step.
\<close>

datatype disp_event = Submit core_op | StopRequest | Worker

fun submit :: "core_op \<Rightarrow> Dispatcher \<Rightarrow> nat \<times> Dispatcher" where
  "submit (OpSync cmd) d = submit_sync cmd d"
| "submit (OpStart tmo) d = submit_start_job tmo d"
| "submit OpStop d = submit_stop d"
| "submit OpFinish d = submit_finish_job d"

fun disp_step :: "(nat \<Rightarrow> bool) \<Rightarrow> disp_event \<Rightarrow> Dispatcher \<Rightarrow> Dispatcher" where
  "disp_step thr (Submit x) d = snd (submit x d)"
| "disp_step thr StopRequest d = dispatcher_stop d"
| "disp_step thr Worker d = worker_step thr d"

fun disp_run :: "(nat \<Rightarrow> bool) \<Rightarrow> disp_event list \<Rightarrow> Dispatcher \<Rightarrow> Dispatcher" where
  "disp_run thr [] d = d"
| "disp_run thr (e # es) d = disp_run thr es (disp_step thr e d)"

fun submitted :: "disp_event list \<Rightarrow> core_op list" where
  "submitted [] = []"
| "submitted (Submit x # es) = x # submitted es"
| "submitted (_ # es) = submitted es"

lemma disp_run_append [simp]: "disp_run thr (es @ fs) d = disp_run thr fs (disp_run thr es d)"
  by (induction es arbitrary: d) auto

lemma submitted_append [simp]: "submitted (es @ fs) = submitted es @ submitted fs"
  by (induction es rule: submitted.induct) auto

lemma disp_run_Worker: "disp_run thr (replicate n Worker) d = (worker_step thr ^^ n) d"
  by (induction n arbitrary: d) (simp_all del: funpow.simps add: funpow_Suc_shift)

section \<open>The serial execution\<close>

text \<open>
  The specification: the calls one after the other, in the order of submission. The task
  with number \<open>i\<close> of a submission list is \<open>task_of i\<close> of its call; \<open>serial_core\<close> is the
  core after the first \<open>k\<close> calls and \<open>serial_response\<close> the answer to call \<open>i\<close>.
\<close>

fun task_of :: "nat \<Rightarrow> core_op \<Rightarrow> Task" where
  "task_of i (OpSync cmd) = (new_Task i)\<lparr>task_kind := SYNC_COMMAND, task_command := cmd\<rparr>"
| "task_of i (OpStart tmo) = (new_Task i)\<lparr>task_kind := START_JOB, task_timeout_ms := tmo\<rparr>"
| "task_of i OpStop = (new_Task i)\<lparr>task_kind := STOP\<rparr>"
| "task_of i OpFinish = (new_Task i)\<lparr>task_kind := FINISH_JOB\<rparr>"

definition guarded_exec :: "bool \<Rightarrow> core_op \<Rightarrow> Core \<Rightarrow> Response \<times> Core" where
  "guarded_exec throws x c =
     (if throws then
        (new_Response\<lparr>resp_ok := False, http_status := 500, resp_command := ''INTERNAL'',
           resp_state := core_st c, resp_message := ''ERR:INTERNAL''\<rparr>, c)
      else core_exec x c)"

fun serial_core :: "(nat \<Rightarrow> bool) \<Rightarrow> core_op list \<Rightarrow> Core \<Rightarrow> nat \<Rightarrow> Core" where
  "serial_core thr xs c 0 = c"
| "serial_core thr xs c (Suc k) = snd (guarded_exec (thr k) (xs ! k) (serial_core thr xs c k))"

definition serial_response :: "(nat \<Rightarrow> bool) \<Rightarrow> core_op list \<Rightarrow> Core \<Rightarrow> nat \<Rightarrow> Response" where
  "serial_response thr xs c i = fst (guarded_exec (thr i) (xs ! i) (serial_core thr xs c i))"

lemma task_prom_task_of [simp]: "task_prom (task_of i x) = i"
  by (cases x) (auto simp: new_Task_def)

lemma run_task_task_of [simp]: "run_task b (task_of i x) c = guarded_exec b x c"
  by (cases x) (auto simp: run_task_def guarded_exec_def new_Task_def)

lemma submit_eq:
  "submit x d = (d_next d, d\<lparr>d_next := Suc (d_next d), d_q := d_q d @ [task_of (d_next d) x]\<rparr>)"
  by (cases x) (auto simp: submit_sync_def submit_start_job_def submit_stop_def
      submit_finish_job_def get_future_def push_def)

lemma serial_core_append: "k \<le> length xs \<Longrightarrow> serial_core thr (xs @ ys) c k = serial_core thr xs c k"
  by (induction k) (auto simp: nth_append)

lemma serial_response_append:
  "i < length xs \<Longrightarrow> serial_response thr (xs @ ys) c i = serial_response thr xs c i"
  by (simp add: serial_response_def serial_core_append nth_append)

lemma serial_core_no_throw:
  "(\<forall>i < k. \<not> thr i) \<Longrightarrow> k \<le> length xs \<Longrightarrow> serial_core thr xs c k = core_run (take k xs) c"
  by (induction k) (auto simp: guarded_exec_def take_Suc_conv_app_nth)

section \<open>The invariant\<close>

fun in_hand :: "worker_pc \<Rightarrow> Task list" where
  "in_hand (GotTask t) = [t]"
| "in_hand (Ran t r) = [t]"
| "in_hand _ = []"

text \<open>
  \<open>k\<close> calls are answered; the task in the worker's hand and the queue hold the others,
  in order; the core is the one the serial execution has at that point.
\<close>

definition serial_at ::
  "(nat \<Rightarrow> bool) \<Rightarrow> core_op list \<Rightarrow> Core \<Rightarrow> nat \<Rightarrow> Dispatcher \<Rightarrow> bool" where
  "serial_at thr xs c k d \<longleftrightarrow>
     k \<le> length xs \<and> d_next d = length xs \<and>
     in_hand (d_worker d) @ d_q d = map (\<lambda>i. task_of i (xs ! i)) [k..<length xs] \<and>
     d_proms d = (\<lambda>i. if i < k then Some (serial_response thr xs c i) else None) \<and>
     (case d_worker d of
        Ran t r \<Rightarrow> r = serial_response thr xs c k \<and> d_core d = serial_core thr xs c (Suc k)
      | _ \<Rightarrow> d_core d = serial_core thr xs c k)"

lemma serial_at_new: "serial_at thr [] c 0 (new_Dispatcher c)"
  by (simp add: serial_at_def new_Dispatcher_def)

lemma serial_at_stop [gw_inv]: "serial_at thr xs c k d \<Longrightarrow> serial_at thr xs c k (dispatcher_stop d)"
  by (cases "d_worker d") (simp_all add: serial_at_def dispatcher_stop_def)

lemma serial_at_submit [gw_inv]:
  assumes "serial_at thr xs c k d"
  shows "serial_at thr (xs @ [x]) c k (snd (submit x d))"
proof -
  have "map (\<lambda>i. task_of i ((xs @ [x]) ! i)) [k..<length xs] = map (\<lambda>i. task_of i (xs ! i)) [k..<length xs]"
    by (auto simp: nth_append)
  moreover have "in_hand (d_worker d) \<noteq> [] \<Longrightarrow> k < length xs"
    using assms by (cases "k < length xs") (auto simp: serial_at_def)
  ultimately show ?thesis using assms
    by (auto simp: serial_at_def submit_eq serial_core_append serial_response_append fun_eq_iff
        nth_append split: worker_pc.splits)
qed

lemma serial_at_hand:
  assumes "serial_at thr xs c k d" and "in_hand (d_worker d) @ d_q d = t # ts"
  shows "k < length xs" "t = task_of k (xs ! k)"
    "ts = map (\<lambda>i. task_of i (xs ! i)) [Suc k..<length xs]"
proof -
  have eq: "t # ts = map (\<lambda>i. task_of i (xs ! i)) [k..<length xs]"
    using assms by (simp add: serial_at_def)
  then show k: "k < length xs" by (cases "k < length xs") auto
  show "t = task_of k (xs ! k)" "ts = map (\<lambda>i. task_of i (xs ! i)) [Suc k..<length xs]"
    using eq by (simp_all add: upt_conv_Cons [OF k])
qed

lemma serial_at_worker [gw_inv]:
  assumes "serial_at thr xs c k d"
  shows "\<exists>k'. serial_at thr xs c k' (worker_step thr d)"
proof (cases "d_worker d")
  case Waiting
  then show ?thesis using assms
    by (intro exI [of _ k]) (auto simp: serial_at_def worker_step_def split: list.splits)
next
  case (GotTask t)
  then have "t = task_of k (xs ! k)"
    using serial_at_hand [OF assms] by simp
  then show ?thesis using assms GotTask
    by (intro exI [of _ k])
      (auto simp: serial_at_def worker_step_def serial_response_def split: prod.splits)
next
  case (Ran t r)
  then have h: "k < length xs" "t = task_of k (xs ! k)"
      "d_q d = map (\<lambda>i. task_of i (xs ! i)) [Suc k..<length xs]"
    using serial_at_hand [OF assms] by simp_all
  then show ?thesis using assms Ran
    by (intro exI [of _ "Suc k"])
      (auto simp: serial_at_def worker_step_def fun_eq_iff less_Suc_eq)
next
  case Exited
  then show ?thesis using assms by (auto simp: worker_step_def)
qed

lemma serial_at_run: "\<exists>k. serial_at thr (submitted es) c k (disp_run thr es (new_Dispatcher c))"
proof (induction es rule: rev_induct)
  case Nil
  show ?case using serial_at_new by force
next
  case (snoc e es)
  then obtain k where "serial_at thr (submitted es) c k (disp_run thr es (new_Dispatcher c))" ..
  then show ?case by (cases e) (auto intro: gw_inv)
qed

section \<open>Progress of the worker\<close>

lemma worker_step_frame [simp]:
  "d_next (worker_step thr d) = d_next d" "d_stopping (worker_step thr d) = d_stopping d"
  by (auto simp: worker_step_def split: worker_pc.splits list.splits prod.splits)

text \<open>The number of worker steps that are enough to answer every task at hand.\<close>

definition work_left :: "Dispatcher \<Rightarrow> nat" where
  "work_left d =
     3 * length (d_q d) +
     (case d_worker d of GotTask t \<Rightarrow> 2 | Ran t r \<Rightarrow> 1 | _ \<Rightarrow> 0)"

lemma work_left_le: "work_left d \<le> 3 * length (in_hand (d_worker d) @ d_q d)"
  by (cases "d_worker d") (auto simp: work_left_def)

lemma work_left_step:
  "d_worker d \<noteq> Exited \<Longrightarrow> work_left (worker_step thr d) = work_left d - 1"
  by (auto simp: work_left_def worker_step_def split: worker_pc.splits list.splits prod.splits)

lemma worker_step_not_Exited:
  "d_worker d \<noteq> Exited \<Longrightarrow> work_left d \<noteq> 0 \<Longrightarrow> d_worker (worker_step thr d) \<noteq> Exited"
  by (auto simp: work_left_def worker_step_def split: worker_pc.splits list.splits prod.splits)

lemma worker_step_idle:
  "d_worker d \<noteq> Exited \<Longrightarrow> work_left d = 0 \<Longrightarrow>
     worker_step thr d = (if d_stopping d then d\<lparr>d_worker := Exited\<rparr> else d)"
  by (auto simp: work_left_def worker_step_def split: worker_pc.splits list.splits)

lemma worker_step_Exited: "d_worker d = Exited \<Longrightarrow> (worker_step thr ^^ n) d = d"
  by (induction n) (auto simp: worker_step_def)

lemma worker_steps_done:
  assumes "d_worker d \<noteq> Exited" and "work_left d \<le> n"
  shows "work_left ((worker_step thr ^^ n) d) = 0"
  using assms
proof (induction n arbitrary: d)
  case 0
  then show ?case by simp
next
  case (Suc n)
  show ?case
  proof (cases "work_left d = 0")
    case False
    then show ?thesis using Suc.prems
      by (simp del: funpow.simps add: funpow_Suc_shift Suc.IH worker_step_not_Exited work_left_step)
  next
    case True
    have q: "d_q d = []" using True by (simp add: work_left_def)
    show ?thesis
    proof (cases "d_stopping d")
      case True
      then show ?thesis using Suc.prems \<open>work_left d = 0\<close>
        by (simp del: funpow.simps
            add: funpow_Suc_shift worker_step_idle worker_step_Exited work_left_def q)
    next
      case False
      then show ?thesis using Suc.prems Suc.IH [of d] \<open>work_left d = 0\<close>
        by (simp del: funpow.simps add: funpow_Suc_shift worker_step_idle)
    qed
  qed
qed

lemma serial_at_all_answered:
  "serial_at thr xs c k d \<Longrightarrow> work_left d = 0 \<Longrightarrow> k = length xs"
  by (auto simp: serial_at_def work_left_def split: worker_pc.splits)

section \<open>Properties\<close>

text \<open>
  The dispatcher is linearizable to the serial execution. However submissions, stop
  requests and worker steps interleave, there is a number \<open>k\<close> of answered calls such that the
  futures that are ready are exactly those of the first \<open>k\<close> submissions, each holds the
  response the serial execution gives to it, and, unless the worker is between running a task
  and fulfilling its promise, the core is the one the serial execution reaches after \<open>k\<close> calls.
\<close>

lemma dispatcher_serializes:
  "\<exists>k \<le> length (submitted es).
     d_proms (disp_run thr es (new_Dispatcher c)) =
       (\<lambda>i. if i < k then Some (serial_response thr (submitted es) c i) else None) \<and>
     (case d_worker (disp_run thr es (new_Dispatcher c)) of
        Ran t r \<Rightarrow> d_core (disp_run thr es (new_Dispatcher c))
                      = serial_core thr (submitted es) c (Suc k)
      | _ \<Rightarrow> d_core (disp_run thr es (new_Dispatcher c)) = serial_core thr (submitted es) c k)"
  using serial_at_run [of thr es c] by (auto simp: serial_at_def split: worker_pc.splits)

text \<open>
  No submission is lost while the worker lives: from every reachable state in which the
  worker thread has not returned, three worker steps per submitted call are enough to make
  every future that was handed out ready, with the response of the serial execution.
\<close>

lemma dispatcher_answers_all:
  assumes "d_worker (disp_run thr es (new_Dispatcher c)) \<noteq> Exited"
    and "3 * length (submitted es) \<le> n" and "i < length (submitted es)"
  shows "d_proms (disp_run thr (es @ replicate n Worker) (new_Dispatcher c)) i
           = Some (serial_response thr (submitted es) c i)"
proof -
  let ?d = "disp_run thr es (new_Dispatcher c)"
  let ?e = "disp_run thr (es @ replicate n Worker) (new_Dispatcher c)"
  obtain k where k: "serial_at thr (submitted es) c k ?d" using serial_at_run by blast
  have "length (in_hand (d_worker ?d) @ d_q ?d) \<le> length (submitted es)"
    using k by (simp add: serial_at_def del: length_append)
  then have "work_left ?d \<le> n" using work_left_le [of ?d] assms(2) by linarith
  then have w: "work_left ?e = 0"
    using worker_steps_done [OF assms(1)] by (simp add: disp_run_Worker)
  have sub: "submitted (es @ replicate n Worker) = submitted es"
    by (simp, induction n) auto
  obtain k' where k': "serial_at thr (submitted es) c k' ?e"
    using serial_at_run [of thr "es @ replicate n Worker" c] unfolding sub by blast
  have "k' = length (submitted es)" using serial_at_all_answered [OF k' w] .
  then show ?thesis using k' assms(3) by (simp add: serial_at_def)
qed

text \<open>
  A graceful stop drains the queue: at the worker step that makes the worker return,
  the stop flag is set and every future handed out so far is ready.
\<close>

lemma dispatcher_stop_drains:
  assumes "d_worker (disp_run thr es (new_Dispatcher c)) \<noteq> Exited"
    and "d_worker (disp_run thr (es @ [Worker]) (new_Dispatcher c)) = Exited"
  shows "d_stopping (disp_run thr es (new_Dispatcher c)) \<and>
         (\<forall>i < length (submitted es).
            d_proms (disp_run thr (es @ [Worker]) (new_Dispatcher c)) i
              = Some (serial_response thr (submitted es) c i))"
proof -
  let ?d = "disp_run thr es (new_Dispatcher c)"
  obtain k where k: "serial_at thr (submitted es) c k ?d" using serial_at_run by blast
  have w: "work_left ?d = 0" using worker_step_not_Exited [OF assms(1)] assms(2) by auto
  then have step: "worker_step thr ?d = (if d_stopping ?d then ?d\<lparr>d_worker := Exited\<rparr> else ?d)"
    using worker_step_idle [OF assms(1)] by blast
  then have "d_stopping ?d" using assms by (auto split: if_splits)
  moreover have "k = length (submitted es)" using serial_at_all_answered [OF k w] .
  ultimately show ?thesis using k step by (simp add: serial_at_def)
qed

lemma exited_for_good:
  "d_worker d = Exited \<Longrightarrow>
     d_worker (disp_run thr es d) = Exited \<and> d_proms (disp_run thr es d) = d_proms d"
proof (induction es arbitrary: d)
  case Nil
  then show ?case by simp
next
  case (Cons e es)
  have "d_worker (disp_step thr e d) = Exited" "d_proms (disp_step thr e d) = d_proms d"
    using Cons.prems by (cases e; simp add: submit_eq dispatcher_stop_def worker_step_def)+
  then show ?case using Cons.IH [of "disp_step thr e d"] by simp
qed

text \<open>
  The other side of the stop: a submission that arrives after the worker returned is
  accepted, and its future never becomes ready, whatever happens afterwards.
\<close>

lemma submit_after_exit_never_answered:
  assumes "d_worker (disp_run thr es (new_Dispatcher c)) = Exited"
  shows "d_proms (disp_run thr (es @ Submit x # fs) (new_Dispatcher c))
           (length (submitted es)) = None"
proof -
  let ?d = "disp_run thr es (new_Dispatcher c)"
  obtain k where k: "serial_at thr (submitted es) c k ?d" using serial_at_run by blast
  have "d_proms (disp_run thr (es @ Submit x # fs) (new_Dispatcher c)) = d_proms ?d"
    using exited_for_good [OF assms, of thr "Submit x # fs"] by simp
  then show ?thesis using k by (simp add: serial_at_def)
qed

section \<open>The dispatcher as its clients see it\<close>

text \<open>
  What a client that waits for its answer relies on: an executor at rest runs the call it
  is given on the core it owns and answers with the response of that call.
\<close>

locale core_executor =
  fixes ask :: "core_op \<Rightarrow> 'd \<Rightarrow> nat \<times> 'd"
    and work :: "'d \<Rightarrow> 'd"
    and answer :: "'d \<Rightarrow> nat \<Rightarrow> Response option"
    and the_core :: "'d \<Rightarrow> Core"
    and at_rest :: "'d \<Rightarrow> bool"
  assumes ask_keeps_core: "the_core (snd (ask x d)) = the_core d"
    and answered: "at_rest d \<Longrightarrow> 3 \<le> n \<Longrightarrow> answer ((work ^^ n) (snd (ask x d))) (fst (ask x d))
          = Some (fst (core_exec x (the_core d)))"
    and executed: "at_rest d \<Longrightarrow> 3 \<le> n \<Longrightarrow>
          the_core ((work ^^ n) (snd (ask x d))) = snd (core_exec x (the_core d))"
    and rests_again: "at_rest d \<Longrightarrow> 3 \<le> n \<Longrightarrow> at_rest ((work ^^ n) (snd (ask x d)))"
begin

text \<open>A client that submits its calls one by one and waits for each answer.\<close>

fun dialogue :: "nat \<Rightarrow> core_op list \<Rightarrow> 'd \<Rightarrow> 'd" where
  "dialogue n [] d = d"
| "dialogue n (x # xs) d = dialogue n xs ((work ^^ n) (snd (ask x d)))"

lemma dialogue_runs_core:
  "at_rest d \<Longrightarrow> 3 \<le> n \<Longrightarrow>
     the_core (dialogue n xs d) = core_run xs (the_core d) \<and> at_rest (dialogue n xs d)"
  by (induction xs arbitrary: d) (auto simp: executed rests_again)

lemma dialogue_answer:
  "at_rest d \<Longrightarrow> 3 \<le> n \<Longrightarrow>
     answer ((work ^^ n) (snd (ask x (dialogue n xs d)))) (fst (ask x (dialogue n xs d)))
       = Some (fst (core_exec x (core_run xs (the_core d))))"
  using dialogue_runs_core [of d n xs] by (simp add: answered)

end

definition at_rest :: "Dispatcher \<Rightarrow> bool" where
  "at_rest d \<longleftrightarrow> d_worker d = Waiting \<and> d_q d = [] \<and> \<not> d_stopping d"

lemma at_rest_new [simp]: "at_rest (new_Dispatcher c)"
  by (simp add: at_rest_def new_Dispatcher_def)

lemma at_rest_stays: "at_rest d \<Longrightarrow> (worker_step thr ^^ n) d = d"
  by (induction n) (auto simp: at_rest_def worker_step_def)

lemma three_steps:
  assumes "at_rest d" and "\<not> thr (d_next d)"
  shows "(worker_step thr ^^ 3) (snd (submit x d)) =
    d\<lparr>d_next := Suc (d_next d), d_core := snd (core_exec x (d_core d)),
      d_proms := (d_proms d)(d_next d \<mapsto> fst (core_exec x (d_core d)))\<rparr>"
  using assms
  by (simp add: at_rest_def submit_eq worker_step_def numeral_3_eq_3 guarded_exec_def
      split: prod.splits)

lemma at_rest_served [simp]:
  "at_rest (d\<lparr>d_next := n, d_core := c, d_proms := p\<rparr>) = at_rest d"
  by (simp add: at_rest_def)

lemma submit_simps [simp]: "fst (submit x d) = d_next d" "d_core (snd (submit x d)) = d_core d"
  by (simp_all add: submit_eq)

lemma served:
  assumes "at_rest d" and "\<not> thr (d_next d)" and "3 \<le> n"
  shows "(worker_step thr ^^ n) (snd (submit x d)) =
    d\<lparr>d_next := Suc (d_next d), d_core := snd (core_exec x (d_core d)),
      d_proms := (d_proms d)(d_next d \<mapsto> fst (core_exec x (d_core d)))\<rparr>" (is "_ = ?e")
proof -
  have n: "n = (n - 3) + 3" using assms(3) by simp
  have three: "(worker_step thr ^^ 3) (snd (submit x d)) = ?e"
    using assms(1,2) by (rule three_steps)
  have "at_rest ?e" using assms(1) by simp
  then show ?thesis by (subst n) (simp only: funpow_add o_apply three at_rest_stays)
qed

interpretation disp: core_executor submit "worker_step (\<lambda>_. False)" d_proms d_core at_rest
  by unfold_locales (simp_all add: served)

end
