(* ===== verification/Dispatcher_Monitor.thy ===== *)
theory Dispatcher_Monitor
  imports Dispatcher
begin

text \<open>
  The monitor inside \<^verbatim>\<open>app/Dispatcher.hpp\<close>, below the atomic member functions of \<open>Dispatcher\<close>: the
  mutex \<^verbatim>\<open>m_\<close>, the condition variable \<^verbatim>\<open>cv_\<close>, and every thread cut at each lock, unlock, test, wait and
  notification. \<^verbatim>\<open>cv_.wait(lk, pred)\<close> is the loop it is defined as: test the predicate under the
  lock, release and sleep when it is false, and test again after a notification or a spurious
  wake-up.
\<close>

section \<open>Threads\<close>

text \<open>The program points of \<^verbatim>\<open>loop()\<close>. At \<open>WSleep\<close> the worker is in the wait set of the condition variable.\<close>

datatype worker_point =
    WLock | WTest | WSleep | WWake | WPop | WUnlock Task | WRun Task | WSet Task Response | WLeave | WDone

text \<open>
  The program points of a thread in \<^verbatim>\<open>submit_...\<close> and \<^verbatim>\<open>push\<close>, and of one in \<^verbatim>\<open>stop()\<close>. The promise of a
  task belongs to the calling thread until it is in the queue, so promises are numbered in the order
  of the pushes.
\<close>

datatype client_point =
    PLock core_op | PPush core_op | PUnlock nat | PNotify nat | PDone nat
  | SLock | STest | SQuit | SUnlock | SNotify | SJoin | SDone

datatype owner = ByWorker | ByClient nat

record monitor =
  mn_lock :: "owner option"
  mn_core :: Core
  mn_q :: "Task list"
  mn_stopping :: bool
  mn_proms :: "nat \<rightharpoonup> Response"
  mn_next :: nat
  mn_worker :: worker_point
  mn_clients :: "client_point list"

definition new_monitor :: "Core \<Rightarrow> monitor" where
  "new_monitor c = \<lparr>mn_lock = None, mn_core = c, mn_q = [], mn_stopping = False, mn_proms = Map.empty,
     mn_next = 0, mn_worker = WLock, mn_clients = []\<rparr>"

text \<open>Taking the mutex; \<open>None\<close> is a thread that has to wait.\<close>

definition acquire :: "owner \<Rightarrow> monitor \<Rightarrow> monitor option" where
  "acquire who s = (if mn_lock s = None then Some (s\<lparr>mn_lock := Some who\<rparr>) else None)"

definition release :: "monitor \<Rightarrow> monitor" where
  "release s = s\<lparr>mn_lock := None\<rparr>"

text \<open>The worker is the only thread that ever waits, so one notification or all is the same.\<close>

definition notify :: "monitor \<Rightarrow> monitor" where
  "notify s = (if mn_worker s = WSleep then s\<lparr>mn_worker := WWake\<rparr> else s)"

section \<open>Steps\<close>

fun worker_move :: "(nat \<Rightarrow> bool) \<Rightarrow> worker_point \<Rightarrow> monitor \<Rightarrow> monitor option" where
  "worker_move thr WLock s = map_option (\<lambda>s. s\<lparr>mn_worker := WTest\<rparr>) (acquire ByWorker s)"
| "worker_move thr WTest s =
     Some (if mn_stopping s \<or> mn_q s \<noteq> [] then s\<lparr>mn_worker := WPop\<rparr>
           else (release s)\<lparr>mn_worker := WSleep\<rparr>)"
| "worker_move thr WSleep s = None"
| "worker_move thr WWake s = map_option (\<lambda>s. s\<lparr>mn_worker := WTest\<rparr>) (acquire ByWorker s)"
| "worker_move thr WPop s =
     (if mn_stopping s \<and> mn_q s = [] then Some (s\<lparr>mn_worker := WLeave\<rparr>)
      else (case mn_q s of [] \<Rightarrow> None | t # q \<Rightarrow> Some (s\<lparr>mn_q := q, mn_worker := WUnlock t\<rparr>)))"
| "worker_move thr (WUnlock t) s = Some ((release s)\<lparr>mn_worker := WRun t\<rparr>)"
| "worker_move thr (WRun t) s =
     (let (r, c) = run_task (thr (task_prom t)) t (mn_core s)
      in Some (s\<lparr>mn_core := c, mn_worker := WSet t r\<rparr>))"
| "worker_move thr (WSet t r) s =
     Some (s\<lparr>mn_proms := (mn_proms s)(task_prom t \<mapsto> r), mn_worker := WLock\<rparr>)"
| "worker_move thr WLeave s = Some ((release s)\<lparr>mn_worker := WDone\<rparr>)"
| "worker_move thr WDone s = None"

text \<open>A step of a client: the new shared state and its next point.\<close>

fun client_move :: "nat \<Rightarrow> client_point \<Rightarrow> monitor \<Rightarrow> (monitor \<times> client_point) option" where
  "client_move i (PLock x) s = map_option (\<lambda>s. (s, PPush x)) (acquire (ByClient i) s)"
| "client_move i (PPush x) s =
     Some (s\<lparr>mn_q := mn_q s @ [task_of (mn_next s) x], mn_next := Suc (mn_next s)\<rparr>, PUnlock (mn_next s))"
| "client_move i (PUnlock f) s = Some (release s, PNotify f)"
| "client_move i (PNotify f) s = Some (notify s, PDone f)"
| "client_move i (PDone f) s = None"
| "client_move i SLock s = map_option (\<lambda>s. (s, STest)) (acquire (ByClient i) s)"
| "client_move i STest s = Some (if mn_stopping s then (s, SQuit) else (s\<lparr>mn_stopping := True\<rparr>, SUnlock))"
| "client_move i SQuit s = Some (release s, SDone)"
| "client_move i SUnlock s = Some (release s, SNotify)"
| "client_move i SNotify s = Some (notify s, SJoin)"
| "client_move i SJoin s = (if mn_worker s = WDone then Some (s, SDone) else None)"
| "client_move i SDone s = None"

datatype mn_event = MArrive client_point | MWorker | MClient nat | MSpurious

fun client_entry :: "client_point \<Rightarrow> bool" where
  "client_entry (PLock x) = True" | "client_entry SLock = True" | "client_entry _ = False"

fun mn_exec :: "(nat \<Rightarrow> bool) \<Rightarrow> mn_event \<Rightarrow> monitor \<Rightarrow> monitor option" where
  "mn_exec thr (MArrive pc) s =
     (if client_entry pc then Some (s\<lparr>mn_clients := mn_clients s @ [pc]\<rparr>) else None)"
| "mn_exec thr MWorker s = worker_move thr (mn_worker s) s"
| "mn_exec thr (MClient i) s =
     (if i < length (mn_clients s)
      then map_option (\<lambda>(s', pc). s'\<lparr>mn_clients := (mn_clients s)[i := pc]\<rparr>)
             (client_move i (mn_clients s ! i) s)
      else None)"
| "mn_exec thr MSpurious s =
     (if mn_worker s = WSleep then Some (s\<lparr>mn_worker := WWake\<rparr>) else None)"

inductive mn_steps :: "(nat \<Rightarrow> bool) \<Rightarrow> monitor \<Rightarrow> mn_event list \<Rightarrow> monitor \<Rightarrow> bool"
  for thr :: "nat \<Rightarrow> bool" where
  mn_refl: "mn_steps thr s [] s"
| mn_snoc: "mn_steps thr s es s1 \<Longrightarrow> mn_exec thr e s1 = Some s2 \<Longrightarrow> mn_steps thr s (es @ [e]) s2"

inductive_cases mn_steps_NilE: "mn_steps thr s [] s'"

section \<open>The invariant\<close>

fun worker_holds :: "worker_point \<Rightarrow> bool" where
  "worker_holds WTest = True" | "worker_holds WPop = True" | "worker_holds (WUnlock t) = True"
| "worker_holds WLeave = True" | "worker_holds _ = False"

fun client_holds :: "client_point \<Rightarrow> bool" where
  "client_holds (PPush x) = True" | "client_holds (PUnlock f) = True" | "client_holds STest = True"
| "client_holds SQuit = True" | "client_holds SUnlock = True" | "client_holds _ = False"

text \<open>A client that has made the predicate true and has not notified yet.\<close>

fun will_notify :: "client_point \<Rightarrow> bool" where
  "will_notify (PUnlock f) = True" | "will_notify (PNotify f) = True" | "will_notify SUnlock = True"
| "will_notify SNotify = True" | "will_notify _ = False"

fun holds :: "monitor \<Rightarrow> owner \<Rightarrow> bool" where
  "holds s ByWorker = worker_holds (mn_worker s)"
| "holds s (ByClient i) = (i < length (mn_clients s) \<and> client_holds (mn_clients s ! i))"

text \<open>The mutex is owned by the thread at a program point between its lock and its unlock, if there is one.\<close>

definition lock_ok :: "monitor \<Rightarrow> bool" where
  "lock_ok s \<longleftrightarrow> (\<forall>who. mn_lock s = Some who \<longleftrightarrow> holds s who)"

definition owes :: "client_point list \<Rightarrow> bool" where
  "owes cs = list_ex will_notify cs"

text \<open>
  No wake-up is lost: while the worker sleeps and the predicate is true, somebody owes a notification.
\<close>

definition wake_ok :: "monitor \<Rightarrow> bool" where
  "wake_ok s \<longleftrightarrow>
     (mn_worker s = WPop \<longrightarrow> mn_stopping s \<or> mn_q s \<noteq> []) \<and>
     (mn_worker s = WSleep \<and> (mn_stopping s \<or> mn_q s \<noteq> []) \<longrightarrow> owes (mn_clients s)) \<and>
     (mn_worker s \<in> {WLeave, WDone} \<longrightarrow> mn_stopping s)"

definition mn_ok :: "monitor \<Rightarrow> bool" where
  "mn_ok s \<longleftrightarrow> lock_ok s \<and> wake_ok s"

lemma mn_ok_new: "mn_ok (new_monitor c)"
proof -
  have "\<not> holds (new_monitor c) who" for who by (cases who) (simp_all add: new_monitor_def)
  then show ?thesis by (simp add: mn_ok_def lock_ok_def wake_ok_def new_monitor_def)
qed

lemma owes_append [simp]: "owes (cs @ [pc]) \<longleftrightarrow> owes cs \<or> will_notify pc"
  by (auto simp: owes_def list_ex_iff)

lemma owes_new: "i < length cs \<Longrightarrow> will_notify pc \<Longrightarrow> owes (cs[i := pc])"
  by (auto simp: owes_def list_ex_iff set_update_memI)

lemma owes_kept: "owes cs \<Longrightarrow> \<not> will_notify (cs ! i) \<Longrightarrow> owes (cs[i := pc])"
  unfolding owes_def list_ex_iff by (metis in_set_conv_nth length_list_update nth_list_update_neq)

text \<open>A thread may keep the mutex as it is, take it when it is free, or give back its own.\<close>

lemma lock_ok_move:
  assumes "lock_ok s" and "\<And>other. other \<noteq> who \<Longrightarrow> holds s' other = holds s other"
    and "(mn_lock s' = mn_lock s \<and> holds s' who = holds s who) \<or>
      (mn_lock s = None \<and> mn_lock s' = Some who \<and> holds s' who) \<or>
      (holds s who \<and> mn_lock s' = None \<and> \<not> holds s' who)"
  shows "lock_ok s'"
proof -
  have l: "mn_lock s = Some other \<longleftrightarrow> holds s other" for other using assms(1) by (simp add: lock_ok_def)
  have "mn_lock s' = Some other \<longleftrightarrow> holds s' other" for other
    using assms(2) [of other] assms(3) l [of other] l [of who] by (cases "other = who") auto
  then show ?thesis by (simp add: lock_ok_def)
qed

lemma lock_ok_worker:
  assumes "worker_move thr (mn_worker s) s = Some s'" and "lock_ok s"
  shows "lock_ok s'"
proof (rule lock_ok_move [OF assms(2), where who = ByWorker])
  have "mn_clients s' = mn_clients s"
    using assms(1) by (cases "mn_worker s") (auto simp: acquire_def release_def split: if_splits list.splits prod.splits)
  then show "other \<noteq> ByWorker \<Longrightarrow> holds s' other = holds s other" for other by (cases other) simp_all
qed (use assms(1) in \<open>cases "mn_worker s"; auto simp: acquire_def release_def split: if_splits list.splits prod.splits\<close>)

lemma lock_ok_client:
  assumes "client_move i (mn_clients s ! i) s = Some (s', pc)" and "lock_ok s" and "i < length (mn_clients s)"
  shows "lock_ok (s'\<lparr>mn_clients := (mn_clients s)[i := pc]\<rparr>)"
proof (rule lock_ok_move [OF assms(2), where who = "ByClient i"])
  have "worker_holds (mn_worker s') = worker_holds (mn_worker s)"
    using assms(1) by (cases "mn_clients s ! i") (auto simp: acquire_def release_def notify_def split: if_splits)
  then show "other \<noteq> ByClient i \<Longrightarrow> holds (s'\<lparr>mn_clients := (mn_clients s)[i := pc]\<rparr>) other = holds s other" for other
    by (cases other) (auto simp: nth_list_update)
qed (use assms(1,3) in \<open>cases "mn_clients s ! i"; auto simp: acquire_def release_def notify_def split: if_splits\<close>)

lemma wake_ok_worker:
  assumes "worker_move thr (mn_worker s) s = Some s'" and "wake_ok s"
  shows "wake_ok s'"
  using assms
  by (cases "mn_worker s") (auto simp: wake_ok_def acquire_def release_def split: if_splits list.splits prod.splits)

lemma wake_ok_frame:
  assumes "wake_ok s" and "mn_worker s' = mn_worker s" and "mn_stopping s \<longrightarrow> mn_stopping s'"
    and "mn_q s \<noteq> [] \<longrightarrow> mn_q s' \<noteq> []"
    and "owes (mn_clients s') \<or>
      mn_stopping s' = mn_stopping s \<and> mn_q s' = mn_q s \<and> (owes (mn_clients s) \<longrightarrow> owes (mn_clients s'))"
  shows "wake_ok s'"
  using assms unfolding wake_ok_def by metis

lemma wake_ok_notify: "wake_ok s \<Longrightarrow> wake_ok ((notify s)\<lparr>mn_clients := cs\<rparr>)"
  by (auto simp: wake_ok_def notify_def)

lemma wake_ok_client:
  assumes "client_move i (mn_clients s ! i) s = Some (s', pc)" and "wake_ok s" and "i < length (mn_clients s)"
  shows "wake_ok (s'\<lparr>mn_clients := (mn_clients s)[i := pc]\<rparr>)"
proof (cases "\<exists>f. mn_clients s ! i = PNotify f \<or> mn_clients s ! i = SNotify")
  case True
  then show ?thesis using assms(1,2) wake_ok_notify by auto
next
  case False
  note move = assms(1) and kept = owes_kept [of "mn_clients s" i pc] and new = owes_new [OF assms(3), of pc]
  have "mn_worker s' = mn_worker s" "mn_stopping s \<longrightarrow> mn_stopping s'" "mn_q s \<noteq> [] \<longrightarrow> mn_q s' \<noteq> []"
    using move False by (cases "mn_clients s ! i"; auto simp: acquire_def release_def split: if_splits)+
  moreover have "will_notify pc \<or>
      mn_stopping s' = mn_stopping s \<and> mn_q s' = mn_q s \<and> \<not> will_notify (mn_clients s ! i)"
    using move False by (cases "mn_clients s ! i"; auto simp: acquire_def release_def split: if_splits)
  ultimately show ?thesis using kept new by (intro wake_ok_frame [OF assms(2)]) auto
qed

lemma mn_ok_exec:
  assumes "mn_exec thr e s = Some s'" and "mn_ok s"
  shows "mn_ok s'"
proof (cases e)
  case (MArrive pc)
  have "holds (s\<lparr>mn_clients := mn_clients s @ [pc]\<rparr>) who = holds s who" if "client_entry pc" for who
    using that by (cases who; cases pc) (simp_all add: nth_append)
  moreover have s': "s' = s\<lparr>mn_clients := mn_clients s @ [pc]\<rparr>" and "client_entry pc"
    using assms(1) MArrive by (simp_all split: if_splits)
  ultimately have "lock_ok s'" using assms(2) by (simp add: mn_ok_def lock_ok_def del: holds.simps)
  moreover have "wake_ok s'" using assms(2) unfolding s' by (simp add: mn_ok_def wake_ok_def)
  ultimately show ?thesis by (simp add: mn_ok_def)
next
  case MWorker
  then show ?thesis using assms lock_ok_worker wake_ok_worker by (auto simp: mn_ok_def)
next
  case (MClient i)
  then obtain s1 pc where m: "client_move i (mn_clients s ! i) s = Some (s1, pc)" "i < length (mn_clients s)"
    and s': "s' = s1\<lparr>mn_clients := (mn_clients s)[i := pc]\<rparr>"
    using assms(1) by (auto split: if_splits)
  then show ?thesis using assms(2) lock_ok_client [OF m(1) _ m(2)] wake_ok_client [OF m(1) _ m(2)] by (simp add: mn_ok_def)
next
  case MSpurious
  have "holds (s\<lparr>mn_worker := WWake\<rparr>) who = holds s who" if "mn_worker s = WSleep" for who
    using that by (cases who) simp_all
  then have "lock_ok s'" using assms MSpurious by (auto simp: mn_ok_def lock_ok_def simp del: holds.simps split: if_splits)
  then show ?thesis using assms MSpurious by (auto simp: mn_ok_def wake_ok_def split: if_splits)
qed

lemma mn_ok_steps: "mn_steps thr s es s' \<Longrightarrow> mn_ok s \<Longrightarrow> mn_ok s'"
  by (induction rule: mn_steps.induct) (auto intro: mn_ok_exec)

section \<open>The atomic dispatcher is what the monitor implements\<close>

fun abs_worker :: "worker_point \<Rightarrow> worker_pc" where
  "abs_worker (WUnlock t) = GotTask t"
| "abs_worker (WRun t) = GotTask t"
| "abs_worker (WSet t r) = Ran t r"
| "abs_worker WLeave = Exited"
| "abs_worker WDone = Exited"
| "abs_worker _ = Waiting"

definition abs_mn :: "monitor \<Rightarrow> Dispatcher" where
  "abs_mn s = \<lparr>d_core = mn_core s, d_q = mn_q s, d_stopping = mn_stopping s,
     d_worker = abs_worker (mn_worker s), d_proms = mn_proms s, d_next = mn_next s\<rparr>"

text \<open>Which atomic action a step completes; the others are invisible.\<close>

fun abs_event :: "mn_event \<Rightarrow> monitor \<Rightarrow> disp_event list" where
  "abs_event MWorker s =
     (case mn_worker s of WPop \<Rightarrow> [Worker] | WRun t \<Rightarrow> [Worker] | WSet t r \<Rightarrow> [Worker] | _ \<Rightarrow> [])"
| "abs_event (MClient i) s =
     (case mn_clients s ! i of PPush x \<Rightarrow> [Submit x] | STest \<Rightarrow> [StopRequest] | _ \<Rightarrow> [])"
| "abs_event _ s = []"

lemma abs_mn_new: "abs_mn (new_monitor c) = new_Dispatcher c"
  by (simp add: abs_mn_def new_monitor_def new_Dispatcher_def)

lemma abs_worker_move:
  assumes "worker_move thr (mn_worker s) s = Some s'"
  shows "abs_mn s' = disp_run thr (abs_event MWorker s) (abs_mn s)"
proof (cases "mn_worker s")
qed (use assms in \<open>auto simp: abs_mn_def acquire_def release_def worker_step_def split: if_splits list.splits prod.splits\<close>)

lemma abs_client_move:
  assumes "client_move i (mn_clients s ! i) s = Some (s', pc)"
  shows "abs_mn (s'\<lparr>mn_clients := cs\<rparr>) = disp_run thr (abs_event (MClient i) s) (abs_mn s)"
proof (cases "mn_clients s ! i")
qed (use assms in \<open>auto simp: abs_mn_def acquire_def release_def notify_def submit_eq dispatcher_stop_def split: if_splits\<close>)

lemma abs_exec:
  assumes "mn_exec thr e s = Some s'"
  shows "abs_mn s' = disp_run thr (abs_event e s) (abs_mn s)"
proof (cases e)
  case (MClient i)
  then show ?thesis using assms abs_client_move by (auto split: if_splits)
qed (use assms abs_worker_move in \<open>auto simp: abs_mn_def split: if_splits\<close>)

lemma abs_steps:
  assumes "mn_steps thr (new_monitor c) es s"
  shows "\<exists>fs. abs_mn s = disp_run thr fs (new_Dispatcher c)"
  using assms
proof (induction "new_monitor c" es s rule: mn_steps.induct)
  case mn_refl
  show ?case by (rule exI [of _ "[]"]) (simp add: abs_mn_new)
next
  case (mn_snoc es s1 e s2)
  then show ?case using abs_exec [OF mn_snoc(3)] by (metis disp_run_append)
qed

section \<open>Progress\<close>

text \<open>
  The steps that are left: six for a queued task, and for each thread those up to the point where it has
  returned or sleeps, a notification counting the four steps of the worker it can cause.
\<close>

fun worker_weight :: "worker_point \<Rightarrow> nat" where
  "worker_weight WSleep = 0" | "worker_weight WDone = 0" | "worker_weight WLeave = 1"
| "worker_weight WPop = 2" | "worker_weight WTest = 3" | "worker_weight WLock = 4" | "worker_weight WWake = 4"
| "worker_weight (WSet t r) = 5" | "worker_weight (WRun t) = 6" | "worker_weight (WUnlock t) = 7"

fun client_weight :: "client_point \<Rightarrow> nat" where
  "client_weight (PDone f) = 0" | "client_weight (PNotify f) = 5" | "client_weight (PUnlock f) = 6"
| "client_weight (PPush x) = 13" | "client_weight (PLock x) = 14"
| "client_weight SDone = 0" | "client_weight SJoin = 1" | "client_weight SQuit = 1" | "client_weight SNotify = 6"
| "client_weight SUnlock = 7" | "client_weight STest = 8" | "client_weight SLock = 9"

definition mn_fuel :: "monitor \<Rightarrow> nat" where
  "mn_fuel s = 6 * length (mn_q s) + worker_weight (mn_worker s) + sum_list (map client_weight (mn_clients s))"

fun own_move :: "mn_event \<Rightarrow> bool" where
  "own_move MWorker = True" | "own_move (MClient i) = True" | "own_move _ = False"

fun no_arrival :: "mn_event \<Rightarrow> bool" where
  "no_arrival (MArrive pc) = False" | "no_arrival _ = True"

lemma fuel_worker:
  assumes "worker_move thr (mn_worker s) s = Some s'"
  shows "mn_fuel s' < mn_fuel s"
proof (cases "mn_worker s")
qed (use assms in \<open>auto simp: mn_fuel_def acquire_def release_def split: if_splits list.splits prod.splits\<close>)

lemma client_weight_update:
  "i < length cs \<Longrightarrow> sum_list (map client_weight (cs[i := pc])) + client_weight (cs ! i) =
     sum_list (map client_weight cs) + client_weight pc"
  using member_le_sum_list [of "client_weight (cs ! i)" "map client_weight cs"]
  by (simp add: map_update sum_list_update)

lemma fuel_client:
  assumes "client_move i (mn_clients s ! i) s = Some (s', pc)" and "i < length (mn_clients s)"
  shows "mn_fuel (s'\<lparr>mn_clients := (mn_clients s)[i := pc]\<rparr>) < mn_fuel s"
proof -
  have "6 * length (mn_q s') + worker_weight (mn_worker s') + client_weight pc <
      6 * length (mn_q s) + worker_weight (mn_worker s) + client_weight (mn_clients s ! i)"
    using assms(1) by (cases "mn_clients s ! i")
      (auto simp: acquire_def release_def notify_def split: if_splits)
  then show ?thesis using client_weight_update [OF assms(2), of pc] by (simp add: mn_fuel_def)
qed

lemma fuel_exec:
  assumes "mn_exec thr e s = Some s'" and "no_arrival e"
  shows "(if own_move e then 1 else 0) + mn_fuel s' \<le> mn_fuel s + (if e = MSpurious then 4 else 0)"
proof (cases e)
  case MWorker
  then show ?thesis using assms fuel_worker [of thr s s'] by simp
next
  case (MClient i)
  then show ?thesis using assms fuel_client by (fastforce split: if_splits)
next
  case MSpurious
  then show ?thesis using assms by (auto simp: mn_fuel_def split: if_splits)
qed (use assms in simp)

lemma fuel_steps:
  "mn_steps thr s es s' \<Longrightarrow> list_all no_arrival es \<Longrightarrow>
     length (filter own_move es) + mn_fuel s' \<le> mn_fuel s + 4 * count_list es MSpurious"
proof (induction rule: mn_steps.induct)
  case (mn_snoc s es s1 e s2)
  then show ?case using fuel_exec [OF mn_snoc(2)] by (auto split: if_splits)
qed simp

text \<open>Who is about to join has set the flag.\<close>

definition stop_ok :: "monitor \<Rightarrow> bool" where
  "stop_ok s \<longleftrightarrow> (\<exists>pc \<in> set (mn_clients s). pc \<in> {SUnlock, SNotify, SJoin}) \<longrightarrow> mn_stopping s"

lemma stop_ok_exec:
  assumes "mn_exec thr e s = Some s'" and "stop_ok s"
  shows "stop_ok s'"
proof (cases e)
  case (MArrive pc)
  then have "s' = s\<lparr>mn_clients := mn_clients s @ [pc]\<rparr>" and "client_entry pc"
    using assms(1) by (simp_all split: if_splits)
  then show ?thesis using assms(2) by (cases pc) (simp_all add: stop_ok_def)
next
  case MWorker
  then have "mn_clients s' = mn_clients s" "mn_stopping s' = mn_stopping s" using assms(1)
    by (cases "mn_worker s"; auto simp: acquire_def release_def split: if_splits list.splits prod.splits)+
  then show ?thesis using assms(2) by (simp add: stop_ok_def)
next
  case (MClient i)
  then obtain s1 pc where m: "client_move i (mn_clients s ! i) s = Some (s1, pc)" "i < length (mn_clients s)"
    and s': "s' = s1\<lparr>mn_clients := (mn_clients s)[i := pc]\<rparr>"
    using assms(1) by (auto split: if_splits)
  have "mn_stopping s \<longrightarrow> mn_stopping s1"
    using m(1) by (cases "mn_clients s ! i") (auto simp: acquire_def release_def notify_def split: if_splits)
  moreover have "pc \<in> {SUnlock, SNotify, SJoin} \<longrightarrow> mn_stopping s1 \<or> mn_clients s ! i \<in> {SUnlock, SNotify, SJoin}"
    using m(1) by (cases "mn_clients s ! i") (auto simp: acquire_def release_def notify_def split: if_splits)
  moreover have "mn_clients s ! i \<in> set (mn_clients s)" using m(2) by simp
  moreover have "set (mn_clients s') \<subseteq> insert pc (set (mn_clients s))" unfolding s' by (simp add: set_update_subset_insert)
  ultimately show ?thesis using assms(2) unfolding stop_ok_def s' by fastforce
next
  case MSpurious
  then show ?thesis using assms by (auto simp: stop_ok_def split: if_splits)
qed

lemma stop_ok_steps: "mn_steps thr s es s' \<Longrightarrow> stop_ok s \<Longrightarrow> stop_ok s'"
  by (induction rule: mn_steps.induct) (auto intro: stop_ok_exec)

fun returned :: "client_point \<Rightarrow> bool" where
  "returned (PDone f) = True" | "returned SDone = True" | "returned _ = False"

definition stuck :: "(nat \<Rightarrow> bool) \<Rightarrow> monitor \<Rightarrow> bool" where
  "stuck thr s \<longleftrightarrow> (\<forall>e. own_move e \<longrightarrow> mn_exec thr e s = None)"

lemma holder_moves:
  assumes "mn_ok s" and "holds s who"
  shows "\<not> stuck thr s"
proof (cases who)
  case ByWorker
  then have "worker_move thr (mn_worker s) s \<noteq> None"
    using assms by (cases "mn_worker s") (auto simp: mn_ok_def wake_ok_def split: list.splits)
  then show ?thesis unfolding stuck_def by (metis mn_exec.simps(2) own_move.simps(1))
next
  case (ByClient i)
  then have "client_move i (mn_clients s ! i) s \<noteq> None" "i < length (mn_clients s)"
    using assms(2) by (cases "mn_clients s ! i"; simp)+
  then have "mn_exec thr (MClient i) s \<noteq> None" by auto
  then show ?thesis unfolding stuck_def by (metis own_move.simps(2))
qed

lemma stuck_points:
  assumes "mn_ok s" and "stop_ok s" and "stuck thr s"
  shows "(mn_worker s = WSleep \<and> \<not> mn_stopping s \<and> mn_q s = []) \<or> (mn_worker s = WDone \<and> mn_stopping s)"
    and "list_all returned (mn_clients s)"
proof -
  have "mn_lock s = None"
    using holder_moves [OF assms(1)] assms(1,3) by (cases "mn_lock s") (auto simp: mn_ok_def lock_ok_def)
  have w: "worker_move thr (mn_worker s) s = None" using assms(3) unfolding stuck_def by (metis mn_exec.simps(2) own_move.simps(1))
  have c: "client_move i (mn_clients s ! i) s = None" if "i < length (mn_clients s)" for i
  proof -
    have "mn_exec thr (MClient i) s = None" using assms(3) unfolding stuck_def by (metis own_move.simps(2))
    then show ?thesis using that by (simp split: if_splits)
  qed
  have "mn_worker s = WSleep \<or> mn_worker s = WDone"
    using w \<open>mn_lock s = None\<close> assms(1)
    by (cases "mn_worker s") (auto simp: acquire_def mn_ok_def wake_ok_def split: prod.splits if_splits list.splits)
  moreover have p: "returned pc \<or> pc = SJoin \<and> mn_worker s \<noteq> WDone" if "pc \<in> set (mn_clients s)" for pc
  proof -
    from that obtain i where i: "i < length (mn_clients s)" "mn_clients s ! i = pc" by (auto simp: in_set_conv_nth)
    have "client_move i pc s = None" using c [OF i(1)] i(2) by simp
    then show ?thesis using \<open>mn_lock s = None\<close> by (cases pc) (simp_all add: acquire_def split: if_splits)
  qed
  moreover have "\<not> will_notify pc" if "pc \<in> set (mn_clients s)" for pc using p [OF that] by (cases pc) simp_all
  then have "\<not> owes (mn_clients s)" by (auto simp: owes_def list_ex_iff)
  ultimately show a: "(mn_worker s = WSleep \<and> \<not> mn_stopping s \<and> mn_q s = []) \<or> (mn_worker s = WDone \<and> mn_stopping s)"
    using assms(1) by (auto simp: mn_ok_def wake_ok_def)
  then show "list_all returned (mn_clients s)"
    using p assms(2) by (fastforce simp: list_all_iff stop_ok_def)
qed

section \<open>Properties\<close>

fun mn_run :: "(nat \<Rightarrow> bool) \<Rightarrow> mn_event list \<Rightarrow> monitor \<Rightarrow> monitor option" where
  "mn_run thr [] s = Some s"
| "mn_run thr (e # es) s = (case mn_exec thr e s of None \<Rightarrow> None | Some s' \<Rightarrow> mn_run thr es s')"

lemma mn_run_from: "mn_run thr fs s1 = Some s2 \<Longrightarrow> mn_steps thr s es s1 \<Longrightarrow> mn_steps thr s (es @ fs) s2"
proof (induction fs arbitrary: es s1)
  case (Cons e fs)
  then show ?case using mn_steps.mn_snoc by (fastforce split: option.splits)
qed simp

lemma mn_run_steps: "mn_run thr es s = Some s' \<Longrightarrow> mn_steps thr s es s'"
  using mn_run_from [OF _ mn_steps.mn_refl] by simp



text \<open>
  A worker that has gone to sleep, a submission that wakes it, a \<^verbatim>\<open>stop\<close> that comes in between.
\<close>

definition sleepy_events :: "mn_event list" where
  "sleepy_events = [MWorker, MWorker, MArrive (PLock (OpSync ''PING'')), MArrive SLock, MClient 0, MClient 0, MClient 0,
     MClient 1, MClient 0, MClient 1]"

definition sleepy_state :: monitor where
  "sleepy_state = the (mn_run (\<lambda>_. False) sleepy_events (new_monitor new_Core))"

lemma sleepy_steps: "mn_steps (\<lambda>_. False) (new_monitor new_Core) sleepy_events sleepy_state"
proof (rule mn_run_steps)
  have "mn_run (\<lambda>_. False) sleepy_events (new_monitor new_Core) \<noteq> None" by code_simp
  then show "mn_run (\<lambda>_. False) sleepy_events (new_monitor new_Core) = Some sleepy_state"
    by (simp add: sleepy_state_def)
qed


definition drain_events :: "mn_event list" where
  "drain_events = [MClient 1, MClient 1] @ replicate 10 MWorker @ [MClient 1]"

definition drained_state :: monitor where
  "drained_state = the (mn_run (\<lambda>_. False) drain_events sleepy_state)"


lemma drained: "mn_worker drained_state = WDone" "mn_clients drained_state = [PDone 0, SDone]"
  by code_simp+

end
