(* ===== verification/Cobs.thy ===== *)
theory Cobs
  imports Prelude
begin

text \<open>
  The frame codec. \<open>cobs_decode\<close> is the decoder of \<^verbatim>\<open>app/JobRunner.cpp\<close>, \<open>cobs_encode\<close>
  the encoder of \<^verbatim>\<open>fake_serial/fake_serial.c\<close>, both with the index arithmetic of the
  sources. An access outside an array has no meaning in C and C++, so every array access
  is checked and the result \<open>None\<close> means such an access: that it never happens is a theorem,
  not a convention. \<open>cobs_enc\<close> and \<open>cobs_dec\<close> are the reference codec on lists.
\<close>

section \<open>The decoder of the job runner\<close>

text \<open>The inner copy loop: \<^verbatim>\<open>output.push_back(input[i + j])\<close> for \<open>n\<close> bytes.\<close>

fun copy_bytes :: "byte list \<Rightarrow> nat \<Rightarrow> nat \<Rightarrow> byte list \<Rightarrow> byte list option" where
  "copy_bytes input i 0 output = Some output"
| "copy_bytes input i (Suc n) output =
     (if i < length input then copy_bytes input (Suc i) n (output @ [input ! i]) else None)"

function cobs_decode_loop :: "byte list \<Rightarrow> nat \<Rightarrow> byte list \<Rightarrow> (bool \<times> byte list) option" where
  "cobs_decode_loop input i output =
     (if i < length input then
        (if input ! i = 0 then Some (False, output)
         else if Suc i + (unat (input ! i) - 1) > length input then Some (False, output)
         else (case copy_bytes input (Suc i) (unat (input ! i) - 1) output of
                 None \<Rightarrow> None
               | Some output' \<Rightarrow>
                   cobs_decode_loop input (Suc i + (unat (input ! i) - 1))
                     (if input ! i \<noteq> 0xFF \<and> Suc i + (unat (input ! i) - 1) < length input
                      then output' @ [0] else output')))
      else Some (True, output))"
  by pat_completeness auto
termination
  by (relation "measure (\<lambda>(input, i, output). length input - i)") auto

declare cobs_decode_loop.simps [simp del]

definition cobs_decode :: "byte list \<Rightarrow> (bool \<times> byte list) option" where
  "cobs_decode input = cobs_decode_loop input 0 []"

section \<open>The encoder of the serial emulator\<close>

definition put :: "byte list \<Rightarrow> nat \<Rightarrow> byte \<Rightarrow> byte list option" where
  "put buf i b = (if i < length buf then Some (buf[i := b]) else None)"

text \<open>
  The loop of \<^verbatim>\<open>cobs_encode\<close>. The variables are \<^verbatim>\<open>read_index\<close>, \<^verbatim>\<open>write_index\<close>,
  \<^verbatim>\<open>code_index\<close> and the 8-bit \<^verbatim>\<open>code\<close>; the result is the returned size (0 is the
  failure value of the source) and the output buffer.
\<close>

function cobs_encode_loop ::
  "byte list \<Rightarrow> nat \<Rightarrow> nat \<Rightarrow> nat \<Rightarrow> nat \<Rightarrow> byte \<Rightarrow> byte list \<Rightarrow> (nat \<times> byte list) option" where
  "cobs_encode_loop inp cap r w ci code buf =
     (if r < length inp then
        (if inp ! r = 0 then
           (case put buf ci code of
              None \<Rightarrow> None
            | Some buf1 \<Rightarrow>
                if Suc w \<ge> cap then Some (0, buf1)
                else cobs_encode_loop inp cap (Suc r) (Suc w) w 1 buf1)
         else if w \<ge> cap then Some (0, buf)
         else
           (case put buf w (inp ! r) of
              None \<Rightarrow> None
            | Some buf1 \<Rightarrow>
                if code + 1 = 0xFF then
                  (case put buf1 ci (code + 1) of
                     None \<Rightarrow> None
                   | Some buf2 \<Rightarrow>
                       if Suc (Suc w) \<ge> cap then Some (0, buf2)
                       else cobs_encode_loop inp cap (Suc r) (Suc (Suc w)) (Suc w) 1 buf2)
                else cobs_encode_loop inp cap (Suc r) (Suc w) ci (code + 1) buf1))
      else (case put buf ci code of None \<Rightarrow> None | Some buf1 \<Rightarrow> Some (w, buf1)))"
  by pat_completeness auto
termination
  by (relation "measure (\<lambda>(inp, cap, r, w, ci, code, buf). length inp - r)") auto

declare cobs_encode_loop.simps [simp del]

text \<open>The function itself; a null output pointer is \<open>None\<close>.\<close>

definition cobs_encode ::
  "byte list \<Rightarrow> byte list option \<Rightarrow> nat \<Rightarrow> (nat \<times> byte list option) option" where
  "cobs_encode inp buf cap =
     (case buf of
        None \<Rightarrow> Some (0, None)
      | Some b \<Rightarrow>
          if cap = 0 then Some (0, buf)
          else if cap < 2 \<and> length inp > 0 then Some (0, buf)
          else map_option (\<lambda>(n, b). (n, Some b)) (cobs_encode_loop inp cap 0 1 0 1 b))"

section \<open>The reference codec\<close>

text \<open>
  A block is a code byte, one more than the number of data bytes that follow it. The
  first argument of \<open>cobs_enc\<close> holds the data bytes of the open block.
\<close>

definition code_of :: "nat \<Rightarrow> byte" where
  "code_of n = of_nat (Suc n)"

fun cobs_enc :: "byte list \<Rightarrow> byte list \<Rightarrow> byte list" where
  "cobs_enc blk [] = code_of (length blk) # blk"
| "cobs_enc blk (x # xs) =
     (if x = 0 then code_of (length blk) # blk @ cobs_enc [] xs
      else if length blk = 253 then 0xFF # blk @ x # cobs_enc [] xs
      else cobs_enc (blk @ [x]) xs)"

function cobs_dec :: "byte list \<Rightarrow> byte list option" where
  "cobs_dec [] = Some []"
| "cobs_dec (c # xs) =
     (if c = 0 \<or> length xs < unat c - 1 then None
      else map_option
        (\<lambda>d. take (unat c - 1) xs @
              (if c \<noteq> 0xFF \<and> drop (unat c - 1) xs \<noteq> [] then [0] else []) @ d)
        (cobs_dec (drop (unat c - 1) xs)))"
  by pat_completeness auto
termination
  by (relation "measure length") auto

declare cobs_dec.simps(2) [simp del]

lemma cobs_enc_nonempty [simp]: "cobs_enc blk xs \<noteq> []"
  by (induction blk xs rule: cobs_enc.induct) auto

lemma unat_code_of [simp]: "n \<le> 253 \<Longrightarrow> unat (code_of n) = Suc n"
  unfolding code_of_def by (subst unat_of_nat) simp

lemma code_of_nonzero [simp]: "n \<le> 253 \<Longrightarrow> code_of n \<noteq> 0"
  using unat_code_of [of n] by (metis nat.distinct(1) unat_0)

lemma code_of_not_FF [simp]: "n \<le> 253 \<Longrightarrow> code_of n \<noteq> 0xFF"
proof
  assume n: "n \<le> 253" and eq: "code_of n = 0xFF"
  have "unat (code_of n) = 255" unfolding eq by simp
  then show False using n by simp
qed

lemma code_of_0: "code_of 0 = 1"
  by (simp add: code_of_def)

lemma code_of_Suc: "code_of n + 1 = code_of (Suc n)"
  by (simp add: code_of_def)

lemma code_of_FF: "n \<le> 253 \<Longrightarrow> code_of (Suc n) = 0xFF \<longleftrightarrow> n = 253"
  using code_of_not_FF [of "Suc n"] by (cases "n = 253") (auto simp: code_of_def)

section \<open>The decoder implements the reference decoder\<close>

lemma copy_bytes_eq:
  "i + n \<le> length input \<Longrightarrow> copy_bytes input i n out = Some (out @ take n (drop i input))"
  by (induction n arbitrary: i out) (simp_all add: Cons_nth_drop_Suc [symmetric])

lemma cobs_dec_drop:
  assumes "i < length input"
  shows "cobs_dec (drop i input) =
    (if input ! i = 0 \<or> length input < Suc i + (unat (input ! i) - 1) then None
     else map_option
       (\<lambda>d. take (unat (input ! i) - 1) (drop (Suc i) input) @
             (if input ! i \<noteq> 0xFF \<and> Suc i + (unat (input ! i) - 1) < length input
              then [0] else []) @ d)
       (cobs_dec (drop (Suc i + (unat (input ! i) - 1)) input)))"
proof -
  let ?n = "unat (input ! i) - 1"
  have d: "drop i input = input ! i # drop (Suc i) input" using assms by (simp add: Cons_nth_drop_Suc)
  have n: "length (drop (Suc i) input) < ?n \<longleftrightarrow> length input < Suc i + ?n"
    using assms by auto
  have ne: "drop ?n (drop (Suc i) input) \<noteq> [] \<longleftrightarrow> Suc i + ?n < length input"
    by auto
  have dr: "drop ?n (drop (Suc i) input) = drop (Suc i + ?n) input" by (simp add: add.commute)
  show ?thesis unfolding d cobs_dec.simps(2) n ne by (simp only: dr)
qed

lemma cobs_decode_loop_eq:
  assumes "i \<le> length input"
  shows "case cobs_dec (drop i input) of
      Some d \<Rightarrow> cobs_decode_loop input i out = Some (True, out @ d)
    | None \<Rightarrow> \<exists>out'. cobs_decode_loop input i out = Some (False, out')"
  using assms
proof (induction input i out rule: cobs_decode_loop.induct)
  case (1 input i out)
  let ?n = "unat (input ! i) - 1"
  consider "i = length input" | "i < length input" "input ! i = 0 \<or> length input < Suc i + ?n"
    | "i < length input" "\<not> (input ! i = 0 \<or> length input < Suc i + ?n)"
    using "1.prems" by fastforce
  then show ?case
  proof cases
    case 1
    then show ?thesis by (simp add: cobs_decode_loop.simps [of input "length input"])
  next
    case 2
    then show ?thesis by (auto simp: cobs_dec_drop cobs_decode_loop.simps [of input i])
  next
    case 3
    let ?blk = "take ?n (drop (Suc i) input)"
    let ?out = "if input ! i \<noteq> 0xFF \<and> Suc i + ?n < length input
      then (out @ ?blk) @ [0] else out @ ?blk"
    have cp: "copy_bytes input (Suc i) ?n out = Some (out @ ?blk)"
      using 3 by (simp add: copy_bytes_eq)
    have step: "cobs_decode_loop input i out = cobs_decode_loop input (Suc i + ?n) ?out"
    proof -
      have "(input ! i = 0) = False" "(length input < Suc i + ?n) = False" using 3(2) by simp_all
      then show ?thesis using 3(1)
        by (subst cobs_decode_loop.simps) (simp only: cp if_True if_False option.case)
    qed
    have "case cobs_dec (drop (Suc i + ?n) input) of
        Some d \<Rightarrow> cobs_decode_loop input (Suc i + ?n) ?out = Some (True, ?out @ d)
      | None \<Rightarrow> \<exists>out'. cobs_decode_loop input (Suc i + ?n) ?out = Some (False, out')"
      by (rule "1.IH" [OF 3(1) _ _ cp]) (use 3 in auto)
    then show ?thesis using 3 unfolding step cobs_dec_drop [OF 3(1)]
      by (auto split: option.splits)
  qed
qed

lemma cobs_decode_eq:
  "case cobs_dec input of
     Some d \<Rightarrow> cobs_decode input = Some (True, d)
   | None \<Rightarrow> \<exists>out. cobs_decode input = Some (False, out)"
  using cobs_decode_loop_eq [of 0 input "[]"] by (simp add: cobs_decode_def split: option.splits)

section \<open>The reference codec round trip\<close>

lemma cobs_dec_block:
  assumes "length blk \<le> 253"
  shows "cobs_dec (code_of (length blk) # blk @ rest) =
    map_option (\<lambda>d. blk @ (if rest \<noteq> [] then [0] else []) @ d) (cobs_dec rest)"
  using assms by (simp add: cobs_dec.simps(2))

lemma cobs_dec_full_block:
  "length blk = 254 \<Longrightarrow> cobs_dec (0xFF # blk @ rest) = map_option (\<lambda>d. blk @ d) (cobs_dec rest)"
  by (simp add: cobs_dec.simps(2))

lemma cobs_dec_enc: "length blk \<le> 253 \<Longrightarrow> cobs_dec (cobs_enc blk xs) = Some (blk @ xs)"
proof (induction blk xs rule: cobs_enc.induct)
  case (1 blk)
  then show ?case using cobs_dec_block [of blk "[]"] by simp
next
  case (2 blk x xs)
  consider "x = 0" | "x \<noteq> 0" "length blk = 253" | "x \<noteq> 0" "length blk < 253"
    using "2.prems" by linarith
  then show ?case
  proof cases
    case 1
    then show ?thesis using 2 by (simp add: cobs_dec_block)
  next
    case 2
    then show ?thesis
      using "2.IH"(2) cobs_dec_full_block [of "blk @ [x]" "cobs_enc [] xs"] by simp
  next
    case 3
    then show ?thesis using 2 by simp
  qed
qed

lemma cobs_enc_no_zero:
  "length blk \<le> 253 \<Longrightarrow> 0 \<notin> set blk \<Longrightarrow> 0 \<notin> set (cobs_enc blk xs)"
proof (induction blk xs rule: cobs_enc.induct)
  case (1 blk)
  then show ?case using code_of_nonzero [of "length blk"] by auto
next
  case (2 blk x xs)
  have "code_of (length blk) \<noteq> 0" using "2.prems" by simp
  then show ?case using 2 by auto
qed

lemma cobs_enc_length:
  "length blk \<le> 253 \<Longrightarrow> length (cobs_enc blk xs)
     \<le> length blk + length xs + (length blk + length xs) div 254 + 1"
proof (induction blk xs rule: cobs_enc.induct)
  case (1 blk)
  then show ?case by simp
next
  case (2 blk x xs)
  consider "x = 0" | "x \<noteq> 0" "length blk = 253" | "x \<noteq> 0" "length blk < 253"
    using "2.prems" by linarith
  then show ?case
  proof cases
    case 1
    have "length xs div 254 \<le> (length blk + Suc (length xs)) div 254" by (intro div_le_mono) simp
    then show ?thesis using 1 "2.IH"(1) by simp
  next
    case 2
    have "(253 + Suc (length xs)) div 254 = Suc (length xs div 254)" by simp
    then show ?thesis using 2 "2.IH"(2) by simp
  next
    case 3
    then show ?thesis using "2.IH"(3) by simp
  qed
qed

section \<open>The encoder implements the reference encoder\<close>

lemma put_in_range [simp]: "i < length buf \<Longrightarrow> put buf i b = Some (buf[i := b])"
  by (simp add: put_def)

text \<open>
  The state of the encoder's loop: the finished blocks \<open>done\<close>, then the open block, whose
  code byte is still to be written, with the data \<open>blk\<close>.
\<close>

definition enc_state ::
  "byte list \<Rightarrow> byte list \<Rightarrow> nat \<Rightarrow> nat \<Rightarrow> nat \<Rightarrow> byte \<Rightarrow> byte list \<Rightarrow> bool" where
  "enc_state fin blk cap w ci code buf \<longleftrightarrow>
     (\<exists>x. take w buf = fin @ x # blk) \<and> ci = length fin \<and> w = Suc (length fin + length blk) \<and>
     length blk \<le> 253 \<and> code = code_of (length blk) \<and> w \<le> cap \<and> cap \<le> length buf"

lemma enc_state_code:
  "enc_state fin blk cap w ci code buf \<Longrightarrow> take w (buf[ci := c]) = fin @ c # blk"
  by (auto simp: enc_state_def take_update_swap)

lemma enc_state_new_block:
  assumes "length fin = w" and "take w buf = fin" and "Suc w \<le> cap" and "cap \<le> length buf"
  shows "enc_state fin [] cap (Suc w) w 1 buf"
  using assms by (auto simp: enc_state_def code_of_0 take_Suc_conv_app_nth)

lemma enc_state_close:
  assumes "enc_state fin blk cap w ci code buf" and "Suc w \<le> cap"
  shows "enc_state (fin @ code # blk) [] cap (Suc w) w 1 (buf[ci := code])"
  using assms enc_state_code [OF assms(1), of code]
  by (intro enc_state_new_block) (auto simp: enc_state_def)

lemma enc_state_data:
  assumes "enc_state fin blk cap w ci code buf" and "w < cap" and "length blk < 253"
  shows "enc_state fin (blk @ [x]) cap (Suc w) ci (code + 1) (buf[w := x])"
  using assms by (auto simp: enc_state_def code_of_Suc take_Suc_conv_app_nth)

lemma enc_state_full:
  assumes "enc_state fin blk cap w ci code buf" and "length blk = 253" and "Suc (Suc w) \<le> cap"
  shows "enc_state (fin @ 0xFF # blk @ [x]) [] cap (Suc (Suc w)) (Suc w) 1
           (buf[w := x, ci := code + 1])"
proof -
  obtain y where "take w buf = fin @ y # blk" and "ci = length fin" and "w < length buf"
    using assms by (auto simp: enc_state_def)
  moreover have "code + 1 = 0xFF" using assms by (auto simp: enc_state_def code_of_def)
  ultimately have "take (Suc w) (buf[w := x, ci := code + 1]) = fin @ 0xFF # blk @ [x]"
    by (simp add: take_update_swap [of "Suc w" "buf[w := x]"] take_Suc_update)
  then show ?thesis using assms by (intro enc_state_new_block) (auto simp: enc_state_def)
qed

text \<open>
  The result of the loop from a state with the payload \<open>p\<close> still to encode: no access
  outside the buffer, and either the failure value or the reference encoding within the
  capacity; a byte to spare rules the failure out.
\<close>

definition encoded ::
  "byte list \<Rightarrow> byte list \<Rightarrow> byte list \<Rightarrow> nat \<Rightarrow> byte list \<Rightarrow> (nat \<times> byte list) option \<Rightarrow> bool" where
  "encoded fin blk p cap buf res \<longleftrightarrow>
     (\<exists>n buf'. res = Some (n, buf') \<and> length buf' = length buf \<and>
        (n = 0 \<or> n \<le> cap \<and> take n buf' = fin @ cobs_enc blk p) \<and>
        (length fin + length (cobs_enc blk p) < cap \<longrightarrow> n \<noteq> 0))"

lemma encoded_fail:
  "cap \<le> length fin + length (cobs_enc blk p) \<Longrightarrow> length buf' = length buf \<Longrightarrow>
     encoded fin blk p cap buf (Some (0, buf'))"
  by (auto simp: encoded_def)

lemma encoded_cong:
  "encoded fin' blk' p' cap buf' res \<Longrightarrow> fin' @ cobs_enc blk' p' = fin @ cobs_enc blk p \<Longrightarrow>
     length buf' = length buf \<Longrightarrow> encoded fin blk p cap buf res"
  unfolding encoded_def by (metis length_append)

lemma cobs_enc_min: "Suc (length blk) \<le> length (cobs_enc blk p)"
  by (induction blk p rule: cobs_enc.induct) auto

text \<open>The four ways through the loop body, with every access inside the buffer.\<close>

lemma encode_loop_end:
  "r \<ge> length inp \<Longrightarrow> ci < length buf \<Longrightarrow>
     cobs_encode_loop inp cap r w ci code buf = Some (w, buf[ci := code])"
  by (subst cobs_encode_loop.simps) simp

lemma encode_loop_zero:
  "r < length inp \<Longrightarrow> inp ! r = 0 \<Longrightarrow> ci < length buf \<Longrightarrow>
     cobs_encode_loop inp cap r w ci code buf =
       (if Suc w \<ge> cap then Some (0, buf[ci := code])
        else cobs_encode_loop inp cap (Suc r) (Suc w) w 1 (buf[ci := code]))"
  by (subst cobs_encode_loop.simps) simp

lemma encode_loop_full:
  "r < length inp \<Longrightarrow> inp ! r \<noteq> 0 \<Longrightarrow> ci < length buf \<Longrightarrow> cap \<le> length buf \<Longrightarrow> code + 1 = 0xFF \<Longrightarrow>
     cobs_encode_loop inp cap r w ci code buf =
       (if w \<ge> cap then Some (0, buf)
        else if Suc (Suc w) \<ge> cap then Some (0, buf[w := inp ! r, ci := code + 1])
        else cobs_encode_loop inp cap (Suc r) (Suc (Suc w)) (Suc w) 1
               (buf[w := inp ! r, ci := code + 1]))"
  by (subst cobs_encode_loop.simps) simp

lemma encode_loop_data:
  "r < length inp \<Longrightarrow> inp ! r \<noteq> 0 \<Longrightarrow> cap \<le> length buf \<Longrightarrow> code + 1 \<noteq> 0xFF \<Longrightarrow>
     cobs_encode_loop inp cap r w ci code buf =
       (if w \<ge> cap then Some (0, buf)
        else cobs_encode_loop inp cap (Suc r) (Suc w) ci (code + 1) (buf[w := inp ! r]))"
  by (subst cobs_encode_loop.simps) simp

lemma cobs_encode_loop_encoded:
  assumes "enc_state fin blk cap w ci code buf"
  shows "encoded fin blk (drop r inp) cap buf (cobs_encode_loop inp cap r w ci code buf)"
  using assms
proof (induction inp cap r w ci code buf arbitrary: fin blk rule: cobs_encode_loop.induct)
  case (1 inp cap r w ci code buf)
  note st = "1.prems"
  have b: "ci < length buf" "w = Suc (length fin + length blk)" "length blk \<le> 253" "w \<le> cap"
      "cap \<le> length buf" "code = code_of (length blk)"
    using st by (auto simp: enc_state_def)
  have full: "code + 1 = 0xFF \<longleftrightarrow> length blk = 253"
    using b by (simp add: code_of_Suc code_of_FF)
  have d: "r < length inp \<Longrightarrow> drop r inp = inp ! r # drop (Suc r) inp"
    by (simp add: Cons_nth_drop_Suc)
  consider "r \<ge> length inp" | "r < length inp" "inp ! r = 0"
    | "r < length inp" "inp ! r \<noteq> 0" "length blk = 253"
    | "r < length inp" "inp ! r \<noteq> 0" "length blk < 253"
    using b(3) by linarith
  then show ?case
  proof cases
    case 1
    then show ?thesis using b enc_state_code [OF st, of code]
      by (simp add: encode_loop_end encoded_def)
  next
    case 2
    then have "Suc w < cap \<Longrightarrow> encoded (fin @ code # blk) [] (drop (Suc r) inp) cap (buf[ci := code])
        (cobs_encode_loop inp cap (Suc r) (Suc w) w 1 (buf[ci := code]))"
      using b enc_state_close [OF st] by (intro "1.IH"(1)) auto
    then show ?thesis using 2 b cobs_enc_min [of "[]" "drop (Suc r) inp"]
      by (auto simp: encode_loop_zero d intro!: encoded_fail elim!: encoded_cong)
  next
    case 3
    then have "Suc (Suc w) < cap \<Longrightarrow> encoded (fin @ 0xFF # blk @ [inp ! r]) [] (drop (Suc r) inp) cap
        (buf[w := inp ! r, ci := code + 1])
        (cobs_encode_loop inp cap (Suc r) (Suc (Suc w)) (Suc w) 1
           (buf[w := inp ! r, ci := code + 1]))"
      using b full enc_state_full [OF st] by (intro "1.IH"(2)) auto
    then show ?thesis using 3 b full cobs_enc_min [of "[]" "drop (Suc r) inp"]
      by (auto simp: encode_loop_full d intro!: encoded_fail elim!: encoded_cong)
  next
    case 4
    then have "w < cap \<Longrightarrow> encoded fin (blk @ [inp ! r]) (drop (Suc r) inp) cap (buf[w := inp ! r])
        (cobs_encode_loop inp cap (Suc r) (Suc w) ci (code + 1) (buf[w := inp ! r]))"
      using b full enc_state_data [OF st] by (intro "1.IH"(3)) auto
    then show ?thesis using 4 b full cobs_enc_min [of "blk @ [inp ! r]" "drop (Suc r) inp"]
      by (auto simp: encode_loop_data d intro!: encoded_fail elim!: encoded_cong)
  qed
qed

lemma cobs_encode_cases:
  assumes "cap \<le> length buf"
  obtains n buf' where "cobs_encode p (Some buf) cap = Some (n, Some buf')" "length buf' = length buf"
    "n = 0 \<or> n \<le> cap \<and> take n buf' = cobs_enc [] p" "length (cobs_enc [] p) < cap \<longrightarrow> n \<noteq> 0"
proof (cases "cap = 0 \<or> cap < 2 \<and> length p > 0")
  case True
  have "Suc 0 < length (cobs_enc [] p)" if "p \<noteq> []"
    using that cobs_enc_min [of "[hd p]" "tl p"] cobs_enc_min [of "[]" "tl p"]
    by (cases p) auto
  then show thesis using True by (intro that [of 0 buf]) (auto simp: cobs_encode_def)
next
  case False
  have "enc_state [] [] cap 1 0 1 buf"
    using False assms by (cases buf) (auto simp: enc_state_def code_of_0)
  then have "encoded [] [] p cap buf (cobs_encode_loop p cap 0 1 0 1 buf)"
    using cobs_encode_loop_encoded [of "[]" "[]" cap 1 0 1 buf 0 p] by simp
  then obtain n buf' where "cobs_encode_loop p cap 0 1 0 1 buf = Some (n, buf')"
    "length buf' = length buf" "n = 0 \<or> n \<le> cap \<and> take n buf' = cobs_enc [] p"
    "length (cobs_enc [] p) < cap \<longrightarrow> n \<noteq> 0"
    by (auto simp: encoded_def)
  then show thesis using False by (intro that [of n buf']) (auto simp: cobs_encode_def)
qed

lemma cobs_decode_enc: "cobs_decode (cobs_enc [] p) = Some (True, p)"
  using cobs_decode_eq [of "cobs_enc [] p"] by (simp add: cobs_dec_enc)

lemma cobs_decode_loop_length:
  "i \<le> length input \<Longrightarrow> length out \<le> i \<Longrightarrow> cobs_decode_loop input i out = Some (b, out') \<Longrightarrow>
     length out' \<le> length input"
proof (induction input i out rule: cobs_decode_loop.induct)
  case (1 input i out)
  let ?n = "unat (input ! i) - 1"
  show ?case
  proof (cases "i < length input \<and> input ! i \<noteq> 0 \<and> Suc i + ?n \<le> length input")
    case False
    then show ?thesis using "1.prems"
      by (subst (asm) cobs_decode_loop.simps) (auto split: if_splits)
  next
    case True
    let ?out = "if input ! i \<noteq> 0xFF \<and> Suc i + ?n < length input
      then (out @ take ?n (drop (Suc i) input)) @ [0] else out @ take ?n (drop (Suc i) input)"
    have cp: "copy_bytes input (Suc i) ?n out = Some (out @ take ?n (drop (Suc i) input))"
      using True by (simp add: copy_bytes_eq)
    have t: "(i < length input) = True" "(input ! i = 0) = False"
        "(length input < Suc i + ?n) = False"
      using True by simp_all
    have "cobs_decode_loop input (Suc i + ?n) ?out = Some (b, out')"
      using "1.prems"(3) by (subst (asm) cobs_decode_loop.simps)
        (simp only: t cp if_True if_False option.case)
    moreover have "length (take ?n (drop (Suc i) input)) \<le> ?n" by (simp only: length_take min.cobounded2)
    then have "length ?out \<le> Suc i + ?n" using "1.prems"(2) by (auto simp del: length_take)
    ultimately show ?thesis using True by (intro "1.IH" [OF _ _ _ cp]) auto
  qed
qed

section \<open>Properties\<close>

text \<open>
  C26: the emulator's encoder and the service's decoder are inverse to each other on
  every payload. With the buffer size the emulator asks for, encoding succeeds within the
  announced bound, the encoded frame holds no delimiter byte, and decoding it gives the
  payload back.
\<close>

theorem cobs_roundtrip:
  assumes "length p + length p div 254 + 2 \<le> cap" and "cap \<le> length buf"
  shows "\<exists>n buf'. cobs_encode p (Some buf) cap = Some (n, Some buf') \<and>
           0 < n \<and> n \<le> length p + length p div 254 + 1 \<and>
           0 \<notin> set (take n buf') \<and> cobs_decode (take n buf') = Some (True, p)"
proof -
  have len: "length (cobs_enc [] p) \<le> length p + length p div 254 + 1"
    using cobs_enc_length [of "[]" p] by simp
  obtain n buf' where e: "cobs_encode p (Some buf) cap = Some (n, Some buf')"
    and l: "length buf' = length buf" and r: "n = 0 \<or> n \<le> cap \<and> take n buf' = cobs_enc [] p"
    and nz: "length (cobs_enc [] p) < cap \<longrightarrow> n \<noteq> 0"
    by (rule cobs_encode_cases [OF assms(2), where p = p])
  have "n \<noteq> 0" using nz len assms(1) by linarith
  with r have t: "take n buf' = cobs_enc [] p" and "n \<le> cap" by auto
  then have "n = length (cobs_enc [] p)" using l assms(2) by (metis le_trans length_take min.absorb2)
  then show ?thesis
    using e t \<open>n \<noteq> 0\<close> len cobs_enc_no_zero [of "[]" p] by (auto simp: cobs_decode_enc)
qed

theorem cobs_roundtrip_witness:
  "\<exists>n buf'. cobs_encode [81, 82, 0, 7] (Some (replicate 6 0)) 6 = Some (n, Some buf') \<and>
     0 < n \<and> n \<le> length [81, 82, 0, 7 :: byte] + length [81, 82, 0, 7 :: byte] div 254 + 1 \<and>
     0 \<notin> set (take n buf') \<and> cobs_decode (take n buf') = Some (True, [81, 82, 0, 7])"
  by (rule cobs_roundtrip) simp_all

text \<open>
  C28: the encoder is memory safe and all or nothing for every capacity: it never accesses
  the buffer outside the capacity it was given, leaves the buffer's size alone, and returns
  either 0 or the size of a frame inside the capacity that decodes to the payload.
\<close>

theorem cobs_encode_safe:
  assumes "cap \<le> length buf"
  shows "\<exists>n buf'. cobs_encode p (Some buf) cap = Some (n, Some buf') \<and>
           length buf' = length buf \<and> n \<le> cap \<and>
           (n = 0 \<or> 0 \<notin> set (take n buf') \<and> cobs_decode (take n buf') = Some (True, p))"
proof -
  obtain n buf' where "cobs_encode p (Some buf) cap = Some (n, Some buf')"
    and "length buf' = length buf" and "n = 0 \<or> n \<le> cap \<and> take n buf' = cobs_enc [] p"
    by (rule cobs_encode_cases [OF assms, where p = p])
  then show ?thesis using cobs_enc_no_zero [of "[]" p] by (auto simp: cobs_decode_enc)
qed

theorem cobs_encode_safe_witness:
  "\<exists>n buf'. cobs_encode [1, 0, 2] (Some (replicate 4 7)) 3 = Some (n, Some buf') \<and>
     length buf' = length (replicate 4 (7 :: byte)) \<and> n \<le> 3 \<and>
     (n = 0 \<or> 0 \<notin> set (take n buf') \<and> cobs_decode (take n buf') = Some (True, [1, 0, 2]))"
  by (rule cobs_encode_safe) simp

text \<open>
  C27: the index loop of the decoder computes the reference decoder: on every input it
  reads only inside the input, reports success exactly on the inputs made of complete
  blocks, returns the reference payload there, and never produces more bytes than it was
  given.
\<close>

theorem cobs_decode_refines:
  "\<exists>b out. cobs_decode input = Some (b, out) \<and> length out \<le> length input \<and>
     (case cobs_dec input of Some d \<Rightarrow> b \<and> out = d | None \<Rightarrow> \<not> b)"
proof -
  obtain b out where d: "cobs_decode input = Some (b, out)"
    and "case cobs_dec input of Some d \<Rightarrow> b \<and> out = d | None \<Rightarrow> \<not> b"
    using cobs_decode_eq [of input] by (auto split: option.splits)
  moreover have "length out \<le> length input"
    using d cobs_decode_loop_length [of 0 input "[]"] by (simp add: cobs_decode_def)
  ultimately show ?thesis by blast
qed

text \<open>
  The capacity the comment of the encoder asks for
  (\<^verbatim>\<open>in_len + in_len/254 + 1\<close>) is one byte short: a payload whose last byte is 0 has an
  encoding of exactly that size, and the encoder rejects it at that capacity.
\<close>

lemma cobs_encode_documented_capacity_fails:
  "length (cobs_enc [] [0]) = length [0 :: byte] + length [0 :: byte] div 254 + 1 \<and>
   cobs_encode [0] (Some [0, 0]) (length [0 :: byte] + length [0 :: byte] div 254 + 1)
     = Some (0, Some [1, 0])"
  by (simp add: cobs_encode_def cobs_encode_loop.simps put_def)

end
