(* ===== verification/Serial_Port.thy ===== *)
theory Serial_Port
  imports Cobs
begin

unbundle bit_operations_syntax

text \<open>
  The serial-port helpers of \<^verbatim>\<open>app/JobRunner.cpp\<close>: the integer environment variable, the
  termios configuration and the frame reader. What the operating system answers (the
  environment, the termios calls, \<^verbatim>\<open>poll\<close> and \<^verbatim>\<open>read\<close>) is an argument of the
  definitions.
\<close>

section \<open>getenv_int\<close>

text \<open>
  \<^verbatim>\<open>strtol(v, &end, 10)\<close> of the C library on a 64-bit target: leading white space, an
  optional sign, decimal digits; the value saturates at the bounds of \<^verbatim>\<open>long\<close>. The second
  component is the unparsed rest, the whole argument when there is no number.
\<close>

definition c_isspace :: "char \<Rightarrow> bool" where
  "c_isspace c = (let n = (of_char c :: nat) in n = 32 \<or> (9 \<le> n \<and> n \<le> 13))"

definition c_isdigit :: "char \<Rightarrow> bool" where
  "c_isdigit c = (let n = (of_char c :: nat) in 48 \<le> n \<and> n \<le> 57)"

definition digit_val :: "char \<Rightarrow> int" where
  "digit_val c = of_char c - 48"

definition digits_val :: "string \<Rightarrow> int" where
  "digits_val ds = foldl (\<lambda>n c. 10 * n + digit_val c) 0 ds"

definition saturate_long :: "int \<Rightarrow> int" where
  "saturate_long x = max (- 9223372036854775808) (min 9223372036854775807 x)"

definition strtol :: "string \<Rightarrow> int \<times> string" where
  "strtol v =
     (let t = dropWhile c_isspace v;
          neg = (t \<noteq> [] \<and> hd t = CHR ''-'');
          u = (if t \<noteq> [] \<and> (hd t = CHR ''-'' \<or> hd t = CHR ''+'') then tl t else t);
          ds = takeWhile c_isdigit u
      in if ds = [] then (0, v)
         else (saturate_long (if neg then - digits_val ds else digits_val ds),
               dropWhile c_isdigit u))"

text \<open>The environment is a map; \<^verbatim>\<open>end == v\<close> holds exactly when nothing was consumed.\<close>

definition getenv_int :: "(string \<rightharpoonup> string) \<Rightarrow> string \<Rightarrow> int \<Rightarrow> int" where
  "getenv_int env key defv =
     (case env key of
        None \<Rightarrow> defv
      | Some v \<Rightarrow>
          if v = [] then defv
          else (let (x, rest) = strtol v
                in if rest = v \<or> rest \<noteq> [] then defv
                   else if x < 0 \<or> x > 600000 then defv
                   else int32_cast x))"

section \<open>Baud rates and termios\<close>

text \<open>
  A \<^verbatim>\<open>speed_t\<close> is one of the POSIX speed constants; \<open>B0\<close> is the value 0. Three of the
  cases exist only where the platform defines the constant.
\<close>

datatype speed_t = B0 | B9600 | B19200 | B38400 | B57600 | B115200 | B230400 | B460800 | B921600

record platform =
  has_B230400 :: bool
  has_B460800 :: bool
  has_B921600 :: bool

definition baud_to_speed :: "platform \<Rightarrow> int \<Rightarrow> speed_t" where
  "baud_to_speed pf baud =
     (if baud = 9600 then B9600
      else if baud = 19200 then B19200
      else if baud = 38400 then B38400
      else if baud = 57600 then B57600
      else if baud = 115200 then B115200
      else if has_B230400 pf \<and> baud = 230400 then B230400
      else if has_B460800 pf \<and> baud = 460800 then B460800
      else if has_B921600 pf \<and> baud = 921600 then B921600
      else B0)"

text \<open>
  The part of \<^verbatim>\<open>struct termios\<close> the code writes itself is \<^verbatim>\<open>c_cflag\<close>; the other fields
  are the type parameter. The termios functions and the mask constants of the platform
  are the record \<open>termios_api\<close>.
\<close>

record 'r termios =
  c_cflag :: "32 word"
  t_rest :: 'r

record 'r termios_api =
  cfmakeraw :: "'r termios \<Rightarrow> 'r termios"
  cfsetispeed :: "speed_t \<Rightarrow> 'r termios \<Rightarrow> 'r termios"
  cfsetospeed :: "speed_t \<Rightarrow> 'r termios \<Rightarrow> 'r termios"
  m_PARENB :: "32 word"
  m_CSTOPB :: "32 word"
  m_CSIZE :: "32 word"
  m_CS8 :: "32 word"

text \<open>
  How the best-effort configuration ends: nothing tried, the attributes could not be
  read, the new attributes were refused, or the new attributes are in force.
\<close>

datatype 'r cfg_outcome = Unsupported | GetFailed | SetFailed "'r termios" | Configured "'r termios"

definition configure_serial_best_effort ::
  "platform \<Rightarrow> 'r termios_api \<Rightarrow> 'r termios option \<Rightarrow> bool \<Rightarrow> int \<Rightarrow> 'r cfg_outcome" where
  "configure_serial_best_effort pf api tcget tcset baudrate =
     (let spd = baud_to_speed pf baudrate
      in if spd = B0 then Unsupported
         else (case tcget of
                 None \<Rightarrow> GetFailed
               | Some tio0 \<Rightarrow>
                   (let tio1 = cfsetospeed api spd (cfsetispeed api spd (cfmakeraw api tio0));
                        tio2 = tio1\<lparr>c_cflag := c_cflag tio1 AND NOT (m_PARENB api)\<rparr>;
                        tio3 = tio2\<lparr>c_cflag := c_cflag tio2 AND NOT (m_CSTOPB api)\<rparr>;
                        tio4 = tio3\<lparr>c_cflag := c_cflag tio3 AND NOT (m_CSIZE api)\<rparr>;
                        tio5 = tio4\<lparr>c_cflag := c_cflag tio4 OR m_CS8 api\<rparr>
                    in if tcset then Configured tio5 else SetFailed tio5)))"

section \<open>The frame reader\<close>

datatype errno = EINTR | EAGAIN | EWOULDBLOCK | EOTHER

text \<open>
  An answer of \<^verbatim>\<open>poll\<close>: failure, time-out, or ready, with whether one of
  \<^verbatim>\<open>POLLERR | POLLHUP | POLLNVAL\<close> and whether \<^verbatim>\<open>POLLIN\<close> is set. An answer of
  \<^verbatim>\<open>read\<close>: failure or the bytes, none of them meaning end of file.
\<close>

datatype poll_result = PollFail errno | PollTimeout | PollReady bool bool

datatype read_result = ReadFail errno | ReadBytes "byte list"

text \<open>The loop over the bytes just read; \<open>Some b\<close> is \<^verbatim>\<open>return b\<close>.\<close>

fun scan_buf :: "byte list \<Rightarrow> byte list \<Rightarrow> bool option \<times> byte list" where
  "scan_buf [] encoded_frame = (None, encoded_frame)"
| "scan_buf (b # bs) encoded_frame =
     (if b = 0 then (Some (encoded_frame \<noteq> []), encoded_frame)
      else if length (encoded_frame @ [b]) > 4096 then (Some False, encoded_frame @ [b])
      else scan_buf bs (encoded_frame @ [b]))"

definition wait_ms :: "int \<Rightarrow> int" where
  "wait_ms remaining = (if remaining < 50 then remaining else 50)"

datatype read_ctl = Continue int "byte list" | Return bool "byte list"

text \<open>One pass of the loop body: \<open>flag\<close> is the running flag as loaded after \<^verbatim>\<open>poll\<close>.\<close>

definition read_iter ::
  "int \<Rightarrow> byte list \<Rightarrow> bool \<Rightarrow> poll_result \<Rightarrow> read_result \<Rightarrow> read_ctl" where
  "read_iter remaining frame flag pr rr =
     (if \<not> flag then Return False frame
      else case pr of
        PollFail e \<Rightarrow> if e = EINTR then Continue remaining frame else Return False frame
      | PollTimeout \<Rightarrow> Continue (remaining - wait_ms remaining) frame
      | PollReady err pollin \<Rightarrow>
          if err then Return False frame
          else if pollin then
            (case rr of
               ReadFail e \<Rightarrow>
                 if e = EINTR then Continue remaining frame
                 else if e = EAGAIN \<or> e = EWOULDBLOCK
                 then Continue (remaining - wait_ms remaining) frame
                 else Return False frame
             | ReadBytes bs \<Rightarrow>
                 if bs = [] then Return False frame
                 else (case scan_buf bs frame of
                         (Some b, frame') \<Rightarrow> Return b frame'
                       | (None, frame') \<Rightarrow> Continue (remaining - wait_ms remaining) frame'))
          else Continue (remaining - wait_ms remaining) frame)"

text \<open>
  What one pass observes: the running flag at the loop head, the answer of \<^verbatim>\<open>poll\<close>, the
  flag after it, and the answer of \<^verbatim>\<open>read\<close> should it be called.
\<close>

record io_obs =
  ob_head :: bool
  ob_poll :: poll_result
  ob_flag :: bool
  ob_read :: read_result

text \<open>
  The loop over the observations of the passes. \<open>None\<close> means that the observations
  are used up and the reader is still in its loop.
\<close>

fun read_loop :: "int \<Rightarrow> byte list \<Rightarrow> io_obs list \<Rightarrow> (bool \<times> byte list) option" where
  "read_loop remaining frame obs =
     (if remaining \<le> 0 then Some (False, frame)
      else case obs of
        [] \<Rightarrow> None
      | ob # obs' \<Rightarrow>
          if \<not> ob_head ob then Some (False, frame)
          else (case read_iter remaining frame (ob_flag ob) (ob_poll ob) (ob_read ob) of
                  Return b frame' \<Rightarrow> Some (b, frame')
                | Continue remaining' frame' \<Rightarrow> read_loop remaining' frame' obs'))"

declare read_loop.simps [simp del]

definition read_cobs_frame :: "int \<Rightarrow> io_obs list \<Rightarrow> (bool \<times> byte list) option" where
  "read_cobs_frame timeout_ms obs = read_loop timeout_ms [] obs"

section \<open>Lemmas on the frame reader\<close>

lemma read_loop_expired: "r \<le> 0 \<Longrightarrow> read_loop r f obs = Some (False, f)"
  by (simp add: read_loop.simps)

lemma read_loop_Nil: "0 < r \<Longrightarrow> read_loop r f [] = None"
  by (simp add: read_loop.simps)

lemma read_loop_Cons:
  "0 < r \<Longrightarrow> read_loop r f (ob # obs) =
     (if \<not> ob_head ob then Some (False, f)
      else (case read_iter r f (ob_flag ob) (ob_poll ob) (ob_read ob) of
              Return b f' \<Rightarrow> Some (b, f') | Continue r' f' \<Rightarrow> read_loop r' f' obs))"
  by (subst read_loop.simps) simp

lemma wait_ms_pos: "0 < r \<Longrightarrow> 0 < wait_ms r" and wait_ms_le: "wait_ms r \<le> 50" "wait_ms r \<le> r"
  by (auto simp: wait_ms_def)

text \<open>The bytes a pass takes from the port, and the passes a signal interrupted.\<close>

definition got_bytes :: "poll_result \<Rightarrow> read_result \<Rightarrow> byte list" where
  "got_bytes pr rr =
     (if pr = PollReady False True then (case rr of ReadBytes bs \<Rightarrow> bs | ReadFail e \<Rightarrow> []) else [])"

definition delivered :: "io_obs \<Rightarrow> byte list" where
  "delivered ob = got_bytes (ob_poll ob) (ob_read ob)"

definition interrupted :: "io_obs \<Rightarrow> bool" where
  "interrupted ob \<longleftrightarrow> ob_poll ob = PollFail EINTR \<or>
     ob_poll ob = PollReady False True \<and> ob_read ob = ReadFail EINTR"

text \<open>A pass that neither sees the flag cleared nor an error of the port.\<close>

definition benign :: "io_obs \<Rightarrow> bool" where
  "benign ob \<longleftrightarrow> ob_head ob \<and> ob_flag ob \<and>
     (case ob_poll ob of
        PollFail e \<Rightarrow> e = EINTR
      | PollTimeout \<Rightarrow> True
      | PollReady err pollin \<Rightarrow> \<not> err \<and>
          (pollin \<longrightarrow> (case ob_read ob of ReadFail e \<Rightarrow> e \<noteq> EOTHER | ReadBytes bs \<Rightarrow> bs \<noteq> [])))"

abbreviation passes :: "io_obs list \<Rightarrow> nat" where
  "passes obs \<equiv> length (filter (\<lambda>ob. \<not> interrupted ob) obs)"

lemma scan_buf_None:
  "scan_buf bs f = (None, f') \<Longrightarrow>
     f' = f @ bs \<and> 0 \<notin> set bs \<and> (length f \<le> 4096 \<longrightarrow> length f' \<le> 4096)"
  by (induction bs arbitrary: f) (fastforce split: if_splits)+

lemma scan_buf_True:
  "scan_buf bs f = (Some True, f') \<Longrightarrow> length f \<le> 4096 \<Longrightarrow>
     \<exists>pre rest. bs = pre @ 0 # rest \<and> 0 \<notin> set pre \<and> f' = f @ pre \<and> f' \<noteq> [] \<and> length f' \<le> 4096"
proof (induction bs arbitrary: f)
  case Nil
  then show ?case by simp
next
  case (Cons b bs)
  show ?case
  proof (cases "b = 0")
    case True
    then show ?thesis using Cons.prems by (intro exI [of _ "[]"] exI [of _ bs]) auto
  next
    case False
    then have "scan_buf bs (f @ [b]) = (Some True, f')" and "length (f @ [b]) \<le> 4096"
      using Cons.prems by (auto split: if_splits)
    from Cons.IH [OF this] obtain pre rest where "bs = pre @ 0 # rest" "0 \<notin> set pre"
      "f' = (f @ [b]) @ pre" "f' \<noteq> []" "length f' \<le> 4096" by blast
    then show ?thesis using False by (intro exI [of _ "b # pre"] exI [of _ rest]) auto
  qed
qed

lemma scan_buf_more:
  "0 \<notin> set bs \<Longrightarrow> length (f @ bs) \<le> 4096 \<Longrightarrow> scan_buf bs f = (None, f @ bs)"
  by (induction bs arbitrary: f) auto

lemma scan_buf_frame:
  "0 \<notin> set bs \<Longrightarrow> length (f @ bs) \<le> 4096 \<Longrightarrow> f @ bs \<noteq> [] \<Longrightarrow>
     scan_buf (bs @ 0 # rest) f = (Some True, f @ bs)"
  by (induction bs arbitrary: f) auto

lemma read_iter_Continue_cases:
  assumes "read_iter r f fl pr rr = Continue r' f'"
  shows "f' = f @ got_bytes pr rr \<and> 0 \<notin> set (got_bytes pr rr) \<and>
    (length f \<le> 4096 \<longrightarrow> length f' \<le> 4096) \<and>
    r' = (if pr = PollFail EINTR \<or> pr = PollReady False True \<and> rr = ReadFail EINTR then r
          else r - wait_ms r)"
proof (cases "\<exists>bs. pr = PollReady False True \<and> rr = ReadBytes bs")
  case True
  then obtain bs o' g where pr: "pr = PollReady False True" "rr = ReadBytes bs"
    and sc: "scan_buf bs f = (o', g)" by (metis surj_pair)
  then have "o' = None" "g = f'" "r' = r - wait_ms r"
    using assms by (auto simp: read_iter_def split: if_splits option.splits)
  then show ?thesis using scan_buf_None [of bs f f'] sc pr by (auto simp: got_bytes_def)
next
  case False
  then show ?thesis using assms
  proof (cases pr)
    case (PollReady err pollin)
    then show ?thesis using assms False
      by (cases err; cases pollin; cases rr)
        (simp_all add: read_iter_def got_bytes_def split: if_splits)
  qed (simp_all add: read_iter_def got_bytes_def split: if_splits)
qed

lemma read_iter_Continue:
  assumes "read_iter r f fl pr rr = Continue r' f'"
  shows "f' = f @ got_bytes pr rr" and "0 \<notin> set (got_bytes pr rr)"
    and "length f \<le> 4096 \<Longrightarrow> length f' \<le> 4096"
    and "r' = (if pr = PollFail EINTR \<or> pr = PollReady False True \<and> rr = ReadFail EINTR then r
               else r - wait_ms r)"
  using read_iter_Continue_cases [OF assms] by blast+

lemma read_iter_Return_True:
  assumes "read_iter r f fl pr rr = Return True f'" and "length f \<le> 4096"
  shows "\<exists>pre rest. got_bytes pr rr = pre @ 0 # rest \<and> 0 \<notin> set pre \<and> f' = f @ pre \<and>
           f' \<noteq> [] \<and> length f' \<le> 4096"
  using assms
  by (auto simp: read_iter_def got_bytes_def split: if_splits poll_result.splits read_result.splits
      prod.splits option.splits dest: scan_buf_True)

lemma errno_retry: "e \<noteq> EOTHER \<Longrightarrow> e \<noteq> EAGAIN \<Longrightarrow> e \<noteq> EWOULDBLOCK \<Longrightarrow> e = EINTR"
  by (cases e) simp_all

lemma read_iter_benign:
  assumes "benign ob" and "delivered ob = pre" and "0 \<notin> set pre" and "length (f @ pre) \<le> 4096"
  shows "read_iter r f (ob_flag ob) (ob_poll ob) (ob_read ob) =
    Continue (if interrupted ob then r else r - wait_ms r) (f @ pre)"
  using assms scan_buf_more [of pre f]
  by (auto simp: read_iter_def benign_def delivered_def got_bytes_def interrupted_def
      split: poll_result.splits read_result.splits intro: errno_retry)

lemma read_iter_frame:
  assumes "benign ob" and "delivered ob = pre @ 0 # rest" and "0 \<notin> set pre"
    and "length (f @ pre) \<le> 4096" and "f @ pre \<noteq> []"
  shows "read_iter r f (ob_flag ob) (ob_poll ob) (ob_read ob) = Return True (f @ pre)"
  using assms scan_buf_frame [of pre f rest]
  by (auto simp: read_iter_def benign_def delivered_def got_bytes_def
      split: poll_result.splits read_result.splits if_splits)

lemma read_loop_sound:
  "read_loop r f obs = Some (True, f') \<Longrightarrow> 0 \<notin> set f \<Longrightarrow> length f \<le> 4096 \<Longrightarrow>
     0 \<notin> set f' \<and> f' \<noteq> [] \<and> length f' \<le> 4096 \<and>
     (\<exists>rest. f @ concat (map delivered obs) = f' @ 0 # rest)"
proof (induction obs arbitrary: r f)
  case Nil
  then show ?case by (cases "0 < r") (simp_all add: read_loop_Nil read_loop_expired)
next
  case (Cons ob obs)
  have r: "0 < r" and h: "ob_head ob"
    using Cons.prems(1) by (cases "0 < r"; auto simp: read_loop_Cons read_loop_expired split: if_splits)+
  show ?case
  proof (cases "read_iter r f (ob_flag ob) (ob_poll ob) (ob_read ob)")
    case (Continue r' g)
    note c = read_iter_Continue [OF Continue]
    have "read_loop r' g obs = Some (True, f')"
      using Cons.prems(1) r h Continue by (simp add: read_loop_Cons)
    then show ?thesis using Cons.IH [of r' g] Cons.prems c by (auto simp: delivered_def)
  next
    case (Return b g)
    then have ret: "read_iter r f (ob_flag ob) (ob_poll ob) (ob_read ob) = Return True f'"
      using Cons.prems(1) r h by (simp add: read_loop_Cons)
    show ?thesis using read_iter_Return_True [OF ret Cons.prems(3)] Cons.prems(2)
      by (auto simp: delivered_def)
  qed
qed

lemma read_loop_returns:
  "r \<le> 50 * int (passes obs) \<Longrightarrow> read_loop r f obs \<noteq> None"
proof (induction obs arbitrary: r f)
  case Nil
  then show ?case by (simp add: read_loop_expired)
next
  case (Cons ob obs)
  show ?case
  proof (cases "0 < r \<and> ob_head ob")
    case False
    then show ?thesis by (cases "0 < r") (auto simp: read_loop_Cons read_loop_expired)
  next
    case True
    show ?thesis
    proof (cases "read_iter r f (ob_flag ob) (ob_poll ob) (ob_read ob)")
      case (Return b g)
      then show ?thesis using True by (simp add: read_loop_Cons)
    next
      case (Continue r' g)
      have "r' \<le> 50 * int (passes obs)"
        using Cons.prems True read_iter_Continue(4) [OF Continue] wait_ms_def [of r]
        by (auto simp: interrupted_def split: if_splits)
      then show ?thesis using Cons.IH [of r' g] True Continue by (simp add: read_loop_Cons)
    qed
  qed
qed

lemma read_loop_complete:
  assumes "\<forall>ob \<in> set obs. benign ob" and "f @ concat (map delivered obs) = frame @ 0 # rest"
    and "0 \<notin> set frame" and "frame \<noteq> []" and "length frame \<le> 4096" and "0 \<notin> set f"
    and "50 * int (passes obs) < r + 50"
  shows "read_loop r f obs = Some (True, frame)"
  using assms
proof (induction obs arbitrary: r f)
  case Nil
  then show ?case by (metis append_Nil2 concat.simps(1) in_set_conv_decomp list.simps(8))
next
  case (Cons ob obs)
  have "concat (map delivered (ob # obs)) \<noteq> []"
    using Cons.prems(2,6) by (metis append_Nil2 in_set_conv_decomp)
  then have "\<exists>x \<in> set (ob # obs). \<not> interrupted x"
    by (fastforce simp: delivered_def got_bytes_def interrupted_def)
  then have "0 < passes (ob # obs)"
    by (metis filter_empty_conv length_greater_0_conv)
  then have r: "0 < r" using Cons.prems(7) by linarith
  have h: "ob_head ob" "benign ob" using Cons.prems(1) by (auto simp: benign_def)
  show ?case
  proof (cases "0 \<in> set (delivered ob)")
    case True
    then obtain pre post where s: "delivered ob = pre @ 0 # post" "0 \<notin> set pre"
      by (metis split_list_first)
    have "(f @ pre) @ 0 # post @ concat (map delivered obs) = frame @ 0 # rest"
      using Cons.prems(2) s by simp
    then have "f @ pre = frame"
      using split_first_eq [of "f @ pre"] Cons.prems(3,6) s(2) by fastforce
    then show ?thesis using r h s Cons.prems read_iter_frame [of ob pre post f r]
      by (auto simp: read_loop_Cons)
  next
    case False
    have eq: "(f @ delivered ob) @ concat (map delivered obs) = frame @ 0 # rest"
      using Cons.prems(2) by simp
    have "length (f @ delivered ob) \<le> length frame"
      by (rule prefix_before_first [OF eq]) (use False Cons.prems(6) in auto)
    then have it: "read_iter r f (ob_flag ob) (ob_poll ob) (ob_read ob) =
        Continue (if interrupted ob then r else r - wait_ms r) (f @ delivered ob)"
      using h(2) False Cons.prems(5) by (intro read_iter_benign) auto
    have "read_loop (if interrupted ob then r else r - wait_ms r) (f @ delivered ob) obs
        = Some (True, frame)"
      using Cons.prems eq False wait_ms_le(1) [of r] by (intro Cons.IH) auto
    then show ?thesis using r h it by (simp add: read_loop_Cons)
  qed
qed

text \<open>One byte per read: the shape of the answers a slow line gives.\<close>

definition byte_obs :: "byte \<Rightarrow> io_obs" where
  "byte_obs b = \<lparr>ob_head = True, ob_poll = PollReady False True, ob_flag = True,
     ob_read = ReadBytes [b]\<rparr>"

lemma byte_obs_simps [simp]:
  "ob_head (byte_obs b)" "ob_flag (byte_obs b)" "benign (byte_obs b)"
  "delivered (byte_obs b) = [b]" "\<not> interrupted (byte_obs b)"
  by (simp_all add: byte_obs_def benign_def delivered_def got_bytes_def interrupted_def)

lemma read_loop_bytewise:
  "0 \<notin> set bs \<Longrightarrow> length (f @ bs) \<le> 4096 \<Longrightarrow> r \<le> 50 * int (length bs) \<Longrightarrow>
     \<exists>g. read_loop r f (map byte_obs bs @ obs) = Some (False, g)"
proof (induction bs arbitrary: f r)
  case Nil
  then show ?case by (simp add: read_loop_expired)
next
  case (Cons b bs)
  show ?case
  proof (cases "0 < r")
    case False
    then show ?thesis by (simp add: read_loop_expired)
  next
    case True
    have "read_iter r f (ob_flag (byte_obs b)) (ob_poll (byte_obs b)) (ob_read (byte_obs b)) =
        Continue (r - wait_ms r) (f @ [b])"
      using Cons.prems read_iter_benign [of "byte_obs b" "[b]" f r] by simp
    moreover have "\<exists>g. read_loop (r - wait_ms r) (f @ [b]) (map byte_obs bs @ obs) = Some (False, g)"
      using Cons.prems by (intro Cons.IH) (auto simp: wait_ms_def)
    ultimately show ?thesis using True by (simp add: read_loop_Cons)
  qed
qed

section \<open>Properties of the frame reader\<close>

text \<open>
  A frame that \<^verbatim>\<open>read_cobs_frame\<close> reports is non-empty, contains no delimiter, has at
  most 4096 bytes, and is exactly what the port delivered before the first delimiter,
  however the bytes were split over the reads.
\<close>

lemma read_frame_sound:
  assumes "read_cobs_frame timeout_ms obs = Some (True, frame)"
  shows "frame \<noteq> [] \<and> 0 \<notin> set frame \<and> length frame \<le> 4096 \<and>
    (\<exists>rest. concat (map delivered obs) = frame @ 0 # rest)"
  using read_loop_sound [of timeout_ms "[]" obs frame] assms by (simp add: read_cobs_frame_def)

text \<open>
  A frame that arrives is reported: if every pass is free of errors and of a cleared
  running flag, the bytes delivered start with a non-empty frame of at most 4096 bytes and
  its delimiter, and the passes not interrupted by a signal fit the time budget (each may
  charge 50 ms), then \<^verbatim>\<open>read_cobs_frame\<close> returns true with that frame, for every
  division of the bytes into reads.
\<close>

lemma read_frame_complete:
  assumes "\<forall>ob \<in> set obs. benign ob" and "concat (map delivered obs) = frame @ 0 # rest"
    and "0 \<notin> set frame" and "frame \<noteq> []" and "length frame \<le> 4096"
    and "50 * int (passes obs) < timeout_ms + 50"
  shows "read_cobs_frame timeout_ms obs = Some (True, frame)"
  unfolding read_cobs_frame_def using assms by (intro read_loop_complete) auto

text \<open>
  \<^verbatim>\<open>read_cobs_frame\<close> returns: once the passes that no signal interrupted number at least
  a fiftieth of the timeout, the loop has ended, whatever the port and the flag do.
\<close>

lemma read_frame_returns:
  assumes "timeout_ms \<le> 50 * int (passes obs)"
  shows "\<exists>b frame. read_cobs_frame timeout_ms obs = Some (b, frame)"
  using read_loop_returns [OF assms, of "[]"] by (auto simp: read_cobs_frame_def)

text \<open>
  The budget counts reads, not time: a frame of \<open>n\<close> bytes that arrives one byte per
  read is given up when the timeout is at most \<open>50 n\<close> milliseconds, although no call timed
  out and the delimiter was about to come.
\<close>

lemma read_budget_counts_reads:
  assumes "0 \<notin> set frame" and "length frame \<le> 4096" and "timeout_ms \<le> 50 * int (length frame)"
  shows "\<exists>part. read_cobs_frame timeout_ms (map byte_obs (frame @ [0])) = Some (False, part)"
  using read_loop_bytewise [of frame "[]" timeout_ms "[byte_obs 0]"] assms
  by (simp add: read_cobs_frame_def)

section \<open>Properties of the configuration\<close>

text \<open>
  The attributes handed to \<^verbatim>\<open>tcsetattr\<close> select 8 data bits, no parity and one stop
  bit, whatever the port had before and whatever the raw mode and speed functions do, on
  every platform whose \<^verbatim>\<open>CS8\<close> pattern lies in the \<^verbatim>\<open>CSIZE\<close> field and apart from the two
  flag bits; and the configuration is tried only for a speed the platform knows.
\<close>

lemma serial_is_8N1:
  assumes "configure_serial_best_effort pf api tcget tcset baud \<in> {Configured tio, SetFailed tio}"
    and "m_CS8 api AND m_CSIZE api = m_CS8 api"
    and "m_CS8 api AND m_PARENB api = 0" and "m_CS8 api AND m_CSTOPB api = 0"
  shows "c_cflag tio AND m_CSIZE api = m_CS8 api \<and> c_cflag tio AND m_PARENB api = 0 \<and>
    c_cflag tio AND m_CSTOPB api = 0 \<and> baud_to_speed pf baud \<noteq> B0"
proof -
  let ?m = "\<lambda>c. ((c AND NOT (m_PARENB api)) AND NOT (m_CSTOPB api)) AND NOT (m_CSIZE api) OR m_CS8 api"
  obtain c where "c_cflag tio = ?m c" and b: "baud_to_speed pf baud \<noteq> B0"
    using assms(1) by (auto simp: configure_serial_best_effort_def Let_def
        split: if_splits option.splits)
  moreover have "?m c AND m_CSIZE api = m_CS8 api AND m_CSIZE api"
    "?m c AND m_PARENB api = m_CS8 api AND m_PARENB api"
    "?m c AND m_CSTOPB api = m_CS8 api AND m_CSTOPB api"
    by (simp_all add: bit_eq_iff bit_simps) blast+
  ultimately show ?thesis using assms(2-4) by simp
qed

text \<open>The values of Linux.\<close>

definition linux_api :: "unit termios_api" where
  "linux_api = \<lparr>cfmakeraw = \<lambda>t. t\<lparr>c_cflag := (c_cflag t AND NOT 0x130) OR 0x30\<rparr>,
     cfsetispeed = \<lambda>s t. t, cfsetospeed = \<lambda>s t. t,
     m_PARENB = 0x100, m_CSTOPB = 0x40, m_CSIZE = 0x30, m_CS8 = 0x30\<rparr>"

lemma linux_8N1:
  assumes "configure_serial_best_effort pf linux_api tcget tcset baud \<in> {Configured tio, SetFailed tio}"
  shows "c_cflag tio AND 0x30 = 0x30 \<and> c_cflag tio AND 0x100 = 0 \<and> c_cflag tio AND 0x40 = 0"
  using serial_is_8N1 [OF assms] by (simp add: linux_api_def)

section \<open>Properties of getenv_int\<close>

text \<open>The decimal numeral of a number, as an operator writes it.\<close>

fun dec_string :: "nat \<Rightarrow> string" where
  "dec_string n = (if n < 10 then [''0123456789'' ! n]
     else dec_string (n div 10) @ [''0123456789'' ! (n mod 10)])"

declare dec_string.simps [simp del]

definition plain_digit :: "char \<Rightarrow> bool" where
  "plain_digit c \<longleftrightarrow> c_isdigit c \<and> \<not> c_isspace c \<and> c \<noteq> CHR ''-'' \<and> c \<noteq> CHR ''+''"

lemma digit_char:
  assumes "k < 10"
  shows "plain_digit (''0123456789'' ! k) \<and> digit_val (''0123456789'' ! k) = int k"
proof -
  have "k \<in> set [0, 1, 2, 3, 4, 5, 6, 7, 8, 9]" using assms by (simp, arith)
  then show ?thesis
    by (auto simp: plain_digit_def c_isdigit_def c_isspace_def digit_val_def)
qed

lemma digits_val_snoc: "digits_val (ds @ [c]) = 10 * digits_val ds + digit_val c"
  by (simp add: digits_val_def)

lemma dec_string_digits:
  "dec_string n \<noteq> [] \<and> list_all plain_digit (dec_string n) \<and> digits_val (dec_string n) = int n"
proof (induction n rule: dec_string.induct)
  case (1 n)
  show ?case
  proof (cases "n < 10")
    case True
    then have "dec_string n = [''0123456789'' ! n]" by (subst dec_string.simps) simp
    then show ?thesis using digit_char [OF True] by (simp add: digits_val_def del: nth_Cons_numeral)
  next
    case False
    then have s: "dec_string n = dec_string (n div 10) @ [''0123456789'' ! (n mod 10)]"
      by (subst dec_string.simps) simp
    have "n mod 10 < 10" and "10 * int (n div 10) + int (n mod 10) = int n" by simp presburger
    then show ?thesis using 1 [OF False] digit_char [of "n mod 10"]
      unfolding s digits_val_snoc by simp
  qed
qed

lemma strtol_dec_string: "strtol (dec_string n) = (saturate_long (int n), [])"
proof -
  let ?s = "dec_string n"
  have d: "?s \<noteq> []" "list_all plain_digit ?s" "digits_val ?s = int n"
    using dec_string_digits [of n] by auto
  then have s: "dropWhile c_isspace ?s = ?s" by (cases ?s) (simp_all add: plain_digit_def)
  have t: "takeWhile c_isdigit ?s = ?s" "dropWhile c_isdigit ?s = []"
    using d(2) by (simp_all add: list_all_iff plain_digit_def)
  have h: "hd ?s \<noteq> CHR ''-''" "hd ?s \<noteq> CHR ''+''"
    using d(1,2) by (cases ?s; simp add: plain_digit_def)+
  show ?thesis by (simp add: strtol_def Let_def s t h d(1,3))
qed

lemma getenv_int_Some:
  "env key = Some v \<Longrightarrow> v \<noteq> [] \<Longrightarrow> strtol v = (x, rest) \<Longrightarrow>
     getenv_int env key d = (if rest \<noteq> [] \<or> x < 0 \<or> x > 600000 then d else x)"
  by (simp add: getenv_int_def)

text \<open>
  The integer read from the environment is the default or lies between 0 and 600000;
  the decimal numeral of a number up to 600000 reads back as that number, a larger one, of
  any length, and an unset or empty variable give the default.
\<close>

lemma getenv_int_spec:
  "(getenv_int env key d = d \<or> 0 \<le> getenv_int env key d \<and> getenv_int env key d \<le> 600000) \<and>
   getenv_int (env(key \<mapsto> dec_string n)) key d = (if n \<le> 600000 then int n else d) \<and>
   getenv_int (env(key := None)) key d = d \<and> getenv_int (env(key \<mapsto> [])) key d = d"
proof (intro conjI)
  show "getenv_int env key d = d \<or> 0 \<le> getenv_int env key d \<and> getenv_int env key d \<le> 600000"
  proof (cases "\<exists>v. env key = Some v \<and> v \<noteq> []")
    case True
    then obtain v x rest where "env key = Some v" "v \<noteq> []" "strtol v = (x, rest)"
      by (metis surj_pair)
    then show ?thesis by (simp add: getenv_int_Some)
  next
    case False
    then show ?thesis by (simp add: getenv_int_def split: option.split)
  qed
  have "getenv_int (env(key \<mapsto> dec_string n)) key d =
      (if saturate_long (int n) < 0 \<or> saturate_long (int n) > 600000 then d else saturate_long (int n))"
    using getenv_int_Some [OF _ _ strtol_dec_string, of "env(key \<mapsto> dec_string n)" key n d]
      dec_string_digits [of n] by simp
  then show "getenv_int (env(key \<mapsto> dec_string n)) key d = (if n \<le> 600000 then int n else d)"
    by (auto simp: saturate_long_def)
qed (simp_all add: getenv_int_def)

end
