(* ===== verification/Fake_Serial.thy ===== *)
theory Fake_Serial
  imports Serial_Port
begin

text \<open>
  The serial emulator \<^verbatim>\<open>fake_serial/fake_serial.c\<close> (its encoder is in the theory of the codec).
  What the operating system answers (the environment, the socket calls, \<^verbatim>\<open>accept\<close>, \<^verbatim>\<open>send\<close>,
  \<^verbatim>\<open>nanosleep\<close>) and the value of \<^verbatim>\<open>g_stop\<close> at each loop head are arguments of the definitions;
  what the program does is a trace of its calls. Answers that are used up mean a program that
  is still running. An array access out of bounds is an outcome of its own.
\<close>

section \<open>Helpers\<close>

definition emu_getenv_int :: "(string \<rightharpoonup> string) \<Rightarrow> string \<Rightarrow> int \<Rightarrow> int" where
  "emu_getenv_int env key defv =
     (case env key of
        None \<Rightarrow> defv
      | Some v \<Rightarrow>
          if v = [] then defv
          else (let (x, rest) = strtol v
                in if rest = v \<or> rest \<noteq> [] then defv
                   else if x < 0 \<or> x > 1000000 then defv
                   else int32_cast x))"

text \<open>
  An answer of \<^verbatim>\<open>send\<close> with flags 0: an error; the number of bytes the socket has room for, of
  which the call takes at most those it was given; or a connection the peer has closed, which
  raises SIGPIPE. The program leaves the disposition of that signal at its default, so the
  process ends there.
\<close>

datatype send_result = SendFail errno | Sent nat | SendPipe

datatype send_outcome = SendBlocked | SendReturns int | SendKilled

text \<open>\<^verbatim>\<open>send_all\<close> from offset \<open>off\<close>: how it ends, and the bytes it has handed to the socket.\<close>

fun send_all :: "byte list \<Rightarrow> nat \<Rightarrow> send_result list \<Rightarrow> send_outcome \<times> byte list" where
  "send_all buf off [] =
     (if off < length buf then (SendBlocked, []) else (SendReturns (int off), []))"
| "send_all buf off (a # answers) =
     (if off < length buf then
        (case a of
           SendFail e \<Rightarrow>
             if e = EINTR then send_all buf off answers else (SendReturns (- 1), [])
         | SendPipe \<Rightarrow> (SendKilled, [])
         | Sent room \<Rightarrow>
             (let n = min room (length buf - off)
              in if n = 0 then (SendReturns (- 1), [])
                 else (let (r, out) = send_all buf (off + n) answers
                       in (r, take n (drop off buf) @ out))))
      else (SendReturns (int off), []))"

record timespec =
  tv_sec :: int
  tv_nsec :: int

definition ns_of :: "timespec \<Rightarrow> int" where
  "ns_of ts = tv_sec ts * 1000000000 + tv_nsec ts"

definition timespec_of :: "int \<Rightarrow> timespec" where
  "timespec_of n = \<lparr>tv_sec = n div 1000000000, tv_nsec = n mod 1000000000\<rparr>"

text \<open>
  An answer of \<^verbatim>\<open>nanosleep(&ts, &ts)\<close>: the whole time has passed, or an error after so many
  nanoseconds, the rest being stored back. The result of the loop is whether it has ended, and
  the time slept.
\<close>

datatype nano_result = NanoDone | NanoFail errno nat

fun nanosleep_loop :: "timespec \<Rightarrow> nano_result list \<Rightarrow> bool \<times> int" where
  "nanosleep_loop ts [] = (False, 0)"
| "nanosleep_loop ts (NanoDone # answers) = (True, ns_of ts)"
| "nanosleep_loop ts (NanoFail e k # answers) =
     (let t = min (int k) (ns_of ts)
      in if e = EINTR
         then (let (fin, u) = nanosleep_loop (timespec_of (ns_of ts - t)) answers in (fin, t + u))
         else (True, t))"

definition msleep_ts :: "int \<Rightarrow> timespec" where
  "msleep_ts ms = \<lparr>tv_sec = ms div 1000, tv_nsec = ms mod 1000 * 1000000\<rparr>"

definition msleep :: "int \<Rightarrow> nano_result list \<Rightarrow> bool \<times> int" where
  "msleep ms answers = (if ms \<le> 0 then (True, 0) else nanosleep_loop (msleep_ts ms) answers)"

section \<open>Serving a client\<close>

definition c_strlen :: "string \<Rightarrow> nat" where
  "c_strlen s = length (takeWhile (\<lambda>c. c \<noteq> CHR 0x00) s)"

definition bytes_of_string :: "string \<Rightarrow> byte list" where
  "bytes_of_string s = map (\<lambda>c. of_nat (of_char c)) s"

text \<open>
  One pass of the inner loop: \<^verbatim>\<open>g_stop\<close> at its head, the contents of the uninitialised array
  \<^verbatim>\<open>enc\<close>, and the answers of the system.
\<close>

record pass_obs =
  po_stop :: bool
  po_enc :: "byte list"
  po_send :: "send_result list"
  po_sleep :: "nano_result list"

datatype client_act = CSend "byte list" | CSleep int

datatype client_end = Stopped | TooLarge | EncodeFailed | SendFailed

text \<open>\<open>Broken\<close> is the SIGPIPE, \<open>Undefined\<close> an access outside \<^verbatim>\<open>enc\<close>.\<close>

datatype client_status = Serving | Left client_end | Broken | Undefined

text \<open>The encoding of the frame: \<open>Inl\<close> ends the loop, \<open>Inr\<close> is the frame with its delimiter.\<close>

definition make_frame :: "string \<Rightarrow> byte list \<Rightarrow> client_status + byte list" where
  "make_frame payload enc =
     (let in_len = c_strlen payload
      in if in_len + in_len div 254 + 2 > 1024 then Inl (Left TooLarge)
         else (case cobs_encode (take in_len (bytes_of_string payload)) (Some enc) 1024 of
                 Some (enc_len, Some enc1) \<Rightarrow>
                   if enc_len = 0 then Inl (Left EncodeFailed)
                   else (case put enc1 enc_len 0 of
                           None \<Rightarrow> Inl Undefined
                         | Some enc2 \<Rightarrow> Inr (take (Suc enc_len) enc2))
               | _ \<Rightarrow> Inl Undefined))"

fun client_loop :: "string \<Rightarrow> int \<Rightarrow> pass_obs list \<Rightarrow> client_status \<times> client_act list" where
  "client_loop payload interval_ms [] = (Serving, [])"
| "client_loop payload interval_ms (ob # obs) =
     (if po_stop ob then (Left Stopped, [])
      else (case make_frame payload (po_enc ob) of
              Inl s \<Rightarrow> (s, [])
            | Inr frame \<Rightarrow>
                (case send_all frame 0 (po_send ob) of
                   (SendBlocked, out) \<Rightarrow> (Serving, [CSend out])
                 | (SendKilled, out) \<Rightarrow> (Broken, [CSend out])
                 | (SendReturns r, out) \<Rightarrow>
                     if r < 0 then (Left SendFailed, [CSend out])
                     else (case msleep interval_ms (po_sleep ob) of
                             (False, t) \<Rightarrow> (Serving, [CSend out, CSleep t])
                           | (True, t) \<Rightarrow>
                               (let (s, acts) = client_loop payload interval_ms obs
                                in (s, CSend out # CSleep t # acts))))))"

section \<open>The server\<close>

text \<open>
  One pass of the outer loop: \<^verbatim>\<open>g_stop\<close> at its head, the error of \<^verbatim>\<open>accept\<close> if there is one,
  and the passes of the inner loop.
\<close>

record accept_obs =
  ao_stop :: bool
  ao_accept :: "errno option"
  ao_client :: "pass_obs list"

datatype emu_event =
    ESocket | EBind "16 word" | EListen | EAccept | EClient client_act | ECloseClient | ECloseServer

datatype emu_status = EmuRunning | EmuExit int | EmuKilled | EmuUndefined

fun accept_loop :: "string \<Rightarrow> int \<Rightarrow> accept_obs list \<Rightarrow> emu_status \<times> emu_event list" where
  "accept_loop payload interval_ms [] = (EmuRunning, [])"
| "accept_loop payload interval_ms (ob # obs) =
     (if ao_stop ob then (EmuExit 0, [ECloseServer])
      else (case ao_accept ob of
              Some e \<Rightarrow>
                if e = EINTR then accept_loop payload interval_ms obs
                else (EmuExit 0, [ECloseServer])
            | None \<Rightarrow>
                (case client_loop payload interval_ms (ao_client ob) of
                   (Serving, acts) \<Rightarrow> (EmuRunning, EAccept # map EClient acts)
                 | (Broken, acts) \<Rightarrow> (EmuKilled, EAccept # map EClient acts)
                 | (Undefined, acts) \<Rightarrow> (EmuUndefined, EAccept # map EClient acts)
                 | (Left why, acts) \<Rightarrow>
                     (let (s, evs) = accept_loop payload interval_ms obs
                      in (s, EAccept # map EClient acts @ ECloseClient # evs)))))"

text \<open>Whether \<^verbatim>\<open>socket\<close>, \<^verbatim>\<open>bind\<close> and \<^verbatim>\<open>listen\<close> succeed.\<close>

record listen_sys =
  ls_socket :: bool
  ls_bind :: bool
  ls_listen :: bool

definition emu_payload :: "(string \<rightharpoonup> string) \<Rightarrow> string" where
  "emu_payload env =
     (case env ''PARCEL_PAYLOAD'' of
        None \<Rightarrow> ''QR:123456'' | Some v \<Rightarrow> if v = [] then ''QR:123456'' else v)"

definition emu_main ::
  "(string \<rightharpoonup> string) \<Rightarrow> listen_sys \<Rightarrow> accept_obs list \<Rightarrow> emu_status \<times> emu_event list" where
  "emu_main env sys obs =
     (let port = emu_getenv_int env ''FAKE_SERIAL_PORT'' 7000;
          interval_ms = emu_getenv_int env ''PARCEL_INTERVAL_MS'' 2000;
          payload = emu_payload env
      in if \<not> ls_socket sys then (EmuExit 1, [])
         else if \<not> ls_bind sys
         then (EmuExit 1, [ESocket, EBind (word_of_int port), ECloseServer])
         else if \<not> ls_listen sys
         then (EmuExit 1, [ESocket, EBind (word_of_int port), EListen, ECloseServer])
         else (let (s, evs) = accept_loop payload interval_ms obs
               in (s, ESocket # EBind (word_of_int port) # EListen # evs)))"

section \<open>Lemmas on sending and sleeping\<close>

lemma send_all_sends:
  "off \<le> length buf \<Longrightarrow> send_all buf off answers = (r, out) \<Longrightarrow>
     \<exists>rest. drop off buf = out @ rest \<and>
       (if rest = [] then r = SendReturns (int (length buf))
        else r \<in> {SendBlocked, SendKilled, SendReturns (- 1)})"
proof (induction buf off answers arbitrary: r out rule: send_all.induct)
  case (2 buf off a answers)
  show ?case
  proof (cases "off < length buf")
    case True
    show ?thesis
    proof (cases a)
      case (Sent room)
      let ?n = "min room (length buf - off)"
      show ?thesis
      proof (cases "?n = 0")
        case False
        obtain r1 out1 where e: "send_all buf (off + ?n) answers = (r1, out1)" by fastforce
        have "off + ?n \<le> length buf" using True by simp
        from "2.IH"(2) [OF True Sent refl False this e] obtain rest where
          d: "drop (off + ?n) buf = out1 @ rest" and
          r: "if rest = [] then r1 = SendReturns (int (length buf))
              else r1 \<in> {SendBlocked, SendKilled, SendReturns (- 1)}" by blast
        have ro: "r = r1" "out = take ?n (drop off buf) @ out1"
          using "2.prems"(2) True Sent False e by (auto simp: Let_def split: if_splits)
        have "drop off buf = out @ rest"
          unfolding ro append_assoc d [symmetric]
          by (metis add.commute append_take_drop_id drop_drop)
        then show ?thesis using r ro by blast
      qed (use "2.prems" True Sent in \<open>auto simp: Let_def intro!: exI [of _ "drop off buf"]\<close>)
    next
      case (SendFail e)
      then show ?thesis using "2.IH"(1) [OF True] "2.prems" True
        by (cases "e = EINTR") (auto intro!: exI [of _ "drop off buf"])
    qed (use "2.prems" True in \<open>auto intro!: exI [of _ "drop off buf"]\<close>)
  qed (use "2.prems" in \<open>auto intro!: exI [of _ "drop off buf"]\<close>)
next
  case (1 buf off)
  then show ?case by (intro exI [of _ "drop off buf"]) (auto split: if_splits)
qed

text \<open>Answers that make progress: signals are retried, and otherwise there is room for a byte.\<close>

definition makes_progress :: "send_result \<Rightarrow> bool" where
  "makes_progress a = (case a of SendFail e \<Rightarrow> e = EINTR | Sent n \<Rightarrow> 0 < n | SendPipe \<Rightarrow> False)"

lemma send_all_completes:
  "off \<le> length buf \<Longrightarrow> list_all makes_progress answers \<Longrightarrow>
     length buf - off \<le> length (filter (\<lambda>a. a \<noteq> SendFail EINTR) answers) \<Longrightarrow>
     fst (send_all buf off answers) = SendReturns (int (length buf))"
proof (induction buf off answers rule: send_all.induct)
  case (2 buf off a answers)
  show ?case
  proof (cases "off < length buf")
    case True
    show ?thesis
    proof (cases a)
      case (Sent room)
      let ?n = "min room (length buf - off)"
      have n: "0 < ?n" using "2.prems"(2) True Sent by (simp add: makes_progress_def)
      then have "length buf - (off + ?n) \<le> length (filter (\<lambda>a. a \<noteq> SendFail EINTR) answers)"
        using "2.prems"(3) Sent by auto
      then have "fst (send_all buf (off + ?n) answers) = SendReturns (int (length buf))"
        using "2.IH"(2) [OF True Sent refl] n "2.prems"(1,2) True by simp
      then show ?thesis using True Sent n by (simp add: Let_def split_def)
    qed (use 2 True in \<open>auto simp: makes_progress_def\<close>)
  qed (use "2.prems" in auto)
qed auto

lemma nanosleep_total:
  "0 \<le> ns_of ts \<Longrightarrow> nanosleep_loop ts answers = (fin, t) \<Longrightarrow>
     (\<forall>a \<in> set answers. a = NanoDone \<or> (\<exists>k. a = NanoFail EINTR k)) \<Longrightarrow>
     0 \<le> t \<and> t \<le> ns_of ts \<and> (fin \<longrightarrow> t = ns_of ts)"
proof (induction ts answers arbitrary: fin t rule: nanosleep_loop.induct)
  case (3 ts e k answers)
  let ?t = "min (int k) (ns_of ts)"
  have e: "e = EINTR" using "3.prems"(3) by auto
  obtain f u where r: "nanosleep_loop (timespec_of (ns_of ts - ?t)) answers = (f, u)" by fastforce
  have n: "ns_of (timespec_of (ns_of ts - ?t)) = ns_of ts - ?t"
    by (simp add: timespec_of_def ns_of_def)
  have "0 \<le> u \<and> u \<le> ns_of ts - ?t \<and> (f \<longrightarrow> u = ns_of ts - ?t)"
    using "3.IH" [OF refl e _ r] "3.prems" unfolding n by auto
  then show ?case using "3.prems" e r by (auto simp: Let_def)
qed auto

lemma msleep_ts_valid:
  "0 \<le> tv_nsec (msleep_ts ms)" "tv_nsec (msleep_ts ms) < 1000000000" "ns_of (msleep_ts ms) = ms * 1000000"
proof -
  have "ms mod 1000 < 1000" "ms div 1000 * 1000000000 + ms mod 1000 * 1000000 = ms * 1000000"
    by (simp, presburger)
  then show "0 \<le> tv_nsec (msleep_ts ms)" "tv_nsec (msleep_ts ms) < 1000000000"
      "ns_of (msleep_ts ms) = ms * 1000000"
    by (simp_all add: msleep_ts_def ns_of_def)
qed

section \<open>Lemmas on frames\<close>

definition payload_bytes :: "string \<Rightarrow> byte list" where
  "payload_bytes payload = bytes_of_string (takeWhile (\<lambda>c. c \<noteq> CHR 0x00) payload)"

definition frame_of :: "byte list \<Rightarrow> byte list" where
  "frame_of p = cobs_enc [] p @ [0]"

abbreviation fits_enc :: "string \<Rightarrow> bool" where
  "fits_enc payload \<equiv> c_strlen payload + c_strlen payload div 254 + 2 \<le> 1024"

lemma payload_bytes_take: "take (c_strlen payload) (bytes_of_string payload) = payload_bytes payload"
  by (simp add: payload_bytes_def bytes_of_string_def c_strlen_def take_map takeWhile_eq_take [symmetric])

lemma length_payload_bytes: "length (payload_bytes payload) = c_strlen payload"
  by (simp add: payload_bytes_def bytes_of_string_def c_strlen_def)

lemma make_frame_eq:
  assumes "length enc = 1024"
  shows "make_frame payload enc =
    (if fits_enc payload then Inr (frame_of (payload_bytes payload)) else Inl (Left TooLarge))"
proof (cases "fits_enc payload")
  case True
  let ?p = "payload_bytes payload"
  have len: "length (cobs_enc [] ?p) < 1024"
    using cobs_enc_length [of "[]" ?p] True by (simp add: length_payload_bytes)
  obtain n enc1 where e: "cobs_encode ?p (Some enc) 1024 = Some (n, Some enc1)"
    and l: "length enc1 = length enc" and r: "n = 0 \<or> n \<le> 1024 \<and> take n enc1 = cobs_enc [] ?p"
    and nz: "length (cobs_enc [] ?p) < 1024 \<longrightarrow> n \<noteq> 0"
    using cobs_encode_cases [of 1024 enc ?p] assms by auto
  have n: "n = length (cobs_enc [] ?p)" and t: "take n enc1 = cobs_enc [] ?p" and "n \<noteq> 0"
    using r nz len l assms by (auto simp: min_def dest: arg_cong [of _ _ length])
  then show ?thesis using True len e l assms
    by (simp add: make_frame_def Let_def payload_bytes_take frame_of_def take_Suc_update)
qed (simp add: make_frame_def Let_def)

lemma emu_getenv_int_range:
  assumes "0 \<le> d" and "d \<le> 1000000"
  shows "0 \<le> emu_getenv_int env key d \<and> emu_getenv_int env key d \<le> 1000000"
  using assms by (auto simp: emu_getenv_int_def split: option.split prod.split)

section \<open>Lemmas on the loops\<close>

fun sent :: "client_act list \<Rightarrow> byte list" where
  "sent [] = []"
| "sent (CSend bs # acts) = bs @ sent acts"
| "sent (CSleep t # acts) = sent acts"

definition enc_ok :: "pass_obs \<Rightarrow> bool" where
  "enc_ok ob \<longleftrightarrow> length (po_enc ob) = 1024"

text \<open>The stream of a client is a prefix of the repeated frame.\<close>

definition repeats :: "byte list \<Rightarrow> byte list \<Rightarrow> bool" where
  "repeats frame bs \<longleftrightarrow> (\<exists>k rest. bs @ rest = concat (replicate k frame))"

lemma repeats_Nil [simp]: "repeats frame []"
  unfolding repeats_def by (intro exI [of _ 0]) simp

lemma repeats_prefix: "frame = bs @ rest \<Longrightarrow> repeats frame bs"
  unfolding repeats_def by (intro exI [of _ "Suc 0"]) auto

lemma repeats_frame: "repeats frame bs \<Longrightarrow> repeats frame (frame @ bs)"
  unfolding repeats_def by (metis append.assoc concat.simps(2) replicate_Suc)

lemma client_pass_cases:
  assumes "enc_ok ob"
  obtains (stop) "po_stop ob" "client_loop payload ms (ob # obs) = (Left Stopped, [])"
    | (large) "\<not> fits_enc payload" "client_loop payload ms (ob # obs) = (Left TooLarge, [])"
    | (cut) out rest s where "fits_enc payload" "frame_of (payload_bytes payload) = out @ rest" "rest \<noteq> []"
      "s \<in> {Serving, Broken, Left SendFailed}" "client_loop payload ms (ob # obs) = (s, [CSend out])"
    | (napping) t where "fits_enc payload" "msleep ms (po_sleep ob) = (False, t)"
      "client_loop payload ms (ob # obs) = (Serving, [CSend (frame_of (payload_bytes payload)), CSleep t])"
    | (again) t where "fits_enc payload" "msleep ms (po_sleep ob) = (True, t)"
      "client_loop payload ms (ob # obs) = (fst (client_loop payload ms obs),
         CSend (frame_of (payload_bytes payload)) # CSleep t # snd (client_loop payload ms obs))"
proof -
  let ?f = "frame_of (payload_bytes payload)"
  have mf: "make_frame payload (po_enc ob) = (if fits_enc payload then Inr ?f else Inl (Left TooLarge))"
    using assms make_frame_eq by (simp only: enc_ok_def)
  obtain r out where sa: "send_all ?f 0 (po_send ob) = (r, out)" by fastforce
  from send_all_sends [OF _ this] obtain rest where f: "?f = out @ rest"
    and r: "if rest = [] then r = SendReturns (int (length ?f))
      else r \<in> {SendBlocked, SendKilled, SendReturns (- 1)}" by auto
  obtain fin t where sl: "msleep ms (po_sleep ob) = (fin, t)" by fastforce
  consider "po_stop ob" | "\<not> po_stop ob" "\<not> fits_enc payload"
    | "\<not> po_stop ob" "fits_enc payload" "rest \<noteq> []" | "\<not> po_stop ob" "fits_enc payload" "rest = []"
    by blast
  then show thesis
  proof cases
    case 3
    then consider "r = SendBlocked" | "r = SendKilled" | "r = SendReturns (- 1)" using r by auto
    then have "\<exists>s \<in> {Serving, Broken, Left SendFailed}. client_loop payload ms (ob # obs) = (s, [CSend out])"
      using 3 mf sa by cases simp_all
    then show thesis using 3(2,3) f cut by blast
  next
    case 4
    then have eq: "client_loop payload ms (ob # obs) =
        (case msleep ms (po_sleep ob) of (False, t) \<Rightarrow> (Serving, [CSend out, CSleep t])
         | (True, t) \<Rightarrow> (let (s, acts) = client_loop payload ms obs in (s, CSend out # CSleep t # acts)))"
      using r mf sa by simp
    have "out = ?f" using f 4 by simp
    then show thesis using napping [OF 4(2)] again [OF 4(2)] eq sl
      by (cases fin) (simp_all add: split_def Let_def del: client_loop.simps)
  qed (use mf stop large in simp_all)
qed

declare client_loop.simps(2) [simp del]

lemma client_loop_stream:
  "list_all enc_ok obs \<Longrightarrow>
     fst (client_loop payload ms obs) \<noteq> Undefined \<and> fst (client_loop payload ms obs) \<noteq> Left EncodeFailed \<and>
     repeats (frame_of (payload_bytes payload)) (sent (snd (client_loop payload ms obs))) \<and>
     (\<not> fits_enc payload \<longrightarrow> snd (client_loop payload ms obs) = [])"
proof (induction obs)
  case (Cons ob obs)
  then have "enc_ok ob" by simp
  then show ?case
  proof (cases rule: client_pass_cases [where payload = payload and ms = ms and obs = obs])
    case (cut out rest s)
    then show ?thesis using repeats_prefix [OF cut(2)] by auto
  next
    case (napping t)
    then show ?thesis using repeats_frame [OF repeats_Nil] by simp
  next
    case (again t)
    then show ?thesis using Cons repeats_frame by simp
  qed auto
qed simp

section \<open>The specification of the emulator\<close>

text \<open>
  What the emulator promises to the other side of its sockets, as an automaton over the trace:
  one client at a time; a client gets whole frames with the configured pause behind each of them,
  and only the last one may be cut short; the sockets are closed in order.
\<close>

datatype emu_phase =
  PNone | PSocket | PBound | PListening | PReady | PSent | PCut | PNap | PClosed

fun emu_allows :: "byte list \<Rightarrow> int \<Rightarrow> emu_phase \<Rightarrow> emu_event \<Rightarrow> emu_phase option" where
  "emu_allows frame pause PNone e = (if e = ESocket then Some PSocket else None)"
| "emu_allows frame pause PSocket e = (case e of EBind port \<Rightarrow> Some PBound | _ \<Rightarrow> None)"
| "emu_allows frame pause PBound e =
     (case e of EListen \<Rightarrow> Some PListening | ECloseServer \<Rightarrow> Some PClosed | _ \<Rightarrow> None)"
| "emu_allows frame pause PListening e =
     (case e of EAccept \<Rightarrow> Some PReady | ECloseServer \<Rightarrow> Some PClosed | _ \<Rightarrow> None)"
| "emu_allows frame pause PReady e =
     (case e of
        EClient (CSend bs) \<Rightarrow>
          if bs = frame then Some PSent
          else if length bs < length frame \<and> take (length bs) frame = bs then Some PCut else None
      | ECloseClient \<Rightarrow> Some PListening
      | _ \<Rightarrow> None)"
| "emu_allows frame pause PSent e =
     (case e of
        EClient (CSleep t) \<Rightarrow>
          if t = pause then Some PReady else if 0 \<le> t \<and> t < pause then Some PNap else None
      | _ \<Rightarrow> None)"
| "emu_allows frame pause PCut e = (if e = ECloseClient then Some PListening else None)"
| "emu_allows frame pause PNap e = None"
| "emu_allows frame pause PClosed e = None"

fun emu_accepts :: "byte list \<Rightarrow> int \<Rightarrow> emu_phase \<Rightarrow> emu_event list \<Rightarrow> emu_phase option" where
  "emu_accepts frame pause ph [] = Some ph"
| "emu_accepts frame pause ph (e # evs) =
     (case emu_allows frame pause ph e of
        None \<Rightarrow> None | Some ph' \<Rightarrow> emu_accepts frame pause ph' evs)"

lemma emu_accepts_append:
  "emu_accepts frame pause ph (xs @ ys) =
     (case emu_accepts frame pause ph xs of
        None \<Rightarrow> None | Some ph' \<Rightarrow> emu_accepts frame pause ph' ys)"
  by (induction xs arbitrary: ph) (simp_all split: option.split)

text \<open>An environment as POSIX describes it: the array has its size, and a valid interval is only
  ever interrupted.\<close>

definition sys_ok :: "pass_obs \<Rightarrow> bool" where
  "sys_ok ob \<longleftrightarrow> enc_ok ob \<and> list_all (\<lambda>a. case a of NanoDone \<Rightarrow> True | NanoFail e k \<Rightarrow> e = EINTR) (po_sleep ob)"

abbreviation pause_ns :: "int \<Rightarrow> int" where
  "pause_ns ms \<equiv> max 0 ms * 1000000"

lemma msleep_pause:
  assumes "sys_ok ob" and "msleep ms (po_sleep ob) = (fin, t)"
  shows "0 \<le> t" "t \<le> pause_ns ms" "fin \<Longrightarrow> t = pause_ns ms"
proof -
  have "a = NanoDone \<or> (\<exists>k. a = NanoFail EINTR k)" if "a \<in> set (po_sleep ob)" for a
    using assms(1) that by (cases a) (auto simp: sys_ok_def list_all_iff)
  then have "0 \<le> t \<and> t \<le> pause_ns ms \<and> (fin \<longrightarrow> t = pause_ns ms)"
    using assms(2) nanosleep_total [of "msleep_ts ms" "po_sleep ob" fin t] msleep_ts_valid(3) [of ms]
    by (auto simp: msleep_def split: if_splits)
  then show "0 \<le> t" "t \<le> pause_ns ms" "fin \<Longrightarrow> t = pause_ns ms" by auto
qed

text \<open>How the phases after a session correspond to the ways it ends.\<close>

fun phase_of :: "client_status \<Rightarrow> emu_phase set" where
  "phase_of (Left why) = {PReady, PCut}"
| "phase_of _ = {PReady, PCut, PNap, PSent}"

lemma client_loop_accepted:
  "list_all sys_ok obs \<Longrightarrow>
     \<exists>ph \<in> phase_of (fst (client_loop payload ms obs)).
       emu_accepts (frame_of (payload_bytes payload)) (pause_ns ms) PReady
         (map EClient (snd (client_loop payload ms obs))) = Some ph"
proof (induction obs)
  case (Cons ob obs)
  then have ok: "sys_ok ob" "enc_ok ob" by (simp_all add: sys_ok_def)
  from ok(2) show ?case
  proof (cases rule: client_pass_cases [where payload = payload and ms = ms and obs = obs])
    case (cut out rest s)
    then show ?thesis by auto
  next
    case (napping t)
    then show ?thesis using msleep_pause [OF ok(1) napping(2)] by auto
  next
    case (again t)
    then show ?thesis using Cons msleep_pause [OF ok(1) again(2)] by auto
  qed auto
qed simp

lemma phase_of_closes:
  "ph \<in> phase_of (Left why) \<Longrightarrow> emu_allows frame pause ph ECloseClient = Some PListening"
  by auto

lemma accept_loop_accepted:
  assumes "\<forall>ob \<in> set obs. list_all sys_ok (ao_client ob)"
  shows "fst (accept_loop payload ms obs) \<noteq> EmuUndefined \<and>
    (\<exists>ph. emu_accepts (frame_of (payload_bytes payload)) (pause_ns ms) PListening
       (snd (accept_loop payload ms obs)) = Some ph \<and>
     (\<forall>c. fst (accept_loop payload ms obs) = EmuExit c \<longrightarrow> c = 0 \<and> ph = PClosed))"
  using assms
proof (induction obs)
  case (Cons ob obs)
  let ?f = "frame_of (payload_bytes payload)"
  have ok: "list_all sys_ok (ao_client ob)" using Cons.prems by simp
  then have "list_all enc_ok (ao_client ob)" by (simp add: list_all_iff sys_ok_def)
  note nu = client_loop_stream [OF this, of payload ms]
  obtain s acts where c: "client_loop payload ms (ao_client ob) = (s, acts)" by fastforce
  from client_loop_accepted [OF ok, of payload ms] c obtain ph where
    ph: "ph \<in> phase_of s" "emu_accepts ?f (pause_ns ms) PReady (map EClient acts) = Some ph" by auto
  show ?case
  proof (cases "ao_stop ob \<or> ao_accept ob \<noteq> None")
    case True
    then show ?thesis using Cons by (auto split: option.split)
  next
    case False
    then show ?thesis
    proof (cases s)
      case (Left why)
      then have "emu_allows ?f (pause_ns ms) ph ECloseClient = Some PListening"
        using ph(1) phase_of_closes by blast
      then show ?thesis using False Left Cons c ph(2)
        by (auto simp: emu_accepts_append split_def Let_def)
    qed (use False nu c ph(2) in auto)
  qed
qed simp

text \<open>A pass in which nothing goes wrong, however the frame is split over the calls.\<close>

definition clean_pass :: "nat \<Rightarrow> pass_obs \<Rightarrow> bool" where
  "clean_pass n ob \<longleftrightarrow> sys_ok ob \<and> \<not> po_stop ob \<and> list_all makes_progress (po_send ob) \<and>
     n \<le> length (filter (\<lambda>a. a \<noteq> SendFail EINTR) (po_send ob)) \<and> NanoDone \<in> set (po_sleep ob)"

lemma nanosleep_ends:
  "NanoDone \<in> set answers \<Longrightarrow> fst (nanosleep_loop ts answers)"
  by (induction ts answers rule: nanosleep_loop.induct) (auto simp: Let_def split_def)

lemma client_loop_clean:
  assumes "clean_pass (length (frame_of (payload_bytes payload))) ob" and "fits_enc payload"
  shows "client_loop payload ms (ob # obs) = (fst (client_loop payload ms obs),
    CSend (frame_of (payload_bytes payload)) # CSleep (pause_ns ms) # snd (client_loop payload ms obs))"
proof -
  let ?f = "frame_of (payload_bytes payload)"
  have ok: "sys_ok ob" "\<not> po_stop ob" using assms(1) by (simp_all add: clean_pass_def)
  have mf: "make_frame payload (po_enc ob) = Inr ?f"
    using assms(2) ok(1) make_frame_eq by (simp add: sys_ok_def enc_ok_def)
  have "fst (send_all ?f 0 (po_send ob)) = SendReturns (int (length ?f))"
    using assms(1) by (intro send_all_completes) (auto simp: clean_pass_def)
  then have sa: "send_all ?f 0 (po_send ob) = (SendReturns (int (length ?f)), ?f)"
    using send_all_sends [of 0 ?f "po_send ob" "fst (send_all ?f 0 (po_send ob))" "snd (send_all ?f 0 (po_send ob))"]
    by (cases "send_all ?f 0 (po_send ob)") (auto split: if_splits)
  have "fst (msleep ms (po_sleep ob))"
    using assms(1) nanosleep_ends by (simp add: msleep_def clean_pass_def)
  then have "msleep ms (po_sleep ob) = (True, pause_ns ms)"
    using msleep_pause(3) [OF ok(1), of ms True] by (cases "msleep ms (po_sleep ob)") simp
  then show ?thesis using ok(2) mf sa by (simp add: client_loop.simps(2) Let_def split_def)
qed

lemma client_loop_cleans:
  assumes "list_all (clean_pass (length (frame_of (payload_bytes payload)))) obs" and "fits_enc payload"
  shows "client_loop payload ms (obs @ later) = (fst (client_loop payload ms later),
    concat (replicate (length obs) [CSend (frame_of (payload_bytes payload)), CSleep (pause_ns ms)]) @
      snd (client_loop payload ms later))"
  using assms by (induction obs) (simp_all add: client_loop_clean)

lemma sent_cycles [simp]: "sent (concat (replicate n [CSend f, CSleep t])) = concat (replicate n f)"
  by (induction n) simp_all

section \<open>Properties\<close>

text \<open>A concrete pass: the frame leaves in pieces, with signals in between.\<close>

definition some_pass :: pass_obs where
  "some_pass = \<lparr>po_stop = False, po_enc = replicate 1024 0xAA,
     po_send = SendFail EINTR # replicate 11 (Sent 4), po_sleep = [NanoFail EINTR 5000000, NanoDone]\<rparr>"

definition pipe_pass :: pass_obs where
  "pipe_pass = some_pass\<lparr>po_send := [SendPipe]\<rparr>"

lemma pipe_pass_facts: "enc_ok pipe_pass" "\<not> po_stop pipe_pass" "po_send pipe_pass = [SendPipe]"
  by (simp_all add: pipe_pass_def some_pass_def enc_ok_def)

lemma some_pass_clean: "clean_pass 11 some_pass" "sys_ok some_pass"
  by (simp_all add: clean_pass_def some_pass_def sys_ok_def enc_ok_def makes_progress_def list_all_iff)

text \<open>
  C14: every run of the emulator, whatever the environment, the clients and the signals do, is one
  the specification allows: one client at a time, whole frames of the configured payload with the
  configured pause behind each, every accepted connection closed before the next one, and both
  sockets closed when the program exits. It never writes outside its 1024-byte buffer.
\<close>

theorem emulator_refines_spec:
  assumes "\<forall>ob \<in> set obs. list_all sys_ok (ao_client ob)"
  shows "fst (emu_main env sys obs) \<noteq> EmuUndefined \<and>
    (\<exists>ph. emu_accepts (frame_of (payload_bytes (emu_payload env)))
        (pause_ns (emu_getenv_int env ''PARCEL_INTERVAL_MS'' 2000)) PNone
        (snd (emu_main env sys obs)) = Some ph \<and>
     (fst (emu_main env sys obs) \<in> {EmuRunning, EmuKilled} \<or>
      fst (emu_main env sys obs) =
        EmuExit (if ls_socket sys \<and> ls_bind sys \<and> ls_listen sys then 0 else 1) \<and>
      ph = (if ls_socket sys then PClosed else PNone)))"
  using accept_loop_accepted [OF assms, of "emu_payload env" "emu_getenv_int env ''PARCEL_INTERVAL_MS'' 2000"]
  by (cases "fst (accept_loop (emu_payload env) (emu_getenv_int env ''PARCEL_INTERVAL_MS'' 2000) obs)")
    (auto simp: emu_main_def Let_def split_def)

theorem emulator_refines_spec_witness:
  "\<exists>ph. emu_accepts (frame_of (payload_bytes (emu_payload Map.empty)))
     (pause_ns (emu_getenv_int Map.empty ''PARCEL_INTERVAL_MS'' 2000)) PNone
     (snd (emu_main Map.empty \<lparr>ls_socket = True, ls_bind = True, ls_listen = True\<rparr>
       [\<lparr>ao_stop = False, ao_accept = None, ao_client = [some_pass, some_pass\<lparr>po_stop := True\<rparr>]\<rparr>,
        \<lparr>ao_stop = True, ao_accept = None, ao_client = []\<rparr>])) = Some ph"
  using emulator_refines_spec [of
      "[\<lparr>ao_stop = False, ao_accept = None, ao_client = [some_pass, some_pass\<lparr>po_stop := True\<rparr>]\<rparr>,
        \<lparr>ao_stop = True, ao_accept = None, ao_client = []\<rparr>]" Map.empty
      "\<lparr>ls_socket = True, ls_bind = True, ls_listen = True\<rparr>"]
    some_pass_clean(2) by (auto simp: sys_ok_def enc_ok_def)

text \<open>
  A client that stays connected is served: as long as the socket takes at least one byte
  per call, the loop sends one whole frame and sleeps the whole interval in every pass, however
  often signals interrupt the calls, and goes on until \<^verbatim>\<open>g_stop\<close> is set.
\<close>

lemma emulator_keeps_sending:
  assumes "fits_enc payload"
    and "list_all (clean_pass (length (frame_of (payload_bytes payload)))) obs" and "po_stop ob"
  shows "client_loop payload ms obs = (Serving,
      concat (replicate (length obs) [CSend (frame_of (payload_bytes payload)), CSleep (pause_ns ms)])) \<and>
    sent (snd (client_loop payload ms obs)) =
      concat (replicate (length obs) (frame_of (payload_bytes payload))) \<and>
    fst (client_loop payload ms (obs @ ob # later)) = Left Stopped"
  using client_loop_cleans [OF assms(2,1), of ms "[]"] client_loop_cleans [OF assms(2,1), of ms "ob # later"]
    assms(3) by (simp add: client_loop.simps(2))



text \<open>A port beyond 65535 passes the check of the environment variable and is cut to 16 bits.\<close>

lemma port_wraps:
  "snd (emu_main [''FAKE_SERIAL_PORT'' \<mapsto> ''70000''] \<lparr>ls_socket = True, ls_bind = True, ls_listen = True\<rparr> [])
     = [ESocket, EBind 4464, EListen]"
  by code_simp

end
