(* ===== verification/Job_Runner.thy ===== *)
theory Job_Runner
  imports Serial_Port Job_Store Dispatcher
begin

text \<open>
  \<^verbatim>\<open>app/JobRunner.hpp\<close> and the rest of \<^verbatim>\<open>app/JobRunner.cpp\<close>: the job thread and the object
  that starts and stops it. The thread is a machine over its own variables: one step
  performs at most one access to shared memory (a load of the running flag or of the
  baud rate, a call on the store, a store to the flag, a submission) and names what it
  does as a list of actions. What it loads and what the operating system answers are
  arguments of the step, so the properties of the thread hold under every interleaving
  with the other threads; \<open>runner_step\<close> connects the actions with the shared objects.
\<close>

section \<open>Identifiers\<close>

text \<open>The eight draws of \<^verbatim>\<open>std::random_device\<close> are the argument.\<close>

definition gen_id :: "(nat \<Rightarrow> nat) \<Rightarrow> job_id" where
  "gen_id rd = map (\<lambda>i. ''0123456789abcdef'' ! (rd i mod 16)) [0..<8]"

section \<open>The job thread\<close>

definition string_of_bytes :: "byte list \<Rightarrow> string" where
  "string_of_bytes bs = map (\<lambda>b. char_of (unat b)) bs"

text \<open>
  Program points: the prologue, the loop head, the deadline check, \<^verbatim>\<open>open\<close>, the head and
  the body of the read loop, the flag check behind it, the frame check, the cancelled
  exit, and the common tail of the three exits.
\<close>

datatype job_pc =
    JStart int | JLoop | JClock | JOpen int | JRead int | JPoll int | JGot bool | JDecode
  | JCancel | JFlag | JSubmit | JExited

record job_thread =
  jt_id :: job_id
  jt_pc :: job_pc
  jt_reopen :: int
  jt_deadline :: int
  jt_enc :: "byte list"

text \<open>The clock is in nanoseconds; a step that does not ask for an answer ignores it.\<close>

record job_in =
  ji_now :: int
  ji_env :: "string \<rightharpoonup> string"
  ji_open :: bool
  ji_poll :: poll_result
  ji_read :: read_result

datatype job_act =
    AOpen | AConfigure int | AClose | ASleep int
  | ASetTimeout | ASetCancelled | ASetDone string | AClearFlag | ASubmitFinish

definition retry :: "job_thread \<Rightarrow> job_act list \<times> job_thread" where
  "retry th = ([ASleep 20], th\<lparr>jt_pc := JLoop\<rparr>)"

text \<open>What happens with a complete frame. The decoder never accesses its arrays out of bounds, so
  the case \<open>None\<close> does not arise.\<close>

definition check_frame :: "job_thread \<Rightarrow> job_act list \<times> job_thread" where
  "check_frame th =
     (case cobs_decode (jt_enc th) of
        Some (True, dec) \<Rightarrow>
          (let payload = string_of_bytes dec
           in if starts_with ''QR:'' payload
              then ([ASetDone payload], th\<lparr>jt_pc := JFlag\<rparr>)
              else retry th)
      | _ \<Rightarrow> retry th)"

definition job_step :: "bool \<Rightarrow> int \<Rightarrow> job_in \<Rightarrow> job_thread \<Rightarrow> job_act list \<times> job_thread" where
  "job_step running baud i th =
     (case jt_pc th of
        JStart timeout_ms \<Rightarrow>
          ([], th\<lparr>jt_reopen := getenv_int (ji_env i) ''REOPEN_DELAY_MS'' 1000,
                  jt_deadline := ji_now i + timeout_ms * 1000000, jt_enc := [], jt_pc := JLoop\<rparr>)
      | JLoop \<Rightarrow> ([], th\<lparr>jt_pc := (if running then JClock else JCancel)\<rparr>)
      | JClock \<Rightarrow>
          if ji_now i \<ge> jt_deadline th then ([ASetTimeout], th\<lparr>jt_pc := JFlag\<rparr>)
          else ([], th\<lparr>jt_pc := JOpen (int32_cast ((jt_deadline th - ji_now i) div 1000000))\<rparr>)
      | JOpen remaining_ms \<Rightarrow>
          if \<not> ji_open i then
            (let sleep_ms = (if jt_reopen th < remaining_ms then jt_reopen th else remaining_ms)
             in (if sleep_ms > 0 then [ASleep sleep_ms] else [], th\<lparr>jt_pc := JLoop\<rparr>))
          else ([AOpen, AConfigure baud], th\<lparr>jt_enc := [], jt_pc := JRead remaining_ms\<rparr>)
      | JRead remaining \<Rightarrow>
          if remaining > 0 \<and> running then ([], th\<lparr>jt_pc := JPoll remaining\<rparr>)
          else ([AClose], th\<lparr>jt_pc := JGot False\<rparr>)
      | JPoll remaining \<Rightarrow>
          (case read_iter remaining (jt_enc th) running (ji_poll i) (ji_read i) of
             Continue remaining' enc \<Rightarrow> ([], th\<lparr>jt_enc := enc, jt_pc := JRead remaining'\<rparr>)
           | Return got enc \<Rightarrow> ([AClose], th\<lparr>jt_enc := enc, jt_pc := JGot got\<rparr>))
      | JGot got_frame \<Rightarrow>
          if \<not> running then ([], th\<lparr>jt_pc := JCancel\<rparr>)
          else if \<not> got_frame then retry th
          else ([], th\<lparr>jt_pc := JDecode\<rparr>)
      | JDecode \<Rightarrow> check_frame th
      | JCancel \<Rightarrow> ([ASetCancelled], th\<lparr>jt_pc := JFlag\<rparr>)
      | JFlag \<Rightarrow> ([AClearFlag], th\<lparr>jt_pc := JSubmit\<rparr>)
      | JSubmit \<Rightarrow> ([ASubmitFinish], th\<lparr>jt_pc := JExited\<rparr>)
      | JExited \<Rightarrow> ([], th))"

definition new_thread :: "job_id \<Rightarrow> int \<Rightarrow> job_thread" where
  "new_thread jid timeout_ms =
     \<lparr>jt_id = jid, jt_pc = JStart timeout_ms, jt_reopen = 0, jt_deadline = 0, jt_enc = []\<rparr>"

text \<open>
  A run of the thread over what each of its steps observes: the flag and the baud rate it
  would load, and the answers of the system.
\<close>

type_synonym job_obs = "bool \<times> int \<times> job_in"

fun job_run :: "job_obs list \<Rightarrow> job_thread \<Rightarrow> job_act list \<times> job_thread" where
  "job_run [] th = ([], th)"
| "job_run ((running, baud, i) # obs) th =
     (let (as, th1) = job_step running baud i th; (bs, th2) = job_run obs th1 in (as @ bs, th2))"

lemma job_run_Cons:
  "snd (job_run ((r, b, i) # obs) th) = snd (job_run obs (snd (job_step r b i th)))"
  "fst (job_run ((r, b, i) # obs) th) =
     fst (job_step r b i th) @ fst (job_run obs (snd (job_step r b i th)))"
  by (simp_all split: prod.splits)

lemma job_run_append:
  "job_run (xs @ ys) th =
     (fst (job_run xs th) @ fst (job_run ys (snd (job_run xs th))),
      snd (job_run ys (snd (job_run xs th))))"
  by (induction xs th rule: job_run.induct) (auto simp: Let_def split: prod.splits)

lemma job_run_snoc:
  "job_run (xs @ [(r, b, i)]) th =
     (fst (job_run xs th) @ fst (job_step r b i (snd (job_run xs th))),
      snd (job_step r b i (snd (job_run xs th))))"
  by (simp add: job_run_append split: prod.splits)

lemmas job_step_defs = job_step_def check_frame_def retry_def

section \<open>The runner object\<close>

record JobRunner =
  r_serial_port :: string
  r_running :: bool
  r_worker :: "job_thread option"
  r_baudrate :: int

definition new_JobRunner :: "string \<Rightarrow> JobRunner" where
  "new_JobRunner port =
     \<lparr>r_serial_port = port, r_running = False, r_worker = None, r_baudrate = 115200\<rparr>"

definition set_baudrate :: "int \<Rightarrow> JobRunner \<Rightarrow> JobRunner" where
  "set_baudrate baudrate r = (if baudrate \<le> 0 then r else r\<lparr>r_baudrate := baudrate\<rparr>)"

text \<open>The objects the runner works on: itself, the store and the dispatcher.\<close>

record Gateway =
  gw_jobs :: JobRunner
  gw_store :: JobStore
  gw_disp :: Dispatcher

text \<open>
  The effect of an action on the shared objects. An exception that leaves the thread
  function ends the process; it is the left of the sum.
\<close>

definition upd_store :: "Gateway \<Rightarrow> exn + JobStore \<Rightarrow> exn + Gateway" where
  "upd_store g res = (case res of Inl e \<Rightarrow> Inl e | Inr s \<Rightarrow> Inr (g\<lparr>gw_store := s\<rparr>))"

fun apply_act :: "job_id \<Rightarrow> job_act \<Rightarrow> Gateway \<Rightarrow> exn + Gateway" where
  "apply_act jid ASetTimeout g = upd_store g (set_timeout jid (gw_store g))"
| "apply_act jid ASetCancelled g = upd_store g (set_cancelled jid (gw_store g))"
| "apply_act jid (ASetDone q) g = upd_store g (set_done jid q (gw_store g))"
| "apply_act jid AClearFlag g = Inr (g\<lparr>gw_jobs := (gw_jobs g)\<lparr>r_running := False\<rparr>\<rparr>)"
| "apply_act jid ASubmitFinish g = Inr (g\<lparr>gw_disp := snd (submit_finish_job (gw_disp g))\<rparr>)"
| "apply_act jid _ g = Inr g"

fun apply_acts :: "job_id \<Rightarrow> job_act list \<Rightarrow> Gateway \<Rightarrow> exn + Gateway" where
  "apply_acts jid [] g = Inr g"
| "apply_acts jid (a # as) g =
     (case apply_act jid a g of Inl e \<Rightarrow> Inl e | Inr g' \<Rightarrow> apply_acts jid as g')"

text \<open>One step of the job thread, if there is one.\<close>

definition runner_step :: "job_in \<Rightarrow> Gateway \<Rightarrow> exn + Gateway" where
  "runner_step i g =
     (case r_worker (gw_jobs g) of
        None \<Rightarrow> Inr g
      | Some th \<Rightarrow>
          (let (as, th') = job_step (r_running (gw_jobs g)) (r_baudrate (gw_jobs g)) i th
           in apply_acts (jt_id th) as (g\<lparr>gw_jobs := (gw_jobs g)\<lparr>r_worker := Some th'\<rparr>\<rparr>)))"

text \<open>
  \<^verbatim>\<open>JobRunner::stop()\<close> is two atomic actions with a wait between them: it clears the flag,
  and, if the thread object is joinable, waits until the thread has returned. The end of
  \<^verbatim>\<open>JobRunner::start\<close>, behind its own \<^verbatim>\<open>stop()\<close>, creates the entry, sets the flag and
  launches the thread; assigning to a joinable thread object would end the process.
\<close>

definition clear_running :: "Gateway \<Rightarrow> Gateway" where
  "clear_running g = g\<lparr>gw_jobs := (gw_jobs g)\<lparr>r_running := False\<rparr>\<rparr>"

definition join :: "Gateway \<Rightarrow> Gateway option" where
  "join g =
     (case r_worker (gw_jobs g) of
        None \<Rightarrow> Some g
      | Some th \<Rightarrow>
          if jt_pc th = JExited then Some (g\<lparr>gw_jobs := (gw_jobs g)\<lparr>r_worker := None\<rparr>\<rparr>)
          else None)"

definition launch :: "job_id \<Rightarrow> int \<Rightarrow> Gateway \<Rightarrow> Gateway option" where
  "launch jid timeout_ms g =
     (if r_worker (gw_jobs g) \<noteq> None then None
      else Some (g\<lparr>gw_store := create jid (gw_store g),
                   gw_jobs := (gw_jobs g)\<lparr>r_running := True,
                                          r_worker := Some (new_thread jid timeout_ms)\<rparr>\<rparr>))"

section \<open>Invariants of the thread\<close>

lemma job_run_invariant:
  assumes "I [] [] th0"
    and "\<And>obs acts th r b i. I obs acts th \<Longrightarrow>
      I (obs @ [(r, b, i)]) (acts @ fst (job_step r b i th)) (snd (job_step r b i th))"
  shows "I obs (fst (job_run obs th0)) (snd (job_run obs th0))"
proof (induction obs rule: rev_induct)
  case Nil
  show ?case using assms(1) by simp
next
  case (snoc x obs)
  then show ?case using assms(2) by (cases x) (simp add: job_run_snoc)
qed

fun io_act :: "job_act \<Rightarrow> bool" where
  "io_act AOpen = True" | "io_act (AConfigure b) = True" | "io_act AClose = True"
| "io_act (ASleep n) = True" | "io_act _ = False"

fun verdict :: "job_act \<Rightarrow> bool" where
  "verdict ASetTimeout = True" | "verdict ASetCancelled = True" | "verdict (ASetDone q) = True"
| "verdict _ = False"

text \<open>How much of the closing sequence a program point has behind it.\<close>

fun closing :: "job_pc \<Rightarrow> nat" where
  "closing JFlag = 1" | "closing JSubmit = 2" | "closing JExited = 3" | "closing _ = 0"

definition trace_ok :: "job_act list \<Rightarrow> job_thread \<Rightarrow> bool" where
  "trace_ok acts th \<longleftrightarrow> (\<exists>io v. list_all io_act io \<and> verdict v \<and>
     acts = io @ take (closing (jt_pc th)) [v, AClearFlag, ASubmitFinish])"

lemma check_frame_cases:
  obtains (qr) dec where "cobs_decode (jt_enc th) = Some (True, dec)"
      "starts_with ''QR:'' (string_of_bytes dec)"
      "check_frame th = ([ASetDone (string_of_bytes dec)], th\<lparr>jt_pc := JFlag\<rparr>)"
    | (again) "check_frame th = ([ASleep 20], th\<lparr>jt_pc := JLoop\<rparr>)"
proof (cases "\<exists>dec. cobs_decode (jt_enc th) = Some (True, dec) \<and>
    starts_with ''QR:'' (string_of_bytes dec)")
  case True
  then show ?thesis using qr by (auto simp: check_frame_def Let_def)
next
  case False
  then have "check_frame th = ([ASleep 20], th\<lparr>jt_pc := JLoop\<rparr>)"
    unfolding check_frame_def retry_def Let_def by (auto split: option.split bool.split)
  then show ?thesis by (rule again)
qed

lemma trace_ok_io:
  "trace_ok acts th \<Longrightarrow> closing (jt_pc th) = 0 \<Longrightarrow> list_all io_act as \<Longrightarrow>
     closing (jt_pc th') = 0 \<Longrightarrow> trace_ok (acts @ as) th'"
  unfolding trace_ok_def by (metis append.right_neutral list_all_append take0)

lemma trace_ok_verdict:
  "trace_ok acts th \<Longrightarrow> closing (jt_pc th) = 0 \<Longrightarrow> verdict v \<Longrightarrow> jt_pc th' = JFlag \<Longrightarrow>
     trace_ok (acts @ [v]) th'"
  unfolding trace_ok_def by (metis append.right_neutral closing.simps(1) take0 take_Suc_Cons One_nat_def)

lemma trace_ok_step:
  assumes "trace_ok acts th"
  shows "trace_ok (acts @ fst (job_step r b i th)) (snd (job_step r b i th))"
proof (cases "closing (jt_pc th) = 0")
  case False
  then show ?thesis using assms
    by (cases "jt_pc th") (auto simp: trace_ok_def job_step_def eval_nat_numeral)
next
  case c: True
  note io = trace_ok_io [OF assms c] trace_ok_io [OF assms c, of "[]", simplified] and verd = trace_ok_verdict [OF assms c]
  show ?thesis
  proof (cases "jt_pc th")
    case (JPoll rem)
    then show ?thesis
      by (cases "read_iter rem (jt_enc th) r (ji_poll i) (ji_read i)")
        (auto simp: job_step_def intro!: io)
  next
    case JDecode
    then have "job_step r b i th = check_frame th" by (simp add: job_step_def)
    then show ?thesis by (cases th rule: check_frame_cases) (simp_all add: io verd)
  qed (use c in \<open>simp_all add: job_step_defs Let_def io verd\<close>)
qed

lemma trace_ok_new: "trace_ok [] (new_thread jid tmo)"
  by (auto simp: trace_ok_def new_thread_def intro!: exI [of _ ASetTimeout])

lemma trace_ok_run: "trace_ok (fst (job_run obs (new_thread jid tmo))) (snd (job_run obs (new_thread jid tmo)))"
  by (rule job_run_invariant [of "\<lambda>_. trace_ok"])
    (auto intro: trace_ok_step simp: trace_ok_new)

text \<open>The bytes the thread takes from the port along a run.\<close>

definition step_bytes :: "bool \<Rightarrow> job_in \<Rightarrow> job_thread \<Rightarrow> byte list" where
  "step_bytes r i th =
     (case jt_pc th of JPoll rem \<Rightarrow> if r then got_bytes (ji_poll i) (ji_read i) else [] | _ \<Rightarrow> [])"

fun port_bytes :: "job_obs list \<Rightarrow> job_thread \<Rightarrow> byte list" where
  "port_bytes [] th = []"
| "port_bytes ((r, b, i) # obs) th =
     step_bytes r i th @ port_bytes obs (snd (job_step r b i th))"

lemma port_bytes_snoc:
  "port_bytes (obs @ [(r, b, i)]) th = port_bytes obs th @ step_bytes r i (snd (job_run obs th))"
  by (induction obs th rule: port_bytes.induct) (auto split: prod.splits)

text \<open>What the frame buffer holds at each program point, and what a reported payload is.\<close>

definition frame_in :: "byte list \<Rightarrow> byte list \<Rightarrow> bool" where
  "frame_in enc bytes \<longleftrightarrow> enc \<noteq> [] \<and> 0 \<notin> set enc \<and> length enc \<le> 4096 \<and>
     (\<exists>pre post. bytes = pre @ enc @ 0 # post)"

definition delivered_qr :: "string \<Rightarrow> byte list \<Rightarrow> bool" where
  "delivered_qr q bytes \<longleftrightarrow> starts_with ''QR:'' q \<and>
     (\<exists>enc dec. frame_in enc bytes \<and> cobs_decode enc = Some (True, dec) \<and> q = string_of_bytes dec)"

definition buffer_ok :: "byte list \<Rightarrow> job_thread \<Rightarrow> bool" where
  "buffer_ok bytes th =
     (case jt_pc th of
        JRead rem \<Rightarrow> 0 \<notin> set (jt_enc th) \<and> length (jt_enc th) \<le> 4096 \<and> (\<exists>pre. bytes = pre @ jt_enc th)
      | JPoll rem \<Rightarrow> 0 \<notin> set (jt_enc th) \<and> length (jt_enc th) \<le> 4096 \<and> (\<exists>pre. bytes = pre @ jt_enc th)
      | JGot got \<Rightarrow> got \<longrightarrow> frame_in (jt_enc th) bytes
      | JDecode \<Rightarrow> frame_in (jt_enc th) bytes
      | _ \<Rightarrow> True)"

lemma frame_in_more: "frame_in enc bytes \<Longrightarrow> frame_in enc (bytes @ xs)"
  unfolding frame_in_def by (metis append.assoc append_Cons)

lemma delivered_qr_more: "delivered_qr q bytes \<Longrightarrow> delivered_qr q (bytes @ xs)"
  by (auto simp: delivered_qr_def intro: frame_in_more)

lemma read_iter_flag: "read_iter rem enc False pr rr = Return False enc"
  by (simp add: read_iter_def)

lemma buffer_ok_step:
  assumes "buffer_ok bytes th"
  shows "buffer_ok (bytes @ step_bytes r i th) (snd (job_step r b i th))"
proof (cases "jt_pc th")
  case (JPoll rem)
  show ?thesis
  proof (cases r)
    case False
    then show ?thesis using JPoll by (simp add: job_step_def read_iter_flag buffer_ok_def)
  next
    case True
    obtain pre where p: "0 \<notin> set (jt_enc th)" "length (jt_enc th) \<le> 4096" "bytes = pre @ jt_enc th"
      using assms JPoll by (auto simp: buffer_ok_def)
    show ?thesis
    proof (cases "read_iter rem (jt_enc th) r (ji_poll i) (ji_read i)")
      case (Continue rem' enc)
      then show ?thesis using read_iter_Continue [OF Continue] p JPoll True
        by (simp add: job_step_def buffer_ok_def step_bytes_def)
    next
      case (Return got enc)
      have "frame_in enc (bytes @ step_bytes r i th)" if got
        using read_iter_Return_True [of rem "jt_enc th" r "ji_poll i" "ji_read i" enc] Return that p
          JPoll True by (force simp: frame_in_def step_bytes_def)
      then show ?thesis using Return JPoll by (simp add: job_step_def buffer_ok_def)
    qed
  qed
next
  case JDecode
  then have "job_step r b i th = check_frame th" by (simp add: job_step_def)
  then show ?thesis by (cases th rule: check_frame_cases) (simp_all add: buffer_ok_def)
qed (use assms in \<open>auto simp: job_step_defs buffer_ok_def step_bytes_def Let_def\<close>)

lemma job_step_done:
  assumes "ASetDone q \<in> set (fst (job_step r b i th))" and "buffer_ok bytes th"
  shows "delivered_qr q bytes"
proof (cases "jt_pc th")
  case (JPoll rem)
  then show ?thesis using assms(1) by (auto simp: job_step_def split: read_ctl.splits)
next
  case JDecode
  then have "job_step r b i th = check_frame th" by (simp add: job_step_def)
  then show ?thesis using assms JDecode
    by (cases th rule: check_frame_cases) (auto simp: buffer_ok_def delivered_qr_def)
qed (use assms in \<open>auto simp: job_step_defs Let_def split: if_splits\<close>)

lemma job_run_done:
  assumes "ASetDone q \<in> set (fst (job_run obs (new_thread jid tmo)))"
  shows "delivered_qr q (port_bytes obs (new_thread jid tmo))"
proof -
  let ?th = "new_thread jid tmo"
  have "buffer_ok (port_bytes obs ?th) (snd (job_run obs ?th)) \<and>
    (ASetDone q \<in> set (fst (job_run obs ?th)) \<longrightarrow> delivered_qr q (port_bytes obs ?th))"
  proof (induction obs rule: rev_induct)
    case Nil
    show ?case by (simp add: buffer_ok_def new_thread_def)
  next
    case (snoc x obs)
    obtain r b i where x: "x = (r, b, i)" by (cases x)
    then show ?case using snoc.IH
      by (auto simp: job_run_snoc port_bytes_snoc intro: buffer_ok_step delivered_qr_more job_step_done)
  qed
  then show ?thesis using assms by blast
qed

text \<open>Steps left once the flag is down, and steps left once the clock has passed the deadline.\<close>

fun stop_fuel :: "job_pc \<Rightarrow> nat" where
  "stop_fuel (JStart t) = 5" | "stop_fuel JLoop = 4" | "stop_fuel JClock = 7"
| "stop_fuel (JOpen m) = 6" | "stop_fuel (JRead m) = 5" | "stop_fuel (JPoll m) = 5"
| "stop_fuel (JGot g) = 4" | "stop_fuel JDecode = 5" | "stop_fuel JCancel = 3"
| "stop_fuel JFlag = 2" | "stop_fuel JSubmit = 1" | "stop_fuel JExited = 0"

fun late_fuel :: "job_pc \<Rightarrow> nat" where
  "late_fuel (JStart t) = 0" | "late_fuel JLoop = 4" | "late_fuel JClock = 3"
| "late_fuel (JOpen m) = 10 + 2 * nat m" | "late_fuel (JRead m) = 9 + 2 * nat m"
| "late_fuel (JPoll m) = (if m > 0 then 8 + 2 * nat m else 10)"
| "late_fuel (JGot g) = 6" | "late_fuel JDecode = 5" | "late_fuel JCancel = 3"
| "late_fuel JFlag = 2" | "late_fuel JSubmit = 1" | "late_fuel JExited = 0"

lemma stop_fuel_step:
  "stop_fuel (jt_pc (snd (job_step False b i th))) \<le> stop_fuel (jt_pc th) - 1"
proof (cases "jt_pc th")
  case JDecode
  then have "job_step False b i th = check_frame th" by (simp add: job_step_def)
  then show ?thesis using JDecode by (cases th rule: check_frame_cases) simp_all
qed (simp_all add: job_step_defs Let_def read_iter_flag)

lemma stop_fuel_run:
  "\<forall>(r, b, i) \<in> set obs. \<not> r \<Longrightarrow> stop_fuel (jt_pc (snd (job_run obs th))) \<le> stop_fuel (jt_pc th) - length obs"
proof (induction obs arbitrary: th)
  case Nil
  then show ?case by simp
next
  case (Cons x obs)
  obtain b i where x: "x = (False, b, i)" using Cons.prems by (cases x) auto
  have "stop_fuel (jt_pc (snd (job_run obs (snd (job_step False b i th)))))
      \<le> stop_fuel (jt_pc (snd (job_step False b i th))) - length obs"
    using Cons by simp
  then show ?case using stop_fuel_step [of b i th] unfolding x job_run_Cons by simp
qed

lemma stop_fuel_max: "stop_fuel pc \<le> 7" and stop_fuel_0: "stop_fuel pc = 0 \<longleftrightarrow> pc = JExited"
  by (cases pc; simp)+

definition started :: "job_thread \<Rightarrow> bool" where
  "started th \<longleftrightarrow> (\<forall>t. jt_pc th \<noteq> JStart t)"

lemma job_step_started:
  "started th \<Longrightarrow> started (snd (job_step r b i th)) \<and> jt_deadline (snd (job_step r b i th)) = jt_deadline th"
  by (cases "jt_pc th"; cases th rule: check_frame_cases)
    (simp_all add: started_def job_step_def retry_def Let_def split: read_ctl.split)

definition pass_interrupted :: "job_in \<Rightarrow> bool" where
  "pass_interrupted i \<longleftrightarrow> ji_poll i = PollFail EINTR \<or>
     ji_poll i = PollReady False True \<and> ji_read i = ReadFail EINTR"

lemma late_fuel_step:
  assumes "started th" and "jt_deadline th \<le> ji_now i" and "\<not> pass_interrupted i"
  shows "late_fuel (jt_pc (snd (job_step r b i th))) \<le> late_fuel (jt_pc th) - 1"
proof (cases "jt_pc th")
  case (JPoll m)
  then show ?thesis
  proof (cases "read_iter m (jt_enc th) r (ji_poll i) (ji_read i)")
    case (Continue m' enc)
    have "m' = m - wait_ms m"
      using read_iter_Continue(4) [OF Continue] assms(3) by (auto simp: pass_interrupted_def)
    then show ?thesis using JPoll Continue wait_ms_pos [of m] wait_ms_le(2) [of m]
      by (auto simp: job_step_def wait_ms_def)
  qed (simp add: job_step_def)
next
  case JDecode
  then have "job_step r b i th = check_frame th" by (simp add: job_step_def)
  then show ?thesis using JDecode by (cases th rule: check_frame_cases) simp_all
qed (use assms in \<open>auto simp: started_def job_step_defs Let_def\<close>)

lemma late_fuel_run:
  "started th \<Longrightarrow> \<forall>(r, b, i) \<in> set obs. jt_deadline th \<le> ji_now i \<and> \<not> pass_interrupted i \<Longrightarrow>
     late_fuel (jt_pc (snd (job_run obs th))) \<le> late_fuel (jt_pc th) - length obs \<and>
     started (snd (job_run obs th))"
proof (induction obs arbitrary: th)
  case Nil
  then show ?case by simp
next
  case (Cons x obs)
  obtain r b i where x: "x = (r, b, i)" by (cases x)
  let ?th = "snd (job_step r b i th)"
  have st: "started ?th" "jt_deadline ?th = jt_deadline th"
    using job_step_started [OF Cons.prems(1)] by simp_all
  have "late_fuel (jt_pc (snd (job_run obs ?th))) \<le> late_fuel (jt_pc ?th) - length obs \<and>
      started (snd (job_run obs ?th))"
    using Cons.prems x st by (intro Cons.IH) auto
  moreover have "late_fuel (jt_pc ?th) \<le> late_fuel (jt_pc th) - 1"
    using Cons.prems x by (intro late_fuel_step) auto
  ultimately show ?case unfolding x job_run_Cons by auto
qed

lemma late_fuel_0: "started th \<Longrightarrow> late_fuel (jt_pc th) = 0 \<longleftrightarrow> jt_pc th = JExited"
  by (cases "jt_pc th") (auto simp: started_def)

lemma job_step_timeout:
  "ASetTimeout \<in> set (fst (job_step r b i th)) \<Longrightarrow> jt_deadline th \<le> ji_now i"
  by (cases "jt_pc th"; cases th rule: check_frame_cases)
    (simp_all add: job_step_def retry_def Let_def split: read_ctl.splits if_splits)

lemma job_run_timeout:
  "started th \<Longrightarrow> ASetTimeout \<in> set (fst (job_run obs th)) \<Longrightarrow>
     \<exists>(r, b, i) \<in> set obs. jt_deadline th \<le> ji_now i"
proof (induction obs arbitrary: th)
  case Nil
  then show ?case by simp
next
  case (Cons x obs)
  obtain r b i where x: "x = (r, b, i)" by (cases x)
  then show ?case
    using Cons.prems Cons.IH [of "snd (job_step r b i th)"] job_step_timeout [of r b i th]
      job_step_started [of th r b i] unfolding x job_run_Cons by fastforce
qed

definition to_cancel :: "job_act list \<Rightarrow> job_thread \<Rightarrow> bool" where
  "to_cancel as th \<longleftrightarrow> ASetCancelled \<in> set as \<or> jt_pc th = JCancel"

lemma job_step_cancel:
  "jt_pc th \<noteq> JCancel \<Longrightarrow> to_cancel (fst (job_step r b i th)) (snd (job_step r b i th)) \<Longrightarrow> \<not> r"
  by (cases "jt_pc th"; cases th rule: check_frame_cases)
    (simp_all add: to_cancel_def job_step_def retry_def Let_def split: read_ctl.splits if_splits)

lemma to_cancel_step:
  "to_cancel (acts @ fst (job_step r b i th)) (snd (job_step r b i th)) \<Longrightarrow> to_cancel acts th \<or> \<not> r"
  using job_step_cancel [of th r b i] unfolding to_cancel_def by auto

lemma job_run_cancel:
  "to_cancel (fst (job_run obs (new_thread jid tmo))) (snd (job_run obs (new_thread jid tmo))) \<Longrightarrow>
     \<exists>(r, b, i) \<in> set obs. \<not> r"
proof -
  define I :: "job_obs list \<Rightarrow> job_act list \<Rightarrow> job_thread \<Rightarrow> bool" where
    "I = (\<lambda>obs as th. to_cancel as th \<longrightarrow> (\<exists>(r, b, i) \<in> set obs. \<not> r))"
  have "I (obs @ [(r, b, i)]) (acts @ fst (job_step r b i th)) (snd (job_step r b i th))"
    if "I obs acts th" for obs acts th r b i
    using that to_cancel_step [of acts r b i th] unfolding I_def by auto
  moreover have "I [] [] (new_thread jid tmo)"
    unfolding I_def to_cancel_def new_thread_def by simp
  ultimately have "I obs (fst (job_run obs (new_thread jid tmo))) (snd (job_run obs (new_thread jid tmo)))"
    by (rule job_run_invariant [of I, rotated])
  then show "to_cancel (fst (job_run obs (new_thread jid tmo))) (snd (job_run obs (new_thread jid tmo))) \<Longrightarrow>
     \<exists>(r, b, i) \<in> set obs. \<not> r" by (simp add: I_def)
qed

text \<open>Open descriptors: every \<^verbatim>\<open>open\<close> of a finished thread has its \<^verbatim>\<open>close\<close>.\<close>

fun holds_fd :: "job_pc \<Rightarrow> nat" where
  "holds_fd (JRead m) = 1" | "holds_fd (JPoll m) = 1" | "holds_fd _ = 0"

lemma fd_step:
  "count_list (fst (job_step r b i th)) AOpen + holds_fd (jt_pc th) =
   count_list (fst (job_step r b i th)) AClose + holds_fd (jt_pc (snd (job_step r b i th)))"
  by (cases "jt_pc th"; cases th rule: check_frame_cases)
    (simp_all add: job_step_def retry_def Let_def split: read_ctl.split)

lemma fd_run:
  "count_list (fst (job_run obs (new_thread jid tmo))) AOpen =
   count_list (fst (job_run obs (new_thread jid tmo))) AClose +
     holds_fd (jt_pc (snd (job_run obs (new_thread jid tmo))))"
proof (rule job_run_invariant [of "\<lambda>_ as th. count_list as AOpen = count_list as AClose + holds_fd (jt_pc th)"])
  fix acts and th :: job_thread and r b i
  assume "count_list acts AOpen = count_list acts AClose + holds_fd (jt_pc th)"
  then show "count_list (acts @ fst (job_step r b i th)) AOpen =
      count_list (acts @ fst (job_step r b i th)) AClose + holds_fd (jt_pc (snd (job_step r b i th)))"
    using fd_step [of r b i th] by simp
qed (simp add: new_thread_def)

text \<open>The two steps of each pass of the read loop, driven by the observations of the reader.\<close>

fun read_steps :: "int \<Rightarrow> job_in \<Rightarrow> io_obs list \<Rightarrow> job_obs list" where
  "read_steps b i [] = []"
| "read_steps b i (ob # obs) =
     (ob_head ob, b, i) # (ob_flag ob, b, i\<lparr>ji_poll := ob_poll ob, ji_read := ob_read ob\<rparr>)
       # read_steps b i obs"

lemma got_bytes_if_True:
  "read_iter r f fl pr rr = Return True f' \<Longrightarrow> length f \<le> 4096 \<Longrightarrow> 0 \<in> set (got_bytes pr rr)"
  using read_iter_Return_True [of r f fl pr rr f'] by auto

lemma read_steps_run:
  "read_loop rem (jt_enc th) (os @ [ob]) = Some (True, f') \<Longrightarrow> jt_pc th = JRead rem \<Longrightarrow>
     length (jt_enc th) \<le> 4096 \<Longrightarrow> 0 \<notin> set (concat (map delivered os)) \<Longrightarrow>
     job_run (read_steps b i (os @ [ob])) th = ([AClose], th\<lparr>jt_enc := f', jt_pc := JGot True\<rparr>)"
proof (induction os arbitrary: rem th)
  case Nil
  have r: "0 < rem" and h: "ob_head ob" using Nil.prems(1)
    by (cases "0 < rem"; auto simp: read_loop_Cons read_loop_expired split: if_splits)+
  have "read_iter rem (jt_enc th) (ob_flag ob) (ob_poll ob) (ob_read ob) = Return True f'"
    using Nil.prems(1) r h read_loop_Nil read_loop_expired
    by (auto simp: read_loop_Cons split: read_ctl.splits) (metis linorder_not_le option.distinct(1) option.inject prod.inject)
  then show ?case using r h Nil.prems(2) by (simp add: job_step_def)
next
  case (Cons o1 os)
  have r: "0 < rem" and h: "ob_head o1" using Cons.prems(1)
    by (cases "0 < rem"; auto simp: read_loop_Cons read_loop_expired split: if_splits)+
  show ?case
  proof (cases "read_iter rem (jt_enc th) (ob_flag o1) (ob_poll o1) (ob_read o1)")
    case (Return got g)
    then have "got" using Cons.prems(1) r h by (simp add: read_loop_Cons)
    then show ?thesis using got_bytes_if_True Return Cons.prems(3,4) by (auto simp: delivered_def)
  next
    case (Continue rem' g)
    let ?th = "th\<lparr>jt_enc := g, jt_pc := JRead rem'\<rparr>"
    have "job_run (read_steps b i (os @ [ob])) ?th = ([AClose], ?th\<lparr>jt_enc := f', jt_pc := JGot True\<rparr>)"
      using Cons.prems r h Continue read_iter_Continue(3) [OF Continue]
      by (intro Cons.IH) (simp_all add: read_loop_Cons)
    then show ?thesis using r h Cons.prems(2) Continue by (simp add: job_step_def)
  qed
qed

section \<open>Properties of the job thread\<close>

text \<open>
  C17: every job reports exactly once, in a fixed order. Whatever the thread observes, its
  actions so far are opens, configurations, closes and sleeps followed by a beginning of the
  sequence: one terminal result (TIMEOUT, CANCELLED or DONE), the running flag cleared, one
  \<^verbatim>\<open>submit_finish_job\<close>; the whole sequence is there exactly when the thread has returned.
\<close>

theorem job_reports_once:
  "\<exists>io v n. list_all io_act io \<and> verdict v \<and> n \<le> 3 \<and>
     fst (job_run obs (new_thread jid tmo)) = io @ take n [v, AClearFlag, ASubmitFinish] \<and>
     (n = 3 \<longleftrightarrow> jt_pc (snd (job_run obs (new_thread jid tmo))) = JExited)"
proof -
  let ?pc = "jt_pc (snd (job_run obs (new_thread jid tmo)))"
  have "closing ?pc \<le> 3 \<and> (closing ?pc = 3 \<longleftrightarrow> ?pc = JExited)" by (cases ?pc) simp_all
  then show ?thesis using trace_ok_run [of obs jid tmo] unfolding trace_ok_def by blast
qed

text \<open>
  C18: a job is reported DONE only with a payload that came in over the serial port: it
  starts with \<^verbatim>\<open>QR:\<close>, and it is the COBS decoding of a non-empty frame of at most 4096 bytes,
  free of delimiters, that the thread read from the port immediately before a delimiter.
\<close>

theorem job_done_was_delivered:
  assumes "ASetDone q \<in> set (fst (job_run obs (new_thread jid tmo)))"
  shows "starts_with ''QR:'' q \<and>
    (\<exists>pre enc post dec. port_bytes obs (new_thread jid tmo) = pre @ enc @ 0 # post \<and>
       enc \<noteq> [] \<and> 0 \<notin> set enc \<and> length enc \<le> 4096 \<and>
       cobs_decode enc = Some (True, dec) \<and> q = string_of_bytes dec)"
  using job_run_done [OF assms] unfolding delivered_qr_def frame_in_def by blast

text \<open>
  A job is reported TIMEOUT only if the clock was seen at or behind the deadline, the
  start plus the timeout, and CANCELLED only if the running flag was seen cleared.
\<close>

lemma job_verdict_justified:
  "(ASetTimeout \<in> set (fst (job_run ((r0, b0, i0) # obs) (new_thread jid tmo))) \<longrightarrow>
      (\<exists>(r, b, i) \<in> set obs. ji_now i0 + tmo * 1000000 \<le> ji_now i)) \<and>
   (ASetCancelled \<in> set (fst (job_run ((r0, b0, i0) # obs) (new_thread jid tmo))) \<longrightarrow>
      (\<exists>(r, b, i) \<in> set ((r0, b0, i0) # obs). \<not> r))"
proof
  let ?th = "snd (job_step r0 b0 i0 (new_thread jid tmo))"
  have s: "started ?th" "jt_deadline ?th = ji_now i0 + tmo * 1000000"
    and a: "fst (job_step r0 b0 i0 (new_thread jid tmo)) = []"
    by (simp_all add: started_def job_step_def new_thread_def)
  show "ASetTimeout \<in> set (fst (job_run ((r0, b0, i0) # obs) (new_thread jid tmo))) \<longrightarrow>
      (\<exists>(r, b, i) \<in> set obs. ji_now i0 + tmo * 1000000 \<le> ji_now i)"
    using job_run_timeout [OF s(1), of obs] unfolding job_run_Cons a s(2) by simp
  show "ASetCancelled \<in> set (fst (job_run ((r0, b0, i0) # obs) (new_thread jid tmo))) \<longrightarrow>
      (\<exists>(r, b, i) \<in> set ((r0, b0, i0) # obs). \<not> r)"
    using job_run_cancel [of "(r0, b0, i0) # obs" jid tmo] by (auto simp: to_cancel_def)
qed

text \<open>
  A stop request is honoured promptly: from every program point, once the thread reads
  the running flag as cleared it returns within seven of its own steps, whatever the port,
  the clock and the system calls answer.
\<close>

lemma job_stops_within_seven_steps:
  assumes "\<forall>(r, b, i) \<in> set obs. \<not> r" and "7 \<le> length obs"
  shows "jt_pc (snd (job_run obs th)) = JExited"
  using stop_fuel_run [OF assms(1), of th] stop_fuel_max [of "jt_pc th"] assms(2)
  by (simp add: stop_fuel_0 flip: stop_fuel_0)

text \<open>
  A job ends: once the clock has passed the deadline, and as long as no signal interrupts
  the system calls, the thread returns within ten steps and two for each millisecond of the
  budget the current read has left, whatever the flag and the port do.
\<close>

lemma job_ends_after_deadline:
  assumes "\<forall>(r, b, i) \<in> set obs. jt_deadline th \<le> ji_now i \<and> \<not> pass_interrupted i"
    and "started th" and "late_fuel (jt_pc th) \<le> length obs"
  shows "jt_pc (snd (job_run obs th)) = JExited"
  using late_fuel_run [OF assms(2,1)] assms(3) late_fuel_0 by auto

text \<open>
  Descriptors do not leak: on every run the opens exceed the closes by one exactly while
  the thread is in the read loop, and a thread that has returned has closed all it opened.
\<close>

lemma job_closes_what_it_opens:
  "count_list (fst (job_run obs (new_thread jid tmo))) AOpen =
   count_list (fst (job_run obs (new_thread jid tmo))) AClose +
     (case jt_pc (snd (job_run obs (new_thread jid tmo))) of
        JRead rem \<Rightarrow> 1 | JPoll rem \<Rightarrow> 1 | _ \<Rightarrow> 0)"
  unfolding fd_run by (simp split: job_pc.split)

section \<open>A concrete run\<close>

text \<open>A thread that reads the payload \<^verbatim>\<open>QR:1\<close> in two pieces; the inputs of the witnesses.\<close>

definition quiet_in :: "int \<Rightarrow> job_in" where
  "quiet_in now = \<lparr>ji_now = now, ji_env = (\<lambda>_. None), ji_open = True, ji_poll = PollTimeout,
     ji_read = ReadBytes []\<rparr>"

definition ok_obs :: "byte list \<Rightarrow> io_obs" where
  "ok_obs bs = \<lparr>ob_head = True, ob_poll = PollReady False True, ob_flag = True, ob_read = ReadBytes bs\<rparr>"

definition qr_run :: "job_obs list" where
  "qr_run = (True, 9600, quiet_in 0) # replicate 3 (True, 9600, quiet_in 5) @
     read_steps 9600 (quiet_in 5) ([ok_obs [5, 0x51]] @ [ok_obs [0x52, 0x3A, 0x31, 0]]) @
     replicate 4 (True, 9600, quiet_in 5)"

lemma qr_run_acts:
  "fst (job_run qr_run (new_thread ''0badcafe'' 100)) =
     [AOpen, AConfigure 9600, AClose, ASetDone ''QR:1'', AClearFlag, ASubmitFinish]"
  by code_simp

theorem job_done_was_delivered_witness:
  "starts_with ''QR:'' ''QR:1'' \<and>
    (\<exists>pre enc post dec. port_bytes qr_run (new_thread ''0badcafe'' 100) = pre @ enc @ 0 # post \<and>
       enc \<noteq> [] \<and> 0 \<notin> set enc \<and> length enc \<le> 4096 \<and>
       cobs_decode enc = Some (True, dec) \<and> ''QR:1'' = string_of_bytes dec)"
  by (rule job_done_was_delivered) (simp add: qr_run_acts)

end
