(* ===== verification/Job_Delivery.thy ===== *)
theory Job_Delivery
  imports Job_Runner
begin

text \<open>
  From the wire to the store: what a job does with the bytes of the port over several rounds of
  its loop. A round that ends without a code (the port does not open, the reader gives up, the
  frame is damaged or holds something else) leaves the job where it was, and the next frame with
  a code ends it.
\<close>

section \<open>One frame\<close>

lemma job_epilogue:
  assumes "jt_pc th = JGot True" and "cobs_decode (jt_enc th) = Some (True, dec)"
    and "starts_with ''QR:'' (string_of_bytes dec)"
  shows "job_run (replicate 4 (True, b, i)) th =
    ([ASetDone (string_of_bytes dec), AClearFlag, ASubmitFinish], th\<lparr>jt_pc := JExited\<rparr>)"
  using assms by (simp add: job_step_def check_frame_def eval_nat_numeral)

lemma scan_frame_read:
  assumes "cobs_encode p (Some buf) cap = Some (n, Some buf')" and "cap \<le> length buf"
    and "0 < n" and "n \<le> 4096" and "\<forall>x \<in> set obs. benign x"
    and "concat (map delivered obs) = take n buf' @ 0 # rest"
    and "50 * int (passes obs) < rem + 50"
  shows "read_loop rem [] obs = Some (True, take n buf') \<and> cobs_decode (take n buf') = Some (True, p)"
proof -
  obtain m b' where "cobs_encode p (Some buf) cap = Some (m, Some b')"
    and "m = 0 \<or> m \<le> cap \<and> take m b' = cobs_enc [] p"
    by (rule cobs_encode_cases [OF assms(2), where p = p])
  then have enc: "take n buf' = cobs_enc [] p" using assms(1,3) by simp
  have "length (take n buf') \<le> 4096" using assms(4) by simp
  then show ?thesis
    using assms(5-7) cobs_enc_no_zero [of "[]" p] cobs_enc_nonempty [of "[]" p] unfolding enc
    by (intro conjI read_loop_complete [where f = "[]"]) (simp_all add: cobs_decode_enc)
qed

section \<open>Rounds without a code\<close>

lemma read_steps_sim:
  "read_loop r (jt_enc th) os = None \<Longrightarrow> jt_pc th = JRead r \<Longrightarrow>
     \<exists>r' f'. job_run (read_steps b i os) th = ([], th\<lparr>jt_enc := f', jt_pc := JRead r'\<rparr>) \<and>
       0 < r' \<and> r - 50 * int (passes os) \<le> r' \<and>
       (\<forall>obs. read_loop r (jt_enc th) (os @ obs) = read_loop r' f' obs)"
proof (induction os arbitrary: r th)
  case Nil
  then have "0 < r" by (cases "0 < r") (simp_all add: read_loop_expired)
  then show ?case using Nil.prems(2) by (intro exI [of _ r] exI [of _ "jt_enc th"]) simp
next
  case (Cons ob os)
  have r: "0 < r" using Cons.prems(1) by (cases "0 < r") (simp_all add: read_loop_expired)
  have h: "ob_head ob" using Cons.prems(1) r by (simp add: read_loop_Cons split: if_splits)
  obtain r1 f1 where it: "read_iter r (jt_enc th) (ob_flag ob) (ob_poll ob) (ob_read ob) = Continue r1 f1"
    using Cons.prems(1) r h
    by (cases "read_iter r (jt_enc th) (ob_flag ob) (ob_poll ob) (ob_read ob)") (simp_all add: read_loop_Cons)
  let ?th = "th\<lparr>jt_enc := f1, jt_pc := JRead r1\<rparr>"
  have "read_loop r1 (jt_enc ?th) os = None" "jt_pc ?th = JRead r1"
    using Cons.prems(1) r h it by (simp_all add: read_loop_Cons)
  from Cons.IH [OF this] obtain r' f' where
    run: "job_run (read_steps b i os) ?th = ([], ?th\<lparr>jt_enc := f', jt_pc := JRead r'\<rparr>)"
    and r': "0 < r'" "r1 - 50 * int (passes os) \<le> r'"
    and eq: "\<forall>obs. read_loop r1 f1 (os @ obs) = read_loop r' f' obs" by auto
  have "r - 50 * int (passes [ob]) \<le> r1"
    using read_iter_Continue(4) [OF it] wait_ms_le(1) [of r] by (auto simp: interrupted_def split: if_splits)
  then have "r - 50 * int (passes (ob # os)) \<le> r'" using r'(2) by (simp split: if_splits)
  moreover have "job_run (read_steps b i (ob # os)) th = ([], th\<lparr>jt_enc := f', jt_pc := JRead r'\<rparr>)"
    using run Cons.prems(2) r h it by (simp add: job_step_def)
  moreover have "read_loop r (jt_enc th) ((ob # os) @ obs) = read_loop r' f' obs" for obs
    using eq r h it by (simp add: read_loop_Cons)
  ultimately show ?case using r'(1) by blast
qed

lemma read_steps_return:
  assumes "jt_pc th = JRead r" and "read_loop r (jt_enc th) os = None" and "ob_head ob"
    and "read_loop r (jt_enc th) (os @ [ob]) = Some (got, f)"
    and "50 * int (passes (os @ [ob])) < r"
  shows "job_run (read_steps b i (os @ [ob])) th = ([AClose], th\<lparr>jt_enc := f, jt_pc := JGot got\<rparr>)"
proof -
  obtain r' f' where run: "job_run (read_steps b i os) th = ([], th\<lparr>jt_enc := f', jt_pc := JRead r'\<rparr>)"
    and r': "0 < r'" "r - 50 * int (passes os) \<le> r'"
    and eq: "\<forall>obs. read_loop r (jt_enc th) (os @ obs) = read_loop r' f' obs"
    using read_steps_sim [OF assms(2,1)] by blast
  have e: "read_loop r' f' [ob] = Some (got, f)" using eq assms(4) by simp
  have it: "read_iter r' f' (ob_flag ob) (ob_poll ob) (ob_read ob) = Return got f"
  proof (cases "read_iter r' f' (ob_flag ob) (ob_poll ob) (ob_read ob)")
    case (Continue r2 f2)
    have "0 < r2" using read_iter_Continue(4) [OF Continue] wait_ms_le(1) [of r'] r' assms(5)
      by (auto simp: interrupted_def split: if_splits)
    then show ?thesis using e r'(1) assms(3) Continue by (simp add: read_loop_Cons read_loop_Nil)
  qed (use e r'(1) assms(3) in \<open>simp add: read_loop_Cons\<close>)
  have "job_run (read_steps b i [ob]) (th\<lparr>jt_enc := f', jt_pc := JRead r'\<rparr>) =
      ([AClose], th\<lparr>jt_enc := f, jt_pc := JGot got\<rparr>)"
    using r'(1) assms(3) it by (simp add: job_step_def)
  moreover have "read_steps b i (os @ [ob]) = read_steps b i os @ read_steps b i [ob]"
    by (induction os) simp_all
  ultimately show ?thesis using run by (simp add: job_run_append del: read_steps.simps)
qed

text \<open>
  A round: the port does not open, or it is read in the passes \<open>os @ [ob]\<close>, the last of which ends
  the reader. The time a round may use is what is left until the deadline.
\<close>

datatype job_round = NoPort job_in | Reads job_in "io_obs list" io_obs

definition time_left :: "int \<Rightarrow> job_in \<Rightarrow> int" where
  "time_left deadline i = int32_cast ((deadline - ji_now i) div 1000000)"

definition qr_frame :: "byte list \<Rightarrow> bool" where
  "qr_frame enc =
     (case cobs_decode enc of
        Some (True, dec) \<Rightarrow> starts_with ''QR:'' (string_of_bytes dec) | _ \<Rightarrow> False)"

fun fruitless :: "int \<Rightarrow> job_round \<Rightarrow> bool" where
  "fruitless deadline (NoPort i) \<longleftrightarrow> ji_now i < deadline \<and> \<not> ji_open i"
| "fruitless deadline (Reads i os ob) \<longleftrightarrow> ji_now i < deadline \<and> ji_open i \<and> ob_head ob \<and> ob_flag ob \<and>
     50 * int (passes (os @ [ob])) < time_left deadline i \<and>
     read_loop (time_left deadline i) [] os = None \<and>
     (case read_loop (time_left deadline i) [] (os @ [ob]) of
        None \<Rightarrow> False | Some (got, enc) \<Rightarrow> got \<longrightarrow> \<not> qr_frame enc)"

definition reader_got :: "int \<Rightarrow> io_obs list \<Rightarrow> bool" where
  "reader_got rem obs = (case read_loop rem [] obs of Some (got, enc) \<Rightarrow> got | None \<Rightarrow> False)"

fun round_steps :: "int \<Rightarrow> int \<Rightarrow> job_round \<Rightarrow> job_obs list" where
  "round_steps deadline b (NoPort i) = replicate 3 (True, b, i)"
| "round_steps deadline b (Reads i os ob) =
     replicate 3 (True, b, i) @ read_steps b i (os @ [ob]) @
     replicate (if reader_got (time_left deadline i) (os @ [ob]) then 2 else 1) (True, b, i)"

lemma check_frame_again:
  "\<not> qr_frame (jt_enc th) \<Longrightarrow> check_frame th = ([ASleep 20], th\<lparr>jt_pc := JLoop\<rparr>)"
  by (cases th rule: check_frame_cases) (simp_all add: qr_frame_def)

lemma open_steps:
  assumes "jt_pc th = JLoop" and "ji_now i < jt_deadline th" and "ji_open i"
  shows "job_run (replicate 3 (True, b, i)) th = ([AOpen, AConfigure b],
    th\<lparr>jt_enc := [], jt_pc := JRead (time_left (jt_deadline th) i)\<rparr>)"
  using assms by (simp add: job_step_def eval_nat_numeral time_left_def)

lemma fruitless_round:
  assumes "fruitless (jt_deadline th) r" and "jt_pc th = JLoop"
  shows "\<exists>acts enc. job_run (round_steps (jt_deadline th) b r) th = (acts, th\<lparr>jt_enc := enc\<rparr>) \<and>
    list_all io_act acts"
proof (cases r)
  case (NoPort i)
  then show ?thesis using assms
    by (cases th) (auto simp: job_step_def eval_nat_numeral Let_def)
next
  case (Reads i os ob)
  let ?rem = "time_left (jt_deadline th) i"
  let ?th = "th\<lparr>jt_enc := [], jt_pc := JRead ?rem\<rparr>"
  obtain got enc where g: "read_loop ?rem [] (os @ [ob]) = Some (got, enc)"
    and q: "got \<longrightarrow> \<not> qr_frame enc"
    using assms(1) Reads by (auto split: option.splits)
  have op: "job_run (replicate 3 (True, b, i)) th = ([AOpen, AConfigure b], ?th)"
    using assms Reads by (intro open_steps) simp_all
  have rd: "job_run (read_steps b i (os @ [ob])) ?th = ([AClose], ?th\<lparr>jt_enc := enc, jt_pc := JGot got\<rparr>)"
    by (rule read_steps_return [where r = ?rem]) (use assms(1) Reads g in simp_all)
  have again: "job_run (replicate (if got then 2 else 1) (True, b, i)) (?th\<lparr>jt_enc := enc, jt_pc := JGot got\<rparr>)
      = ([ASleep 20], ?th\<lparr>jt_enc := enc, jt_pc := JLoop\<rparr>)"
    using q check_frame_again [of "?th\<lparr>jt_enc := enc, jt_pc := JDecode\<rparr>"]
    by (cases got) (simp_all add: job_step_def retry_def eval_nat_numeral)
  have th: "?th\<lparr>jt_enc := enc, jt_pc := JLoop\<rparr> = th\<lparr>jt_enc := enc\<rparr>" using assms(2) by (cases th) simp
  have gt: "reader_got ?rem (os @ [ob]) = got" using g by (simp add: reader_got_def)
  have "job_run (round_steps (jt_deadline th) b r) th =
      ([AOpen, AConfigure b, AClose, ASleep 20], th\<lparr>jt_enc := enc\<rparr>)"
    unfolding Reads
    by (simp only: round_steps.simps job_run_append op rd gt again th fst_conv snd_conv append_Cons append_Nil)
  then show ?thesis by auto
qed

lemma fruitless_rounds:
  "list_all (fruitless (jt_deadline th)) rs \<Longrightarrow> jt_pc th = JLoop \<Longrightarrow>
     \<exists>acts enc. job_run (concat (map (round_steps (jt_deadline th) b) rs)) th = (acts, th\<lparr>jt_enc := enc\<rparr>) \<and>
       list_all io_act acts"
proof (induction rs arbitrary: th)
  case Nil
  then show ?case by (intro exI [of _ "[]"] exI [of _ "jt_enc th"]) simp
next
  case (Cons r rs)
  obtain as1 e1 where 1: "job_run (round_steps (jt_deadline th) b r) th = (as1, th\<lparr>jt_enc := e1\<rparr>)"
    "list_all io_act as1" using fruitless_round [of th r b] Cons.prems by auto
  obtain as2 e2 where 2: "job_run (concat (map (round_steps (jt_deadline th) b) rs)) (th\<lparr>jt_enc := e1\<rparr>) =
      (as2, th\<lparr>jt_enc := e2\<rparr>)" "list_all io_act as2"
    using Cons.IH [of "th\<lparr>jt_enc := e1\<rparr>"] Cons.prems by auto
  show ?case using 1 2 by (intro exI [of _ "as1 @ as2"] exI [of _ e2]) (simp add: job_run_append)
qed

text \<open>The steps of a job: its prologue, fruitless rounds, and a round that brings a frame.\<close>

definition scan_steps ::
  "bool \<Rightarrow> int \<Rightarrow> job_in \<Rightarrow> int \<Rightarrow> job_round list \<Rightarrow> job_in \<Rightarrow> io_obs list \<Rightarrow> job_obs list" where
  "scan_steps r0 b i0 tmo rs i1 obs =
     (r0, b, i0) # concat (map (round_steps (ji_now i0 + tmo * 1000000) b) rs) @
       replicate 3 (True, b, i1) @ read_steps b i1 obs @ replicate 4 (True, b, i1)"

lemma job_receives:
  assumes "list_all (fruitless (ji_now i0 + tmo * 1000000)) rs"
    and "ji_now i1 < ji_now i0 + tmo * 1000000" and "ji_open i1"
    and "read_loop (time_left (ji_now i0 + tmo * 1000000) i1) [] (os @ [ob]) = Some (True, enc)"
    and "0 \<notin> set (concat (map delivered os))"
    and "cobs_decode enc = Some (True, dec)" and "starts_with ''QR:'' (string_of_bytes dec)"
  shows "\<exists>io th. list_all io_act io \<and> jt_pc th = JExited \<and>
    job_run (scan_steps r0 b i0 tmo rs i1 (os @ [ob])) (new_thread jid tmo) =
      (io @ [AOpen, AConfigure b, AClose, ASetDone (string_of_bytes dec), AClearFlag, ASubmitFinish], th)"
proof -
  let ?d = "ji_now i0 + tmo * 1000000"
  define th0 where "th0 = snd (job_step r0 b i0 (new_thread jid tmo))"
  have st: "job_run [(r0, b, i0)] (new_thread jid tmo) = ([], th0)"
    and th0: "jt_pc th0 = JLoop" "jt_deadline th0 = ?d"
    by (simp_all add: th0_def job_step_def new_thread_def)
  obtain io e where rs: "job_run (concat (map (round_steps ?d b) rs)) th0 = (io, th0\<lparr>jt_enc := e\<rparr>)"
    "list_all io_act io" using fruitless_rounds [of th0 rs b] assms(1) th0 by auto
  let ?th = "th0\<lparr>jt_enc := [], jt_pc := JRead (time_left ?d i1)\<rparr>"
  have op: "job_run (replicate 3 (True, b, i1)) (th0\<lparr>jt_enc := e\<rparr>) = ([AOpen, AConfigure b], ?th)"
    using open_steps [of "th0\<lparr>jt_enc := e\<rparr>" i1 b] assms(2,3) th0 by simp
  have rd: "job_run (read_steps b i1 (os @ [ob])) ?th = ([AClose], ?th\<lparr>jt_enc := enc, jt_pc := JGot True\<rparr>)"
    by (rule read_steps_run [where rem = "time_left ?d i1"]) (use assms(4,5) in simp_all)
  have ep: "job_run (replicate 4 (True, b, i1)) (?th\<lparr>jt_enc := enc, jt_pc := JGot True\<rparr>) =
      ([ASetDone (string_of_bytes dec), AClearFlag, ASubmitFinish], ?th\<lparr>jt_enc := enc, jt_pc := JExited\<rparr>)"
    using assms(6,7) by (subst job_epilogue [where dec = dec]) simp_all
  have eq: "scan_steps r0 b i0 tmo rs i1 (os @ [ob]) = [(r0, b, i0)] @ concat (map (round_steps ?d b) rs) @
      replicate 3 (True, b, i1) @ read_steps b i1 (os @ [ob]) @ replicate 4 (True, b, i1)"
    by (simp only: scan_steps_def append_Cons append_Nil)
  have "job_run (scan_steps r0 b i0 tmo rs i1 (os @ [ob])) (new_thread jid tmo) =
      (io @ [AOpen, AConfigure b, AClose, ASetDone (string_of_bytes dec), AClearFlag, ASubmitFinish],
       ?th\<lparr>jt_enc := enc, jt_pc := JExited\<rparr>)"
    unfolding eq job_run_append st rs(1) op rd ep fst_conv snd_conv by simp
  then show ?thesis using rs(2) by auto
qed

section \<open>Properties\<close>

text \<open>
  C10: a scanned code gets through. Whatever went wrong before (any number of rounds in which the
  port did not open, the reader gave up or was cut off, or a frame was damaged or held something
  else), take any payload that starts with \<^verbatim>\<open>QR:\<close>, encoded by the emulator's encoder into at most
  4096 bytes and followed by the delimiter, and any way in which error-free passes split these
  bytes over reads, the last one bringing the delimiter, within the time that is left when the
  port opens. Then the job opens and configures the port, closes it, reports DONE with exactly
  that payload, clears the flag, submits the end of the job and returns; before that it has
  reported nothing.
\<close>

theorem job_delivers_qr:
  assumes "cobs_encode p (Some buf) cap = Some (n, Some buf')" and "cap \<le> length buf"
    and "0 < n" and "n \<le> 4096" and "starts_with ''QR:'' (string_of_bytes p)"
    and "\<forall>x \<in> set (os @ [ob]). benign x" and "0 \<notin> set (concat (map delivered os))"
    and "concat (map delivered (os @ [ob])) = take n buf' @ 0 # rest"
    and "list_all (fruitless (ji_now i0 + tmo * 1000000)) rs"
    and "ji_now i1 < ji_now i0 + tmo * 1000000" and "ji_open i1"
    and "50 * int (passes (os @ [ob])) < time_left (ji_now i0 + tmo * 1000000) i1 + 50"
  shows "\<exists>io th. list_all io_act io \<and> jt_pc th = JExited \<and>
    job_run (scan_steps r0 b i0 tmo rs i1 (os @ [ob])) (new_thread jid tmo) =
      (io @ [AOpen, AConfigure b, AClose, ASetDone (string_of_bytes p), AClearFlag, ASubmitFinish], th)"
proof -
  have "read_loop (time_left (ji_now i0 + tmo * 1000000) i1) [] (os @ [ob]) = Some (True, take n buf') \<and>
      cobs_decode (take n buf') = Some (True, p)"
    using assms by (intro scan_frame_read) simp_all
  then show ?thesis using job_receives [OF assms(9-11) _ assms(7) _ assms(5)] by blast
qed

text \<open>Two rounds that fail: the port does not open, then a damaged frame.\<close>

definition bad_rounds :: "job_round list" where
  "bad_rounds = [NoPort (quiet_in 1\<lparr>ji_open := False\<rparr>), Reads (quiet_in 2) [ok_obs [9]] (ok_obs [0x51, 0])]"

lemma bad_rounds_fruitless: "list_all (fruitless (ji_now (quiet_in 0) + 1000 * 1000000)) bad_rounds"
  unfolding bad_rounds_def by code_simp

theorem job_delivers_qr_witness:
  "\<exists>io th. list_all io_act io \<and> jt_pc th = JExited \<and>
    job_run (scan_steps True 9600 (quiet_in 0) 1000 bad_rounds (quiet_in 5)
        ([ok_obs [5, 0x51]] @ [ok_obs [0x52, 0x3A, 0x31, 0]])) (new_thread ''0badcafe'' 1000) =
      (io @ [AOpen, AConfigure 9600, AClose, ASetDone (string_of_bytes [0x51, 0x52, 0x3A, 0x31]),
       AClearFlag, ASubmitFinish], th)"
proof (rule job_delivers_qr [where buf = "replicate 8 0" and cap = 8 and n = 5
      and buf' = "[5, 0x51, 0x52, 0x3A, 0x31, 0, 0, 0]" and rest = "[]"])
  show "cobs_encode [0x51, 0x52, 0x3A, 0x31] (Some (replicate 8 0)) 8 =
      Some (5, Some [5, 0x51, 0x52, 0x3A, 0x31, 0, 0, 0])" by code_simp
  show "starts_with ''QR:'' (string_of_bytes [0x51, 0x52, 0x3A, 0x31])" by code_simp
  show "list_all (fruitless (ji_now (quiet_in 0) + 1000 * 1000000)) bad_rounds"
    by (rule bad_rounds_fruitless)
qed (simp_all add: ok_obs_def benign_def delivered_def got_bytes_def interrupted_def quiet_in_def time_left_def)

end
