(* ===== verification/Gateway_System.thy ===== *)
theory Gateway_System
  imports Job_Runner
begin

text \<open>
  The objects \<^verbatim>\<open>main\<close> builds, run together. \<open>gw_step\<close> is the step relation of the process:
  the request threads submit calls, clear the running flag, join the job thread, launch a
  job, change the baud rate; the dispatcher's worker and the job thread take their steps; in any
  order. The invariant \<open>gw_inv\<close> ties the store to the job thread in every reachable state.
\<close>

section \<open>The step relation\<close>

definition new_Gateway :: "string \<Rightarrow> Gateway" where
  "new_Gateway serial_port =
     \<lparr>gw_jobs = new_JobRunner serial_port, gw_store = new_JobStore,
      gw_disp = new_Dispatcher new_Core\<rparr>"

datatype gw_event =
    GSubmit core_op | GDispatcherStop | GWorker | GJob job_in | GClear | GJoin
  | GLaunch job_id int | GBaud int

inductive gw_step :: "(nat \<Rightarrow> bool) \<Rightarrow> Gateway \<Rightarrow> gw_event \<Rightarrow> Gateway \<Rightarrow> bool"
  for thr :: "nat \<Rightarrow> bool" where
  Submit: "gw_step thr g (GSubmit x) (g\<lparr>gw_disp := snd (submit x (gw_disp g))\<rparr>)"
| DispatcherStop: "gw_step thr g GDispatcherStop (g\<lparr>gw_disp := dispatcher_stop (gw_disp g)\<rparr>)"
| Worker: "gw_step thr g GWorker (g\<lparr>gw_disp := worker_step thr (gw_disp g)\<rparr>)"
| Job: "runner_step i g = Inr g' \<Longrightarrow> gw_step thr g (GJob i) g'"
| Clear: "gw_step thr g GClear (clear_running g)"
| Join: "join g = Some g' \<Longrightarrow> gw_step thr g GJoin g'"
| Launch: "launch jid tmo g = Some g' \<Longrightarrow> gw_step thr g (GLaunch jid tmo) g'"
| Baud: "gw_step thr g (GBaud b) (g\<lparr>gw_jobs := set_baudrate b (gw_jobs g)\<rparr>)"

inductive_cases gw_step_elims:
  "gw_step thr g (GSubmit x) g'" "gw_step thr g GDispatcherStop g'" "gw_step thr g GWorker g'"
  "gw_step thr g (GJob i) g'" "gw_step thr g GClear g'" "gw_step thr g GJoin g'"
  "gw_step thr g (GLaunch jid tmo) g'" "gw_step thr g (GBaud b) g'"

inductive gw_steps :: "(nat \<Rightarrow> bool) \<Rightarrow> Gateway \<Rightarrow> gw_event list \<Rightarrow> Gateway \<Rightarrow> bool"
  for thr :: "nat \<Rightarrow> bool" where
  no_step: "gw_steps thr g [] g"
| one_more: "gw_steps thr g es g1 \<Longrightarrow> gw_step thr g1 e g2 \<Longrightarrow> gw_steps thr g (es @ [e]) g2"

section \<open>The invariant\<close>

text \<open>A job that is PENDING is the one the job thread works on, and has not reported.\<close>

definition working_on :: "Gateway \<Rightarrow> job_id \<Rightarrow> bool" where
  "working_on g jid =
     (case r_worker (gw_jobs g) of
        None \<Rightarrow> False | Some th \<Rightarrow> jt_id th = jid \<and> closing (jt_pc th) = 0)"

definition flag_owned :: "Gateway \<Rightarrow> bool" where
  "flag_owned g \<longleftrightarrow> (r_running (gw_jobs g) \<longrightarrow>
     (\<exists>th. r_worker (gw_jobs g) = Some th \<and> closing (jt_pc th) \<le> 1))"

definition pending_owned :: "Gateway \<Rightarrow> bool" where
  "pending_owned g \<longleftrightarrow> (\<forall>jid r. jobs (gw_store g) jid = Some r \<longrightarrow>
     (jr_status r = PENDING \<longleftrightarrow> working_on g jid))"

definition job_known :: "Gateway \<Rightarrow> bool" where
  "job_known g \<longleftrightarrow> (\<forall>th. r_worker (gw_jobs g) = Some th \<longrightarrow> jobs (gw_store g) (jt_id th) \<noteq> None)"

definition gw_ok :: "Gateway \<Rightarrow> bool" where
  "gw_ok g \<longleftrightarrow> wf_store (gw_store g) \<and> job_known g \<and> pending_owned g \<and> flag_owned g \<and>
     0 < r_baudrate (gw_jobs g)"

lemmas gw_ok_defs = gw_ok_def job_known_def pending_owned_def flag_owned_def working_on_def

lemma gw_ok_new [gw_inv]: "gw_ok (new_Gateway port)"
  by (simp add: gw_ok_defs new_Gateway_def new_JobRunner_def wf_new_JobStore) (simp add: new_JobStore_def)

lemma gw_ok_disp [simp]: "gw_ok (g\<lparr>gw_disp := d\<rparr>) = gw_ok g"
  by (simp add: gw_ok_defs)

lemma gw_ok_clear [gw_inv]: "gw_ok g \<Longrightarrow> gw_ok (clear_running g)"
  by (simp add: gw_ok_defs clear_running_def)

lemma gw_ok_baud [gw_inv]: "gw_ok g \<Longrightarrow> gw_ok (g\<lparr>gw_jobs := set_baudrate b (gw_jobs g)\<rparr>)"
  by (simp add: gw_ok_defs set_baudrate_def)

lemma gw_ok_join [gw_inv]: "gw_ok g \<Longrightarrow> join g = Some g' \<Longrightarrow> gw_ok g'"
  by (auto simp: gw_ok_defs join_def split: option.splits if_splits)

lemma gw_ok_launch [gw_inv]: "gw_ok g \<Longrightarrow> launch jid tmo g = Some g' \<Longrightarrow> gw_ok g'"
  by (auto simp: gw_ok_defs launch_def wf_create new_thread_def split: if_splits)
    (auto simp: create_def new_JobResult_def split: if_splits)

text \<open>The five kinds of steps of the job thread.\<close>

lemma job_step_id [simp]: "jt_id (snd (job_step r b i th)) = jt_id th"
  by (cases "jt_pc th"; cases th rule: check_frame_cases)
    (simp_all add: job_step_def retry_def Let_def split: read_ctl.split)

lemma job_step_kinds:
  obtains (io) "closing (jt_pc th) = 0" "closing (jt_pc (snd (job_step r b i th))) = 0"
      "list_all io_act (fst (job_step r b i th))"
    | (report) v where "closing (jt_pc th) = 0" "jt_pc (snd (job_step r b i th)) = JFlag"
      "fst (job_step r b i th) = [v]" "verdict v"
    | (clear) "jt_pc th = JFlag" "jt_pc (snd (job_step r b i th)) = JSubmit"
      "fst (job_step r b i th) = [AClearFlag]"
    | (finish) "jt_pc th = JSubmit" "jt_pc (snd (job_step r b i th)) = JExited"
      "fst (job_step r b i th) = [ASubmitFinish]"
    | (exited) "jt_pc th = JExited" "job_step r b i th = ([], th)"
proof (cases "closing (jt_pc th) = 0")
  case True
  have "closing (jt_pc (snd (job_step r b i th))) = 0 \<and> list_all io_act (fst (job_step r b i th)) \<or>
    jt_pc (snd (job_step r b i th)) = JFlag \<and> (\<exists>v. fst (job_step r b i th) = [v] \<and> verdict v)"
    using True by (cases "jt_pc th"; cases th rule: check_frame_cases)
      (simp_all add: job_step_def retry_def Let_def split: read_ctl.split)
  then show ?thesis using True io report by blast
next
  case False
  then show ?thesis using clear finish exited by (cases "jt_pc th") (simp_all add: job_step_def)
qed

lemma apply_acts_io: "list_all io_act as \<Longrightarrow> apply_acts jid as g = Inr g"
proof (induction as)
  case (Cons a as)
  then show ?case by (cases a) simp_all
qed simp

fun result_of :: "job_act \<Rightarrow> JobResult" where
  "result_of ASetTimeout = \<lparr>jr_status = TIMEOUT, jr_message = ''TIMEOUT'', jr_qr = None\<rparr>"
| "result_of (ASetDone q) = \<lparr>jr_status = DONE, jr_message = ''OK'', jr_qr = Some q\<rparr>"
| "result_of _ = \<lparr>jr_status = CANCELLED, jr_message = ''CANCELLED'', jr_qr = None\<rparr>"

lemma result_of_final: "jr_status (result_of v) \<noteq> PENDING" "wf_result (result_of v)"
  by (cases v; simp)+

lemma apply_verdict:
  assumes "verdict v" and "jobs (gw_store g) jid \<noteq> None"
  shows "\<exists>s. apply_act jid v g = Inr (g\<lparr>gw_store := s\<rparr>) \<and>
    jobs s = (jobs (gw_store g))(jid \<mapsto> result_of v)"
  using assms(1) store.timed_out_present [OF assms(2)] store.cancelled_present [OF assms(2)]
    store.finished_present [OF assms(2)]
  by (cases v) (force simp: upd_store_def)+

text \<open>What a step of the thread does to the shared objects; it never ends in an exception.\<close>

lemma runner_step_cases:
  assumes "job_known g"
  obtains (none) "r_worker (gw_jobs g) = None" "runner_step i g = Inr g"
    | (io) th th' where "r_worker (gw_jobs g) = Some th" "jt_id th' = jt_id th"
      "closing (jt_pc th) = 0" "closing (jt_pc th') = 0"
      "runner_step i g = Inr (g\<lparr>gw_jobs := (gw_jobs g)\<lparr>r_worker := Some th'\<rparr>\<rparr>)"
    | (report) th th' v s where "r_worker (gw_jobs g) = Some th" "jt_id th' = jt_id th"
      "closing (jt_pc th) = 0" "jt_pc th' = JFlag" "verdict v"
      "jobs s = (jobs (gw_store g))(jt_id th \<mapsto> result_of v)"
      "runner_step i g = Inr (g\<lparr>gw_jobs := (gw_jobs g)\<lparr>r_worker := Some th'\<rparr>, gw_store := s\<rparr>)"
    | (clear) th th' where "r_worker (gw_jobs g) = Some th" "jt_id th' = jt_id th"
      "jt_pc th = JFlag" "jt_pc th' = JSubmit"
      "runner_step i g = Inr (g\<lparr>gw_jobs := (gw_jobs g)\<lparr>r_worker := Some th', r_running := False\<rparr>\<rparr>)"
    | (finish) th th' where "r_worker (gw_jobs g) = Some th" "jt_id th' = jt_id th"
      "jt_pc th = JSubmit" "jt_pc th' = JExited"
      "runner_step i g = Inr (g\<lparr>gw_jobs := (gw_jobs g)\<lparr>r_worker := Some th'\<rparr>,
         gw_disp := snd (submit OpFinish (gw_disp g))\<rparr>)"
    | (exited) th where "r_worker (gw_jobs g) = Some th" "jt_pc th = JExited" "runner_step i g = Inr g"
proof (cases "r_worker (gw_jobs g)")
  case None
  then show thesis using none by (simp add: runner_step_def)
next
  case (Some th)
  let ?r = "r_running (gw_jobs g)" and ?b = "r_baudrate (gw_jobs g)"
  let ?th = "snd (job_step ?r ?b i th)" and ?as = "fst (job_step ?r ?b i th)"
  let ?g = "g\<lparr>gw_jobs := (gw_jobs g)\<lparr>r_worker := Some ?th\<rparr>\<rparr>"
  have eq: "runner_step i g = apply_acts (jt_id th) ?as ?g"
    using Some by (simp add: runner_step_def split: prod.split)
  have known: "jobs (gw_store ?g) (jt_id th) \<noteq> None"
    using assms Some by (simp add: job_known_def)
  show thesis
  proof (cases rule: job_step_kinds [where th = th and r = ?r and b = ?b and i = i])
    case io
    then show thesis using that(2) [of th ?th] Some eq by (simp add: apply_acts_io)
  next
    case (report v)
    obtain s where "apply_act (jt_id th) v ?g = Inr (?g\<lparr>gw_store := s\<rparr>)"
      "jobs s = (jobs (gw_store ?g))(jt_id th \<mapsto> result_of v)"
      using apply_verdict [OF report(4) known] by blast
    then show thesis using that(3) [of th ?th v s] Some eq report by simp
  next
    case clear
    then show thesis using that(4) [of th ?th] Some eq by simp
  next
    case finish
    then show thesis using that(5) [of th ?th] Some eq by simp
  next
    case exited
    then show thesis using that(6) [of th] Some eq by simp
  qed
qed

lemma gw_ok_job [gw_inv]:
  assumes "gw_ok g" and "runner_step i g = Inr g'"
  shows "gw_ok g'"
proof -
  have "job_known g" using assms(1) by (simp add: gw_ok_def)
  then show ?thesis
  proof (cases rule: runner_step_cases [where i = i])
    case (report th th' v s)
    have "wf_store s"
      using assms(1) report(6) result_of_final(2) [of v]
      by (auto simp: gw_ok_def wf_store_def simp del: wf_result.simps split: if_splits)
    then show ?thesis using report assms result_of_final(1) [of v] by (auto simp: gw_ok_defs)
  qed (use assms in \<open>auto simp: gw_ok_defs\<close>)
qed

lemma gw_ok_step: "gw_step thr g e g' \<Longrightarrow> gw_ok g \<Longrightarrow> gw_ok g'"
  by (induction rule: gw_step.induct) (auto intro: gw_inv)

lemma gw_ok_steps: "gw_steps thr g es g' \<Longrightarrow> gw_ok g \<Longrightarrow> gw_ok g'"
  by (induction rule: gw_steps.induct) (auto intro: gw_ok_step)

section \<open>The dispatcher's part of the history\<close>

text \<open>
  The events of the process that concern the dispatcher; the submission at the end of a job
  is the one of the step in which the job thread returns.
\<close>

definition unfinished :: "Gateway \<Rightarrow> nat" where
  "unfinished g =
     (case r_worker (gw_jobs g) of
        None \<Rightarrow> 0 | Some th \<Rightarrow> if jt_pc th = JExited then 0 else 1)"

fun requested :: "gw_event list \<Rightarrow> core_op list" where
  "requested [] = []"
| "requested (GSubmit x # es) = x # requested es"
| "requested (_ # es) = requested es"

fun launches :: "gw_event list \<Rightarrow> nat" where
  "launches [] = 0"
| "launches (GLaunch jid tmo # es) = Suc (launches es)"
| "launches (_ # es) = launches es"

lemma requested_append [simp]: "requested (es @ fs) = requested es @ requested fs"
  by (induction es rule: requested.induct) auto

lemma launches_append [simp]: "launches (es @ fs) = launches es + launches fs"
  by (induction es rule: launches.induct) auto

definition disp_history :: "(nat \<Rightarrow> bool) \<Rightarrow> gw_event list \<Rightarrow> Gateway \<Rightarrow> disp_event list \<Rightarrow> bool" where
  "disp_history thr es g fs \<longleftrightarrow>
     gw_disp g = disp_run thr fs (new_Dispatcher new_Core) \<and>
     filter (\<lambda>x. x \<noteq> OpFinish) (submitted fs) = filter (\<lambda>x. x \<noteq> OpFinish) (requested es) \<and>
     count_list (submitted fs) OpFinish + unfinished g =
       count_list (requested es) OpFinish + launches es"

lemma disp_history_new: "disp_history thr [] (new_Gateway port) []"
  by (simp add: disp_history_def new_Gateway_def unfinished_def new_JobRunner_def)

lemma disp_history_job:
  assumes "disp_history thr es g fs" and "gw_ok g" and "runner_step i g = Inr g'"
  shows "\<exists>fs'. disp_history thr (es @ [GJob i]) g' fs'"
proof -
  have "job_known g" using assms(2) by (simp add: gw_ok_def)
  then show ?thesis
  proof (cases rule: runner_step_cases [where i = i])
    case (finish th th')
    then show ?thesis using assms(1,3)
      by (intro exI [of _ "fs @ [Submit OpFinish]"]) (auto simp: disp_history_def unfinished_def)
  qed (use assms(1,3) in \<open>auto simp: disp_history_def unfinished_def intro!: exI [of _ fs]
      split: if_splits\<close>)
qed

lemma disp_history_step:
  assumes "gw_step thr g e g'" and "gw_ok g" and "disp_history thr es g fs"
  shows "\<exists>fs'. disp_history thr (es @ [e]) g' fs'"
  using assms
proof (cases rule: gw_step.cases)
  case (Submit x)
  then show ?thesis using assms(3)
    by (intro exI [of _ "fs @ [disp_event.Submit x]"]) (auto simp: disp_history_def unfinished_def)
next
  case DispatcherStop
  then show ?thesis using assms(3)
    by (intro exI [of _ "fs @ [StopRequest]"]) (auto simp: disp_history_def unfinished_def)
next
  case Worker
  then show ?thesis using assms(3)
    by (intro exI [of _ "fs @ [disp_event.Worker]"]) (auto simp: disp_history_def unfinished_def)
next
  case (Job i)
  then show ?thesis using disp_history_job [OF assms(3,2)] by simp
next
  case (Launch jid tmo)
  then show ?thesis using assms(3)
    by (intro exI [of _ fs]) (auto simp: disp_history_def unfinished_def launch_def new_thread_def split: if_splits)
qed (use assms(3) in \<open>auto simp: disp_history_def unfinished_def clear_running_def join_def
    set_baudrate_def intro!: exI [of _ fs] split: option.splits if_splits\<close>)

lemma disp_history_steps:
  "gw_steps thr g es g' \<Longrightarrow> g = new_Gateway port \<Longrightarrow> gw_ok g' \<and> (\<exists>fs. disp_history thr es g' fs)"
proof (induction rule: gw_steps.induct)
  case (no_step g)
  then show ?case using disp_history_new gw_ok_new by blast
next
  case (one_more g es g1 e g2)
  then show ?case using disp_history_step gw_ok_step by blast
qed

section \<open>Stopping\<close>

definition steps_left :: "Gateway \<Rightarrow> nat" where
  "steps_left g = (case r_worker (gw_jobs g) of None \<Rightarrow> 0 | Some th \<Rightarrow> stop_fuel (jt_pc th))"

fun job_steps :: "gw_event list \<Rightarrow> nat" where
  "job_steps [] = 0"
| "job_steps (GJob i # es) = Suc (job_steps es)"
| "job_steps (_ # es) = job_steps es"

lemma job_steps_append [simp]: "job_steps (es @ fs) = job_steps es + job_steps fs"
  by (induction es rule: job_steps.induct) auto

lemma apply_acts_keeps_thread:
  "apply_acts jid as g = Inr g' \<Longrightarrow> r_worker (gw_jobs g') = r_worker (gw_jobs g)"
proof (induction as arbitrary: g)
  case (Cons a as)
  then show ?case by (cases a) (auto simp: upd_store_def split: sum.splits)
qed simp

lemma runner_step_worker:
  "runner_step i g = Inr g' \<Longrightarrow> r_worker (gw_jobs g') =
     map_option (\<lambda>th. snd (job_step (r_running (gw_jobs g)) (r_baudrate (gw_jobs g)) i th)) (r_worker (gw_jobs g))"
  by (force simp: runner_step_def split: option.splits prod.splits dest: apply_acts_keeps_thread)

lemma runner_step_fuel:
  assumes "runner_step i g = Inr g'" and "\<not> r_running (gw_jobs g)" and "job_known g"
  shows "\<not> r_running (gw_jobs g') \<and> steps_left g' \<le> steps_left g - 1"
proof -
  have "\<not> r_running (gw_jobs g')" using assms(3)
    by (cases rule: runner_step_cases [where i = i]) (use assms(1,2) in auto)
  moreover have "steps_left g' \<le> steps_left g - 1"
    using runner_step_worker [OF assms(1)] assms(2) stop_fuel_step
    by (cases "r_worker (gw_jobs g)") (simp_all add: steps_left_def)
  ultimately show ?thesis ..
qed

lemma stop_step:
  assumes "gw_step thr g e g'" and "gw_ok g" and "\<not> r_running (gw_jobs g)" and "launches [e] = 0"
  shows "\<not> r_running (gw_jobs g') \<and> steps_left g' \<le> steps_left g - job_steps [e]"
  using assms
proof (cases rule: gw_step.cases)
  case (Job i)
  then show ?thesis using runner_step_fuel [of i g g'] assms(2,3) by (simp add: gw_ok_def)
qed (use assms in \<open>auto simp: steps_left_def clear_running_def join_def set_baudrate_def
    split: option.splits if_splits\<close>)

lemma stop_steps:
  "gw_steps thr g es g' \<Longrightarrow> gw_ok g \<Longrightarrow> \<not> r_running (gw_jobs g) \<Longrightarrow> launches es = 0 \<Longrightarrow>
     \<not> r_running (gw_jobs g') \<and> steps_left g' \<le> steps_left g - job_steps es"
proof (induction rule: gw_steps.induct)
  case (one_more g es g1 e g2)
  then have "gw_ok g1" using gw_ok_steps by blast
  then show ?case using one_more stop_step [of thr g1 e g2] by force
qed simp

lemma steps_left_max: "steps_left g \<le> 7"
  using stop_fuel_max by (simp add: steps_left_def split: option.split)

lemma join_enabled: "steps_left g = 0 \<Longrightarrow> join g \<noteq> None"
  by (auto simp: steps_left_def join_def stop_fuel_0 split: option.splits)

section \<open>Properties\<close>


text \<open>
  The job thread never dies from an exception: in every reachable state its next step
  succeeds, because the entry of its job is in the store; and the running flag is set only
  while there is a thread that has not yet cleared it.
\<close>

lemma gateway_job_never_throws:
  assumes "gw_steps thr (new_Gateway port) es g"
  shows "(\<exists>g'. runner_step i g = Inr g') \<and>
    (r_running (gw_jobs g) \<longrightarrow>
       (\<exists>th. r_worker (gw_jobs g) = Some th \<and> jt_pc th \<noteq> JSubmit \<and> jt_pc th \<noteq> JExited))"
proof -
  have ok: "gw_ok g" using gw_ok_steps [OF assms gw_ok_new] .
  then have "job_known g" by (simp add: gw_ok_def)
  then have "\<exists>g'. runner_step i g = Inr g'" by (cases rule: runner_step_cases [where i = i]) blast+
  moreover have "th \<noteq> JSubmit \<and> th \<noteq> JExited" if "closing th \<le> 1" for th
    using that by auto
  ultimately show ?thesis using ok by (auto simp: gw_ok_def flag_owned_def)
qed

lemma final_step:
  assumes "gw_step thr g e g'" and "gw_ok g" and "jobs (gw_store g) jid = Some r"
    and "jr_status r \<noteq> PENDING" and "\<forall>tmo. e \<noteq> GLaunch jid tmo"
  shows "jobs (gw_store g') jid = Some r"
  using assms
proof (cases rule: gw_step.cases)
  case (Job i)
  have known: "job_known g" using assms(2) by (simp add: gw_ok_def)
  from known show ?thesis
  proof (cases rule: runner_step_cases [where i = i])
    case (report th th' v s)
    have "jt_id th \<noteq> jid"
      using assms(2,3,4) report(1,3) by (auto simp: gw_ok_def pending_owned_def working_on_def)
    then show ?thesis using Job report assms(3) by auto
  qed (use Job assms(3) in auto)
qed (use assms in \<open>auto simp: clear_running_def join_def launch_def create_def
    split: option.splits if_splits\<close>)

lemma entry_step:
  assumes "gw_step thr g e g'" and "gw_ok g" and "jobs (gw_store g) jid \<noteq> None"
  shows "jobs (gw_store g') jid \<noteq> None"
  using assms
proof (cases rule: gw_step.cases)
  case (Job i)
  have "job_known g" using assms(2) by (simp add: gw_ok_def)
  then show ?thesis by (cases rule: runner_step_cases [where i = i]) (use Job assms(3) in auto)
qed (use assms in \<open>auto simp: clear_running_def join_def launch_def create_def split: option.splits if_splits\<close>)

lemma status_steps:
  "gw_steps thr g es g' \<Longrightarrow> gw_ok g \<Longrightarrow> jobs (gw_store g) jid = Some r \<Longrightarrow> \<forall>tmo. GLaunch jid tmo \<notin> set es \<Longrightarrow>
     \<exists>r'. jobs (gw_store g') jid = Some r' \<and> jr_status r \<le> jr_status r' \<and> (jr_status r \<noteq> PENDING \<longrightarrow> r' = r)"
proof (induction rule: gw_steps.induct)
  case (one_more g es g1 e g2)
  obtain r1 where r1: "jobs (gw_store g1) jid = Some r1" "jr_status r \<le> jr_status r1"
    "jr_status r \<noteq> PENDING \<longrightarrow> r1 = r" using one_more by auto
  have ok: "gw_ok g1" using one_more gw_ok_steps by blast
  obtain r2 where r2: "jobs (gw_store g2) jid = Some r2" using entry_step [OF one_more(2) ok] r1(1) by auto
  have same: "r2 = r1" if "jr_status r1 \<noteq> PENDING"
    using final_step [OF one_more(2) ok r1(1) that] one_more.prems(3) r2 by auto
  then have "jr_status r1 \<le> jr_status r2" by (cases "jr_status r1 = PENDING") (simp_all add: less_eq_JobStatus_def)
  then have "jr_status r \<le> jr_status r2" using r1(2) order_trans by blast
  then show ?case using r2 r1(3) same by blast
qed auto

text \<open>
  C32: the status of a job only moves forward, and results are final: from every reachable state in
  which a job is known, after every further sequence of steps in which its identifier is not drawn
  again for a new job, \<^verbatim>\<open>get\<close> still knows it, with a status that is the same or was PENDING before, and
  with the very same result once it is DONE, TIMEOUT or CANCELLED.
\<close>

theorem gateway_results_final:
  assumes "gw_steps thr (new_Gateway port) es g" and "get_job jid (gw_store g) = Inr r"
    and "gw_steps thr g fs g'" and "\<forall>tmo. GLaunch jid tmo \<notin> set fs"
  shows "\<exists>r'. get_job jid (gw_store g') = Inr r' \<and> jr_status r \<le> jr_status r' \<and>
    (jr_status r \<noteq> PENDING \<longrightarrow> r' = r)"
proof -
  have "gw_ok g" using gw_ok_steps [OF assms(1) gw_ok_new] .
  moreover have "jobs (gw_store g) jid = Some r" using assms(2) by (simp add: store.fetch_look split: option.splits)
  ultimately show ?thesis using status_steps [OF assms(3)] assms(4) by (force simp: store.fetch_look)
qed

text \<open>
  C16: the core is told the end of every job exactly once. The dispatcher of a reachable state
  is the result of a history of submissions, stop requests and worker steps in which the
  calls other than FINISH are those of the request threads, in their order, and the FINISH
  calls number one for each job launched, except the one whose thread has not returned.
\<close>

theorem gateway_dispatch_history:
  assumes "gw_steps thr (new_Gateway port) es g" and "OpFinish \<notin> set (requested es)"
  shows "\<exists>fs. gw_disp g = disp_run thr fs (new_Dispatcher new_Core) \<and>
    filter (\<lambda>x. x \<noteq> OpFinish) (submitted fs) = requested es \<and>
    count_list (submitted fs) OpFinish + unfinished g = launches es"
proof -
  have "filter (\<lambda>x. x \<noteq> OpFinish) (requested es) = requested es" "count_list (requested es) OpFinish = 0"
    using assms(2) by (auto simp: filter_id_conv count_list_0_iff)
  then show ?thesis using disp_history_steps [OF assms(1)] by (auto simp: disp_history_def)
qed

section \<open>Deadlines\<close>

text \<open>
  A job is over, or its thread is past its first clock reading and has at most \<open>n\<close> late
  steps to take.
\<close>

definition job_over :: "job_id \<Rightarrow> Gateway \<Rightarrow> bool" where
  "job_over jid g = (case jobs (gw_store g) jid of None \<Rightarrow> False | Some r \<Rightarrow> jr_status r \<noteq> PENDING)"

definition ends_within :: "job_id \<Rightarrow> int \<Rightarrow> nat \<Rightarrow> Gateway \<Rightarrow> bool" where
  "ends_within jid due n g \<longleftrightarrow> job_over jid g \<or>
     (\<exists>th. r_worker (gw_jobs g) = Some th \<and> jt_id th = jid \<and> jt_deadline th = due \<and> started th \<and>
        late_fuel (jt_pc th) \<le> n)"

fun late_event :: "job_id \<Rightarrow> int \<Rightarrow> gw_event \<Rightarrow> bool" where
  "late_event jid due (GJob i) \<longleftrightarrow> due \<le> ji_now i \<and> \<not> pass_interrupted i"
| "late_event jid due (GLaunch k tmo) \<longleftrightarrow> k \<noteq> jid"
| "late_event jid due _ \<longleftrightarrow> True"

lemma job_over_step:
  assumes "gw_step thr g e g'" and "gw_ok g" and "job_over jid g" and "late_event jid due e"
  shows "job_over jid g'"
proof -
  obtain r where "jobs (gw_store g) jid = Some r" "jr_status r \<noteq> PENDING"
    using assms(3) by (auto simp: job_over_def split: option.splits)
  moreover have "\<forall>tmo. e \<noteq> GLaunch jid tmo" using assms(4) by auto
  ultimately show ?thesis using final_step [OF assms(1,2)] by (simp add: job_over_def)
qed

lemma exited_over:
  "gw_ok g \<Longrightarrow> r_worker (gw_jobs g) = Some th \<Longrightarrow> jt_pc th = JExited \<Longrightarrow> job_over (jt_id th) g"
  by (auto simp: gw_ok_defs job_over_def split: option.splits)

lemma ends_within_step:
  assumes "gw_step thr g e g'" and "gw_ok g" and "ends_within jid due n g" and "late_event jid due e"
  shows "ends_within jid due (n - job_steps [e]) g'"
proof (cases "job_over jid g")
  case True
  then show ?thesis using job_over_step [OF assms(1,2) _ assms(4)] by (simp add: ends_within_def)
next
  case False
  then obtain th where th: "r_worker (gw_jobs g) = Some th" "jt_id th = jid" "jt_deadline th = due"
    "started th" "late_fuel (jt_pc th) \<le> n" using assms(3) by (auto simp: ends_within_def)
  have live: "jt_pc th \<noteq> JExited" using exited_over [OF assms(2) th(1)] th(2) False by auto
  from assms(1) show ?thesis
  proof (cases rule: gw_step.cases)
    case (Job i)
    let ?th = "snd (job_step (r_running (gw_jobs g)) (r_baudrate (gw_jobs g)) i th)"
    have "late_fuel (jt_pc ?th) \<le> late_fuel (jt_pc th) - 1"
      using late_fuel_step [OF th(4)] th(3) Job(1) assms(4) by simp
    then show ?thesis using Job runner_step_worker [OF Job(2)] th job_step_started [OF th(4)]
      by (auto simp: ends_within_def)
  qed (use th live in \<open>auto simp: ends_within_def clear_running_def join_def launch_def set_baudrate_def
      split: if_splits\<close>)
qed

lemma ends_within_steps:
  "gw_steps thr g es g' \<Longrightarrow> gw_ok g \<Longrightarrow> ends_within jid due n g \<Longrightarrow> list_all (late_event jid due) es \<Longrightarrow>
     ends_within jid due (n - job_steps es) g'"
proof (induction rule: gw_steps.induct)
  case (one_more g es g1 e g2)
  then have "gw_ok g1" using gw_ok_steps by blast
  then show ?case using one_more ends_within_step [of thr g1 e g2 jid due "n - job_steps es"]
    by (simp add: diff_diff_eq)
qed simp

lemma ends_within_0: "gw_ok g \<Longrightarrow> ends_within jid due 0 g \<Longrightarrow> job_over jid g"
  using exited_over late_fuel_0 by (auto simp: ends_within_def)

text \<open>
  C31: no job outlives its deadline: when the clock has passed the deadline of the job that
  runs, then after every continuation in which the job thread takes as many steps as the rest
  of the current read allows, and no signal interrupts its system calls, the table holds a
  final result for it; whatever requests, cancellations and later launches interleave.
\<close>

theorem gateway_job_ends:
  assumes "gw_steps thr (new_Gateway port) es g" and "r_worker (gw_jobs g) = Some th" and "started th"
    and "gw_steps thr g fs g'" and "list_all (late_event (jt_id th) (jt_deadline th)) fs"
    and "late_fuel (jt_pc th) \<le> job_steps fs"
  shows "\<exists>r. get_job (jt_id th) (gw_store g') = Inr r \<and> jr_status r \<noteq> PENDING \<and> wf_result r"
proof -
  have ok: "gw_ok g" "gw_ok g'"
    using gw_ok_steps [OF assms(1) gw_ok_new] gw_ok_steps [OF assms(4)] by blast+
  have "ends_within (jt_id th) (jt_deadline th) (late_fuel (jt_pc th)) g"
    using assms(2,3) by (auto simp: ends_within_def)
  then have "ends_within (jt_id th) (jt_deadline th) 0 g'"
    using ends_within_steps [OF assms(4) ok(1) _ assms(5)] assms(6) by fastforce
  then have "job_over (jt_id th) g'" using ends_within_0 [OF ok(2)] by blast
  then show ?thesis using ok(2)
    by (auto simp: job_over_def gw_ok_def wf_store_def store.fetch_look simp del: wf_result.simps split: option.splits)
qed

section \<open>Stopped jobs\<close>

text \<open>
  A stopped job: the flag is cleared, and the thread has not decided on a code yet, or the job is
  over without one.
\<close>

definition without_code :: "job_id \<Rightarrow> Gateway \<Rightarrow> bool" where
  "without_code jid g \<longleftrightarrow>
     (\<exists>th. r_worker (gw_jobs g) = Some th \<and> jt_id th = jid \<and> closing (jt_pc th) = 0 \<and> jt_pc th \<noteq> JDecode) \<or>
     (\<exists>r. jobs (gw_store g) jid = Some r \<and> jr_status r \<in> {CANCELLED, TIMEOUT})"

lemma stopped_job_step:
  assumes "jt_pc th \<noteq> JDecode" and "closing (jt_pc th) = 0"
  shows "jt_pc (snd (job_step False b i th)) \<noteq> JDecode" "ASetDone q \<notin> set (fst (job_step False b i th))"
  using assms by (cases "jt_pc th"; simp add: job_step_def read_iter_flag Let_def)+

lemma without_code_job:
  assumes "runner_step i g = Inr g'" and "job_known g" and "\<not> r_running (gw_jobs g)"
    and "r_worker (gw_jobs g) = Some th" and "closing (jt_pc th) = 0" and "jt_pc th \<noteq> JDecode"
  shows "without_code (jt_id th) g'"
proof -
  let ?b = "r_baudrate (gw_jobs g)"
  let ?th = "snd (job_step False ?b i th)" and ?as = "fst (job_step False ?b i th)"
  have w: "r_worker (gw_jobs g') = Some ?th" using runner_step_worker [OF assms(1)] assms(3,4) by simp
  show ?thesis
  proof (cases rule: job_step_kinds [where th = th and r = False and b = ?b and i = i])
    case io
    then show ?thesis using w stopped_job_step(1) [OF assms(6,5)] by (auto simp: without_code_def)
  next
    case (report v)
    have "ASetDone q \<noteq> v" for q using stopped_job_step(2) [OF assms(6,5), of q ?b i] report(3) by simp
    then have st: "jr_status (result_of v) \<in> {CANCELLED, TIMEOUT}" using report(4) by (cases v) auto
    let ?g = "g\<lparr>gw_jobs := (gw_jobs g)\<lparr>r_worker := Some ?th\<rparr>\<rparr>"
    have "jobs (gw_store ?g) (jt_id th) \<noteq> None" using assms(2,4) by (simp add: job_known_def)
    from apply_verdict [OF report(4) this] have "jobs (gw_store g') (jt_id th) = Some (result_of v)"
      using assms(1,3,4) report(3) by (auto simp: runner_step_def split_def Let_def)
    then show ?thesis using st by (auto simp: without_code_def)
  qed (use assms(5) in simp_all)
qed

lemma without_code_step:
  assumes "gw_step thr g e g'" and "gw_ok g" and "\<not> r_running (gw_jobs g)" and "launches [e] = 0"
    and "without_code jid g"
  shows "without_code jid g'"
proof (cases "\<exists>r. jobs (gw_store g) jid = Some r \<and> jr_status r \<in> {CANCELLED, TIMEOUT}")
  case True
  then obtain r where r: "jobs (gw_store g) jid = Some r" "jr_status r \<in> {CANCELLED, TIMEOUT}" by blast
  have "jr_status r \<noteq> PENDING" "\<forall>tmo. e \<noteq> GLaunch jid tmo" using r(2) assms(4) by auto
  then show ?thesis using final_step [OF assms(1,2) r(1)] r(2) by (auto simp: without_code_def)
next
  case False
  then obtain th where th: "r_worker (gw_jobs g) = Some th" "jt_id th = jid" "closing (jt_pc th) = 0"
    "jt_pc th \<noteq> JDecode" using assms(5) by (auto simp: without_code_def)
  have live: "jt_pc th \<noteq> JExited" using th(3) by auto
  from assms(1) show ?thesis
  proof (cases rule: gw_step.cases)
    case (Job i)
    then show ?thesis using without_code_job [OF Job(2) _ assms(3) th(1,3,4)] assms(2) th(2) by (simp add: gw_ok_def)
  qed (use th live assms(4) in \<open>auto simp: without_code_def clear_running_def join_def set_baudrate_def
      split: if_splits\<close>)
qed

lemma without_code_steps:
  "gw_steps thr g es g' \<Longrightarrow> gw_ok g \<Longrightarrow> \<not> r_running (gw_jobs g) \<Longrightarrow> launches es = 0 \<Longrightarrow> without_code jid g \<Longrightarrow>
     without_code jid g'"
proof (induction rule: gw_steps.induct)
  case (one_more g es g1 e g2)
  then have "gw_ok g1" "\<not> r_running (gw_jobs g1)" using gw_ok_steps stop_steps by force+
  then show ?case using one_more without_code_step [of thr g1 e g2] by simp
qed simp

text \<open>
  C12: stopping a job cancels it. When the running flag is cleared while the thread works on a job and is
  not just looking at a complete frame, then after every continuation without a new launch in which
  the thread takes at least seven steps the job is CANCELLED, or TIMEOUT, and no code is reported;
  and the join of \<^verbatim>\<open>JobRunner::stop()\<close> returns.
\<close>

theorem stop_cancels_job:
  assumes "gw_steps thr (new_Gateway port) es g" and "r_worker (gw_jobs g) = Some th"
    and "closing (jt_pc th) = 0" and "jt_pc th \<noteq> JDecode"
    and "gw_steps thr (clear_running g) fs g'" and "launches fs = 0" and "7 \<le> job_steps fs"
  shows "(\<exists>r. get_job (jt_id th) (gw_store g') = Inr r \<and> jr_status r \<in> {CANCELLED, TIMEOUT} \<and> jr_qr r = None) \<and>
    (\<exists>g''. join g' = Some g'' \<and> r_worker (gw_jobs g'') = None)"
proof -
  let ?g = "clear_running g"
  have ok: "gw_ok ?g" using gw_ok_clear [OF gw_ok_steps [OF assms(1) gw_ok_new]] .
  have f: "\<not> r_running (gw_jobs ?g)" by (simp add: clear_running_def)
  have "steps_left g' = 0" using stop_steps [OF assms(5) ok f assms(6)] assms(7) steps_left_max [of ?g] by fastforce
  moreover have "without_code (jt_id th) ?g" using assms(2-4) by (auto simp: without_code_def clear_running_def)
  then have "without_code (jt_id th) g'" using without_code_steps [OF assms(5) ok f assms(6)] by blast
  ultimately obtain r where r: "jobs (gw_store g') (jt_id th) = Some r" "jr_status r \<in> {CANCELLED, TIMEOUT}"
    by (auto simp: without_code_def steps_left_def stop_fuel_0)
  have "wf_result r" using gw_ok_steps [OF assms(5) ok] r(1) by (auto simp: gw_ok_def wf_store_def)
  then have "jr_qr r = None" using r(2) by auto
  moreover have "\<exists>g''. join g' = Some g'' \<and> r_worker (gw_jobs g'') = None"
    using join_enabled [OF \<open>steps_left g' = 0\<close>] by (auto simp: join_def split: option.splits if_splits)
  ultimately show ?thesis using r by (simp add: store.fetch_look)
qed

text \<open>
  The exception is real: a thread that has passed the flag check behind the read reports the code it
  holds, although the flag is cleared before it looks at the frame.
\<close>

lemma code_after_stop:
  "jt_pc th = JDecode \<Longrightarrow> cobs_decode (jt_enc th) = Some (True, dec) \<Longrightarrow> starts_with ''QR:'' (string_of_bytes dec) \<Longrightarrow>
     fst (job_step False b i th) = [ASetDone (string_of_bytes dec)]"
  by (simp add: job_step_def check_frame_def)

section \<open>Running the relation\<close>

text \<open>The step relation is a function where it is enabled; runs on concrete events compute.\<close>

fun gw_exec :: "(nat \<Rightarrow> bool) \<Rightarrow> gw_event \<Rightarrow> Gateway \<Rightarrow> Gateway option" where
  "gw_exec thr (GSubmit x) g = Some (g\<lparr>gw_disp := snd (submit x (gw_disp g))\<rparr>)"
| "gw_exec thr GDispatcherStop g = Some (g\<lparr>gw_disp := dispatcher_stop (gw_disp g)\<rparr>)"
| "gw_exec thr GWorker g = Some (g\<lparr>gw_disp := worker_step thr (gw_disp g)\<rparr>)"
| "gw_exec thr (GJob i) g = (case runner_step i g of Inl e \<Rightarrow> None | Inr g' \<Rightarrow> Some g')"
| "gw_exec thr GClear g = Some (clear_running g)"
| "gw_exec thr GJoin g = join g"
| "gw_exec thr (GLaunch jid tmo) g = launch jid tmo g"
| "gw_exec thr (GBaud b) g = Some (g\<lparr>gw_jobs := set_baudrate b (gw_jobs g)\<rparr>)"

fun gw_run :: "(nat \<Rightarrow> bool) \<Rightarrow> gw_event list \<Rightarrow> Gateway \<Rightarrow> Gateway option" where
  "gw_run thr [] g = Some g"
| "gw_run thr (e # es) g = (case gw_exec thr e g of None \<Rightarrow> None | Some g' \<Rightarrow> gw_run thr es g')"

lemma gw_step_exec: "gw_step thr g e g' \<longleftrightarrow> gw_exec thr e g = Some g'"
  by (cases e) (auto elim!: gw_step_elims intro: gw_step.intros split: sum.splits)

lemma gw_steps_Cons:
  "gw_steps thr g1 es g2 \<Longrightarrow> gw_step thr g e g1 \<Longrightarrow> gw_steps thr g (e # es) g2"
proof (induction rule: gw_steps.induct)
  case (no_step g1)
  then show ?case using gw_steps.one_more [OF gw_steps.no_step] by fastforce
next
  case (one_more g1 es g2 e' g3)
  then show ?case using gw_steps.one_more [of thr g "e # es" g2 e' g3] by simp
qed

lemma gw_run_steps: "gw_run thr es g = Some g' \<Longrightarrow> gw_steps thr g es g'"
  by (induction es arbitrary: g)
    (auto intro: gw_steps.no_step gw_steps_Cons [unfolded gw_step_exec] split: option.splits)

section \<open>A concrete history\<close>

text \<open>
  INIT, then \<^verbatim>\<open>/start\<close>: the submission, its three worker steps, and the launch behind the
  \<^verbatim>\<open>stop()\<close> at the head of \<^verbatim>\<open>JobRunner::start\<close>; then a cancellation.
\<close>

definition start_events :: "gw_event list" where
  "start_events = [GSubmit (OpSync ''INIT''), GWorker, GWorker, GWorker, GSubmit (OpStart 100),
     GWorker, GWorker, GWorker, GClear, GJoin, GLaunch ''0badcafe'' 100, GJob (quiet_in 0)]"

definition started_gw :: Gateway where
  "started_gw = the (gw_run (\<lambda>_. False) start_events (new_Gateway ''/dev/ttyS1''))"

definition cancelled_gw :: Gateway where
  "cancelled_gw = the (gw_run (\<lambda>_. False) (replicate 7 (GJob (quiet_in 5))) (clear_running started_gw))"

lemma started_gw_steps: "gw_steps (\<lambda>_. False) (new_Gateway ''/dev/ttyS1'') start_events started_gw"
proof (rule gw_run_steps)
  have "gw_run (\<lambda>_. False) start_events (new_Gateway ''/dev/ttyS1'') \<noteq> None"
    by code_simp
  then show "gw_run (\<lambda>_. False) start_events (new_Gateway ''/dev/ttyS1'') = Some started_gw"
    by (simp add: started_gw_def)
qed

lemma started_gw_store: "get_job ''0badcafe'' (gw_store started_gw) = Inr new_JobResult"
  by code_simp

lemma cancelled_gw_steps:
  "gw_steps (\<lambda>_. False) (clear_running started_gw) (replicate 7 (GJob (quiet_in 5))) cancelled_gw"
proof (rule gw_run_steps)
  have "gw_run (\<lambda>_. False) (replicate 7 (GJob (quiet_in 5))) (clear_running started_gw) \<noteq> None"
    by code_simp
  then show "gw_run (\<lambda>_. False) (replicate 7 (GJob (quiet_in 5))) (clear_running started_gw)
      = Some cancelled_gw" by (simp add: cancelled_gw_def)
qed

lemma gw_steps_append: "gw_steps thr g1 fs g2 \<Longrightarrow> gw_steps thr g es g1 \<Longrightarrow> gw_steps thr g (es @ fs) g2"
proof (induction rule: gw_steps.induct)
  case (one_more g1 fs g2 e g3)
  then show ?case using gw_steps.one_more [of thr g "es @ fs" g2 e g3] by simp
qed simp

lemma cancelled_gw_reached:
  "gw_steps (\<lambda>_. False) (new_Gateway ''/dev/ttyS1'')
     (start_events @ [GClear] @ replicate 7 (GJob (quiet_in 5))) cancelled_gw"
  using gw_steps_append [OF gw_steps_Cons [OF cancelled_gw_steps gw_step.Clear] started_gw_steps] by simp


theorem gateway_results_final_witness:
  "\<exists>r'. get_job ''0badcafe'' (gw_store (clear_running cancelled_gw)) = Inr r' \<and> CANCELLED \<le> jr_status r' \<and>
     r' = \<lparr>jr_status = CANCELLED, jr_message = ''CANCELLED'', jr_qr = None\<rparr>"
proof -
  have "get_job ''0badcafe'' (gw_store cancelled_gw) =
      Inr \<lparr>jr_status = CANCELLED, jr_message = ''CANCELLED'', jr_qr = None\<rparr>" by code_simp
  moreover have "gw_steps (\<lambda>_. False) cancelled_gw [GClear] (clear_running cancelled_gw)"
    using gw_steps_Cons [OF gw_steps.no_step gw_step.Clear] .
  ultimately show ?thesis using gateway_results_final [OF cancelled_gw_reached] by fastforce
qed

theorem gateway_dispatch_history_witness:
  "\<exists>fs. gw_disp started_gw = disp_run (\<lambda>_. False) fs (new_Dispatcher new_Core) \<and>
    filter (\<lambda>x. x \<noteq> OpFinish) (submitted fs) = requested start_events \<and>
    count_list (submitted fs) OpFinish + unfinished started_gw = launches start_events"
  by (rule gateway_dispatch_history [OF started_gw_steps]) (simp add: start_events_def)

definition late_events :: "gw_event list" where
  "late_events = [GSubmit (OpSync ''STATUS''), GBaud 9600] @ replicate 4 (GJob (quiet_in 100000000)) @
     [GWorker, GJoin, GLaunch ''11111111'' 50]"

definition late_gw :: Gateway where
  "late_gw = the (gw_run (\<lambda>_. False) late_events started_gw)"

lemma late_gw_steps: "gw_steps (\<lambda>_. False) started_gw late_events late_gw"
proof (rule gw_run_steps)
  have "gw_run (\<lambda>_. False) late_events started_gw \<noteq> None" by code_simp
  then show "gw_run (\<lambda>_. False) late_events started_gw = Some late_gw" by (simp add: late_gw_def)
qed

lemma started_gw_thread:
  "r_worker (gw_jobs started_gw) =
     Some \<lparr>jt_id = ''0badcafe'', jt_pc = JLoop, jt_reopen = 1000, jt_deadline = 100000000, jt_enc = []\<rparr>"
  by code_simp

theorem gateway_job_ends_witness:
  "\<exists>r. get_job ''0badcafe'' (gw_store late_gw) = Inr r \<and> jr_status r \<noteq> PENDING \<and> wf_result r"
proof -
  have "list_all (late_event ''0badcafe'' 100000000) late_events" by code_simp
  then show ?thesis
    using gateway_job_ends [OF started_gw_steps started_gw_thread _ late_gw_steps]
    by (simp add: started_def late_events_def eval_nat_numeral)
qed

theorem stop_cancels_job_witness:
  "(\<exists>r. get_job ''0badcafe'' (gw_store cancelled_gw) = Inr r \<and> jr_status r \<in> {CANCELLED, TIMEOUT} \<and> jr_qr r = None) \<and>
    (\<exists>g''. join cancelled_gw = Some g'' \<and> r_worker (gw_jobs g'') = None)"
  using stop_cancels_job [OF started_gw_steps started_gw_thread _ _ cancelled_gw_steps] by (simp add: eval_nat_numeral)

end
