(* ===== verification/Rest_Server.thy ===== *)
theory Rest_Server
  imports Gateway_System
begin

text \<open>
  \<^verbatim>\<open>adapters/rest/RestServer.cpp\<close>: the six handlers. The JSON library and the HTTP server are
  Crow; what the handlers use of its reader is the record \<open>crow_json\<close>, an argument of the
  handlers. A handler is a function of the gateway. Where it waits (for a future, for the job
  thread) the steps of the two internal threads in that time are an argument too.
\<close>

section \<open>What the handlers use of Crow\<close>

datatype json_type = TNull | TTrue | TFalse | TNumber | TString | TList | TObject

text \<open>A finite double is an integer times a power of two.\<close>

datatype dbl = Finite int int | Infinite bool | NotANumber

definition isfinite :: "dbl \<Rightarrow> bool" where
  "isfinite d = (case d of Finite m e \<Rightarrow> True | _ \<Rightarrow> False)"

text \<open>\<^verbatim>\<open>std::floor(d) == d\<close> (false of a NaN), and the integer a finite \<open>d\<close> then denotes.\<close>

definition is_whole :: "dbl \<Rightarrow> bool" where
  "is_whole d = (case d of Finite m e \<Rightarrow> 0 \<le> e \<or> m mod 2 ^ nat (- e) = 0 | Infinite neg \<Rightarrow> True
      | NotANumber \<Rightarrow> False)"

definition whole_value :: "dbl \<Rightarrow> int" where
  "whole_value d =
     (case d of Finite m e \<Rightarrow> if 0 \<le> e then m * 2 ^ nat e else m div 2 ^ nat (- e) | _ \<Rightarrow> 0)"

text \<open>
  \<^verbatim>\<open>static_cast<long long>(d)\<close>: undefined when the value does not fit; \<open>ub\<close> is whatever the
  target computes in that case.
\<close>

definition to_long_long :: "(dbl \<Rightarrow> int) \<Rightarrow> dbl \<Rightarrow> int" where
  "to_long_long ub d = (if is_int64 (whole_value d) then whole_value d else ub d)"

text \<open>The reader: \<open>load\<close> gives \<open>None\<close> where the loaded value converts to false.\<close>

record 'j crow_json =
  cj_load :: "string \<Rightarrow> 'j option"
  cj_t :: "'j \<Rightarrow> json_type"
  cj_has :: "'j \<Rightarrow> string \<Rightarrow> bool"
  cj_at :: "'j \<Rightarrow> string \<Rightarrow> 'j"
  cj_s :: "'j \<Rightarrow> string"
  cj_d :: "'j \<Rightarrow> dbl"
  cj_i :: "'j \<Rightarrow> int"

text \<open>The writer: a value under construction, and assignment to a member.\<close>

datatype wvalue = WNull | WBool bool | WStr string | WObj "(string \<times> wvalue) list"

fun wput :: "string \<Rightarrow> wvalue \<Rightarrow> (string \<times> wvalue) list \<Rightarrow> (string \<times> wvalue) list" where
  "wput k v [] = [(k, v)]"
| "wput k v ((k', v') # kvs) = (if k = k' then (k, v) # kvs else (k', v') # wput k v kvs)"

definition wset :: "string \<Rightarrow> wvalue \<Rightarrow> wvalue \<Rightarrow> wvalue" where
  "wset k v w = (case w of WObj kvs \<Rightarrow> WObj (wput k v kvs) | _ \<Rightarrow> WObj [(k, v)])"

definition wget :: "string \<Rightarrow> wvalue \<Rightarrow> wvalue" where
  "wget k w =
     (case w of WObj kvs \<Rightarrow> (case map_of kvs k of None \<Rightarrow> WNull | Some v \<Rightarrow> v) | _ \<Rightarrow> WNull)"

record http_response =
  hr_code :: int
  hr_body :: wvalue
  hr_content_type :: string

section \<open>Helpers\<close>

definition job_status_to_string :: "JobStatus \<Rightarrow> string" where
  "job_status_to_string s =
     (case s of PENDING \<Rightarrow> ''PENDING'' | DONE \<Rightarrow> ''DONE'' | TIMEOUT \<Rightarrow> ''TIMEOUT''
      | CANCELLED \<Rightarrow> ''CANCELLED'')"

definition json_response :: "int \<Rightarrow> wvalue \<Rightarrow> http_response" where
  "json_response code out =
     \<lparr>hr_code = code, hr_body = out, hr_content_type = ''application/json''\<rparr>"

definition ensure_data_object :: "wvalue \<Rightarrow> wvalue" where
  "ensure_data_object out = wset ''data'' (WObj []) out"

definition error_response :: "int \<Rightarrow> string \<Rightarrow> http_response" where
  "error_response code msg =
     json_response code (wset ''message'' (WStr msg) (wset ''ok'' (WBool False) WNull))"

text \<open>\<open>Inl\<close> is the response in \<^verbatim>\<open>err\<close>, \<open>Inr\<close> the object in \<^verbatim>\<open>body\<close>.\<close>

definition parse_json_object :: "'j crow_json \<Rightarrow> string \<Rightarrow> http_response + 'j" where
  "parse_json_object cj req_body =
     (case cj_load cj req_body of
        None \<Rightarrow> Inl (error_response 400 ''ERR:BAD_REQUEST'')
      | Some body \<Rightarrow>
          if cj_t cj body \<noteq> TObject then Inl (error_response 400 ''ERR:BAD_REQUEST'')
          else Inr body)"

definition to_upper_ascii :: "string \<Rightarrow> string" where
  "to_upper_ascii s = map toupper_char s"

text \<open>
  The lambda \<^verbatim>\<open>parse_int_field\<close>: \<open>None\<close> is false; \<open>Some v\<close> is true with \<open>v\<close> in \<^verbatim>\<open>out\<close>, which
  keeps its value when the key is absent.
\<close>

definition parse_int_field ::
  "'j crow_json \<Rightarrow> (dbl \<Rightarrow> int) \<Rightarrow> 'j \<Rightarrow> string \<Rightarrow> int \<Rightarrow> int \<Rightarrow> int \<Rightarrow> int option" where
  "parse_int_field cj ub obj key out minv maxv =
     (if \<not> cj_has cj obj key then Some out
      else if cj_t cj (cj_at cj obj key) \<noteq> TNumber then None
      else (let d = cj_d cj (cj_at cj obj key)
            in if \<not> isfinite d then None
               else if \<not> is_whole d then None
               else (let v = to_long_long ub d
                     in if v < minv \<or> v > maxv then None else Some v)))"

section \<open>Waiting\<close>

text \<open>
  The steps of the internal threads while a handler waits. A handler ends with a response, or
  with an exception of the job thread, or is still in its wait.
\<close>

datatype bg = BgWorker | BgJob job_in

fun bg_event :: "bg \<Rightarrow> gw_event" where
  "bg_event BgWorker = GWorker"
| "bg_event (BgJob i) = GJob i"

datatype blocked = Throws | Waits

definition background :: "(nat \<Rightarrow> bool) \<Rightarrow> bg list \<Rightarrow> Gateway \<Rightarrow> blocked + Gateway" where
  "background thr sched g =
     (case gw_run thr (map bg_event sched) g of None \<Rightarrow> Inl Throws | Some g' \<Rightarrow> Inr g')"

text \<open>\<^verbatim>\<open>jobs_.stop()\<close>: the join returns only when the thread has.\<close>

definition runner_stop :: "(nat \<Rightarrow> bool) \<Rightarrow> bg list \<Rightarrow> Gateway \<Rightarrow> blocked + Gateway" where
  "runner_stop thr sched g =
     (case background thr sched (clear_running g) of
        Inl e \<Rightarrow> Inl e
      | Inr g1 \<Rightarrow> (case join g1 of None \<Rightarrow> Inl Waits | Some g2 \<Rightarrow> Inr g2))"

text \<open>\<^verbatim>\<open>jobs_.start(timeout_ms)\<close>.\<close>

definition runner_start ::
  "(nat \<Rightarrow> bool) \<Rightarrow> bg list \<Rightarrow> (nat \<Rightarrow> nat) \<Rightarrow> int \<Rightarrow> Gateway \<Rightarrow> blocked + job_id \<times> Gateway" where
  "runner_start thr sched rd timeout_ms g =
     (case runner_stop thr sched g of
        Inl e \<Rightarrow> Inl e
      | Inr g1 \<Rightarrow>
          (case launch (gen_id rd) timeout_ms g1 of
             None \<Rightarrow> Inl Throws
           | Some g2 \<Rightarrow> Inr (gen_id rd, g2)))"

text \<open>
  Submission and \<^verbatim>\<open>wait_for(500ms)\<close>: the steps until the handler looks at the future again;
  \<open>None\<close> is the future that is not ready.
\<close>

definition submit_and_wait ::
  "(nat \<Rightarrow> bool) \<Rightarrow> bg list \<Rightarrow> core_op \<Rightarrow> Gateway \<Rightarrow> blocked + Response option \<times> Gateway" where
  "submit_and_wait thr sched x g =
     (let (fut, d) = submit x (gw_disp g)
      in case background thr sched (g\<lparr>gw_disp := d\<rparr>) of
           Inl e \<Rightarrow> Inl e
         | Inr g1 \<Rightarrow> Inr (d_proms (gw_disp g1) fut, g1))"

section \<open>The handlers\<close>

record RestServer =
  rs_bind_addr :: string
  rs_port :: int
  rs_default_timeout_ms :: int

text \<open>The constructor keeps the references to the other objects, which are the gateway here.\<close>

definition new_RestServer :: "string \<Rightarrow> int \<Rightarrow> int \<Rightarrow> RestServer" where
  "new_RestServer bind_addr port default_timeout_ms =
     \<lparr>rs_bind_addr = bind_addr, rs_port = port, rs_default_timeout_ms = default_timeout_ms\<rparr>"

definition bad_request :: http_response where
  "bad_request = error_response 400 ''ERR:BAD_REQUEST''"

definition handle_health :: http_response where
  "handle_health =
     json_response 200 (wset ''message'' (WStr ''UP'') (wset ''ok'' (WBool True) WNull))"

text \<open>The handler reads the state of the core without going through the dispatcher.\<close>

definition handle_status :: "Gateway \<Rightarrow> http_response" where
  "handle_status g =
     json_response 200 (wset ''state'' (WStr (to_string (core_st (d_core (gw_disp g)))))
       (wset ''ok'' (WBool True) WNull))"

text \<open>
  \<^verbatim>\<open>/command\<close>: the validation of \<^verbatim>\<open>params\<close> (the values found there, -1 where absent), the
  baud rate of an INIT, the response, and the handler. \<open>None\<close> is the answer 400.
\<close>

definition command_params :: "'j crow_json \<Rightarrow> (dbl \<Rightarrow> int) \<Rightarrow> 'j \<Rightarrow> (int \<times> int) option" where
  "command_params cj ub body =
     (if \<not> cj_has cj body ''params'' then Some (- 1, - 1)
      else (let p = cj_at cj body ''params''
            in case parse_int_field cj ub p ''baudrate'' (- 1) 1 2000000 of
                 None \<Rightarrow> None
               | Some baud_ll \<Rightarrow>
                   (case parse_int_field cj ub p ''timeout_ms'' (- 1) 1 3600000 of
                      None \<Rightarrow> None
                    | Some tmo_ll \<Rightarrow>
                        Some (if baud_ll > 0 then int32_cast baud_ll else - 1,
                              if tmo_ll > 0 then int32_cast tmo_ll else - 1))))"

definition init_baudrate :: "'j crow_json \<Rightarrow> (dbl \<Rightarrow> int) \<Rightarrow> 'j \<Rightarrow> int \<Rightarrow> int option" where
  "init_baudrate cj ub body baud_from_params =
     (let top =
        (if \<not> cj_has cj body ''baudrate'' then Some (- 1)
         else if cj_t cj (cj_at cj body ''baudrate'') \<noteq> TNumber then None
         else (let d = cj_d cj (cj_at cj body ''baudrate'')
               in if \<not> isfinite d \<or> \<not> is_whole d then None
                  else (let v = to_long_long ub d
                        in if v < 1 \<or> v > 2000000 then None else Some (int32_cast v))))
      in case top of
           None \<Rightarrow> None
         | Some baud \<Rightarrow> Some (if baud < 0 \<and> baud_from_params > 0 then baud_from_params else baud))"

definition command_response :: "Response \<Rightarrow> http_response" where
  "command_response r =
     (let out = wset ''message'' (WStr (resp_message r))
            (wset ''state'' (WStr (to_string (resp_state r)))
              (wset ''command'' (WStr (resp_command r)) (wset ''ok'' (WBool (resp_ok r)) WNull)));
          out = ensure_data_object out;
          out = (case resp_qr r of None \<Rightarrow> out
                 | Some q \<Rightarrow> wset ''data'' (wset ''qr'' (WStr q) (wget ''data'' out)) out);
          out = (case resp_jobId r of None \<Rightarrow> out
                 | Some j \<Rightarrow> wset ''data'' (wset ''jobId'' (WStr j) (wget ''data'' out)) out)
      in json_response (http_status r) out)"

text \<open>Everything behind the validation: \<open>baud\<close> is -1 unless an INIT carries a rate.\<close>

definition run_command ::
  "(nat \<Rightarrow> bool) \<Rightarrow> bg list \<Rightarrow> bg list \<Rightarrow> string \<Rightarrow> int \<Rightarrow> Gateway \<Rightarrow> blocked + http_response \<times> Gateway" where
  "run_command thr s1 s2 cmd_up baud g =
     (let g1 = (if baud > 0 then g\<lparr>gw_jobs := set_baudrate baud (gw_jobs g)\<rparr> else g)
      in case (if cmd_up = ''STOP'' then runner_stop thr s1 g1 else Inr g1) of
           Inl e \<Rightarrow> Inl e
         | Inr g2 \<Rightarrow>
             (case submit_and_wait thr s2 (OpSync cmd_up) g2 of
                Inl e \<Rightarrow> Inl e
              | Inr (None, g3) \<Rightarrow> Inr (error_response 503 ''ERR:BUSY'', g3)
              | Inr (Some r, g3) \<Rightarrow> Inr (command_response r, g3)))"

text \<open>The validation: \<open>Inl\<close> is the early return, \<open>Inr\<close> the command and the baud rate to set.\<close>

definition parse_command ::
  "'j crow_json \<Rightarrow> (dbl \<Rightarrow> int) \<Rightarrow> string \<Rightarrow> http_response + string \<times> int" where
  "parse_command cj ub req_body =
     (case parse_json_object cj req_body of
        Inl err \<Rightarrow> Inl err
      | Inr body \<Rightarrow>
          if \<not> cj_has cj body ''command'' \<or> cj_t cj (cj_at cj body ''command'') \<noteq> TString
          then Inl bad_request
          else (let cmd = cj_s cj (cj_at cj body ''command'')
                in if cmd = [] then Inl bad_request
                   else if cj_has cj body ''params'' \<and> cj_t cj (cj_at cj body ''params'') \<noteq> TObject
                   then Inl bad_request
                   else (case command_params cj ub body of
                           None \<Rightarrow> Inl bad_request
                         | Some (baud_from_params, timeout_from_params) \<Rightarrow>
                             (let cmd_up = to_upper_ascii cmd
                              in case (if cmd_up = ''INIT''
                                       then init_baudrate cj ub body baud_from_params
                                       else Some (- 1)) of
                                   None \<Rightarrow> Inl bad_request
                                 | Some baud \<Rightarrow> Inr (cmd_up, baud)))))"

definition handle_command ::
  "'j crow_json \<Rightarrow> (dbl \<Rightarrow> int) \<Rightarrow> (nat \<Rightarrow> bool) \<Rightarrow> bg list \<Rightarrow> bg list \<Rightarrow> string \<Rightarrow> Gateway
     \<Rightarrow> blocked + http_response \<times> Gateway" where
  "handle_command cj ub thr s1 s2 req_body g =
     (case parse_command cj ub req_body of
        Inl err \<Rightarrow> Inr (err, g)
      | Inr (cmd_up, baud) \<Rightarrow> run_command thr s1 s2 cmd_up baud g)"

text \<open>The timeout of a job: the default of the server, or the number in the request.\<close>

definition start_timeout :: "RestServer \<Rightarrow> 'j crow_json \<Rightarrow> 'j \<Rightarrow> int option" where
  "start_timeout srv cj body =
     (if \<not> cj_has cj body ''timeout_ms'' then Some (rs_default_timeout_ms srv)
      else if cj_t cj (cj_at cj body ''timeout_ms'') \<noteq> TNumber then None
      else (let timeout_ms = int32_cast (cj_i cj (cj_at cj body ''timeout_ms''))
            in if timeout_ms \<le> 0 then None else Some timeout_ms))"

abbreviation start_response :: "job_id \<Rightarrow> State \<Rightarrow> http_response" where
  "start_response jobId st \<equiv>
     json_response 202
       (wset ''message'' (WStr ''ACCEPTED'')
         (wset ''state'' (WStr (to_string st))
           (wset ''jobId'' (WStr jobId) (wset ''ok'' (WBool True) WNull))))"

definition handle_start ::
  "RestServer \<Rightarrow> 'j crow_json \<Rightarrow> (nat \<Rightarrow> bool) \<Rightarrow> (nat \<Rightarrow> nat) \<Rightarrow> bg list \<Rightarrow> bg list \<Rightarrow> string \<Rightarrow> Gateway
     \<Rightarrow> blocked + http_response \<times> Gateway" where
  "handle_start srv cj thr rd s1 s2 req_body g =
     (case parse_json_object cj req_body of
        Inl err \<Rightarrow> Inr (err, g)
      | Inr body \<Rightarrow>
          (case start_timeout srv cj body of
             None \<Rightarrow> Inr (bad_request, g)
           | Some timeout_ms \<Rightarrow>
               (case submit_and_wait thr s1 (OpStart timeout_ms) g of
                  Inl e \<Rightarrow> Inl e
                | Inr (None, g1) \<Rightarrow> Inr (error_response 503 ''ERR:BUSY'', g1)
                | Inr (Some r, g1) \<Rightarrow>
                    if \<not> resp_ok r then Inr (error_response (http_status r) (resp_message r), g1)
                    else (case runner_start thr s2 rd timeout_ms g1 of
                            Inl e \<Rightarrow> Inl e
                          | Inr (jobId, g2) \<Rightarrow>
                              Inr (start_response jobId (core_st (d_core (gw_disp g2))), g2)))))"

abbreviation result_response :: "job_id \<Rightarrow> JobResult \<Rightarrow> State \<Rightarrow> http_response" where
  "result_response jid res st \<equiv>
     (let out = wset ''message'' (WStr (jr_message res))
            (wset ''state'' (WStr (to_string st))
              (wset ''status'' (WStr (job_status_to_string (jr_status res)))
                (wset ''jobId'' (WStr jid) (wset ''ok'' (WBool True) WNull))));
          out = ensure_data_object out;
          out = (case jr_qr res of None \<Rightarrow> out
                 | Some q \<Rightarrow> wset ''data'' (wset ''qr'' (WStr q) (wget ''data'' out)) out)
      in json_response 200 out)"

text \<open>\<^verbatim>\<open>get\<close> may throw; the guard \<^verbatim>\<open>exists\<close> stands before it.\<close>

definition handle_result :: "job_id \<Rightarrow> Gateway \<Rightarrow> exn + http_response" where
  "handle_result jid g =
     (if \<not> exists_job jid (gw_store g) then Inr (error_response 404 ''ERR:NOT_FOUND'')
      else (case get_job jid (gw_store g) of
              Inl e \<Rightarrow> Inl e
            | Inr res \<Rightarrow>
                Inr (result_response jid res (core_st (d_core (gw_disp g))))))"

abbreviation stop_response :: "Response \<Rightarrow> http_response" where
  "stop_response r \<equiv>
     json_response (http_status r)
       (wset ''message'' (WStr (resp_message r))
         (wset ''state'' (WStr (to_string (resp_state r))) (wset ''ok'' (WBool (resp_ok r)) WNull)))"

definition handle_stop ::
  "(nat \<Rightarrow> bool) \<Rightarrow> bg list \<Rightarrow> bg list \<Rightarrow> Gateway \<Rightarrow> blocked + http_response \<times> Gateway" where
  "handle_stop thr s1 s2 g =
     (case runner_stop thr s1 g of
        Inl e \<Rightarrow> Inl e
      | Inr g1 \<Rightarrow>
          (case submit_and_wait thr s2 OpStop g1 of
             Inl e \<Rightarrow> Inl e
           | Inr (None, g2) \<Rightarrow> Inr (error_response 503 ''ERR:BUSY'', g2)
           | Inr (Some r, g2) \<Rightarrow>
               Inr (stop_response r, g2)))"

section \<open>Lemmas on bodies\<close>

lemma map_of_wput: "map_of (wput k v kvs) = (map_of kvs)(k \<mapsto> v)"
  by (induction k v kvs rule: wput.induct) auto

lemma wget_wset [simp]: "wget k (wset k' v w) = (if k = k' then v else wget k w)"
  by (cases w) (simp_all add: wget_def wset_def map_of_wput)

lemma wget_Null [simp]: "wget k WNull = WNull" "wget k (WObj []) = WNull"
  by (simp_all add: wget_def)

lemma json_response_simps [simp]:
  "hr_code (json_response c out) = c" "hr_body (json_response c out) = out"
  by (simp_all add: json_response_def)

lemma error_response_simps [simp]:
  "hr_code (error_response c m) = c" "wget ''message'' (hr_body (error_response c m)) = WStr m"
  "wget ''ok'' (hr_body (error_response c m)) = WBool False"
  by (simp_all add: error_response_def)

lemma command_response_simps [simp]:
  "hr_code (command_response r) = http_status r"
  "wget ''message'' (hr_body (command_response r)) = WStr (resp_message r)"
  "wget ''state'' (hr_body (command_response r)) = WStr (to_string (resp_state r))"
  "wget ''ok'' (hr_body (command_response r)) = WBool (resp_ok r)"
  "wget ''command'' (hr_body (command_response r)) = WStr (resp_command r)"
  by (simp_all add: command_response_def ensure_data_object_def Let_def split: option.split)

section \<open>Lemmas on waiting\<close>

definition reaches :: "(nat \<Rightarrow> bool) \<Rightarrow> Gateway \<Rightarrow> Gateway \<Rightarrow> bool" where
  "reaches thr g g' \<longleftrightarrow> (\<exists>es. gw_steps thr g es g')"

lemma reaches_refl [simp]: "reaches thr g g"
  using gw_steps.no_step by (auto simp: reaches_def)

lemma reaches_trans: "reaches thr g g1 \<Longrightarrow> reaches thr g1 g2 \<Longrightarrow> reaches thr g g2"
  using gw_steps_append by (force simp: reaches_def)

lemma reaches_step: "gw_step thr g e g' \<Longrightarrow> reaches thr g g'"
  unfolding reaches_def by (rule exI [of _ "[e]"]) (rule gw_steps_Cons [OF gw_steps.no_step])

lemma reaches_ok: "reaches thr g g' \<Longrightarrow> gw_ok g \<Longrightarrow> gw_ok g'"
  using gw_ok_steps by (auto simp: reaches_def)

lemma bg_exec_ok: "gw_ok g \<Longrightarrow> \<exists>g'. gw_exec thr (bg_event x) g = Some g'"
proof (cases x)
  case (BgJob i)
  assume "gw_ok g"
  then have "job_known g" by (simp add: gw_ok_def)
  then show ?thesis using BgJob by (cases rule: runner_step_cases [where i = i]) auto
qed simp

lemma background_ok:
  assumes "gw_ok g"
  shows "\<exists>g'. background thr s g = Inr g' \<and> gw_steps thr g (map bg_event s) g'"
proof -
  have "\<exists>g'. gw_run thr (map bg_event s) g = Some g'" using assms
  proof (induction s arbitrary: g)
    case (Cons x s)
    obtain g1 where g1: "gw_exec thr (bg_event x) g = Some g1" using bg_exec_ok [OF Cons.prems] by blast
    then have "gw_ok g1" using Cons.prems gw_ok_step gw_step_exec by blast
    then show ?case using Cons.IH [of g1] g1 by simp
  qed simp
  then show ?thesis by (auto simp: background_def dest: gw_run_steps)
qed

lemma background_reaches: "background thr s g = Inr g' \<Longrightarrow> reaches thr g g'"
  by (auto simp: background_def reaches_def split: option.splits dest: gw_run_steps)

lemma background_idle:
  "background thr (replicate n BgWorker) g = Inr (g\<lparr>gw_disp := (worker_step thr ^^ n) (gw_disp g)\<rparr>)"
proof -
  have "gw_run thr (map bg_event (replicate n BgWorker)) g
      = Some (g\<lparr>gw_disp := (worker_step thr ^^ n) (gw_disp g)\<rparr>)"
  proof (induction n arbitrary: g)
    case (Suc n)
    then show ?case by (simp del: funpow.simps add: funpow_Suc_shift)
  qed simp
  then show ?thesis by (simp add: background_def)
qed

lemma runner_stop_reaches:
  assumes "runner_stop thr s g = Inr g'"
  shows "reaches thr g g'" and "r_worker (gw_jobs g') = None"
proof -
  obtain g1 where b: "background thr s (clear_running g) = Inr g1" and j: "join g1 = Some g'"
    using assms by (auto simp: runner_stop_def split: sum.splits option.splits)
  show "reaches thr g g'"
    using reaches_step [OF gw_step.Clear] background_reaches [OF b] reaches_step [OF gw_step.Join [OF j]]
    by (blast intro: reaches_trans)
  show "r_worker (gw_jobs g') = None" using j by (auto simp: join_def split: option.splits if_splits)
qed

text \<open>Enough steps of the job thread in a schedule to end a stop.\<close>

definition lets_job_stop :: "bg list \<Rightarrow> bool" where
  "lets_job_stop s \<longleftrightarrow> 7 \<le> job_steps (map bg_event s)"

lemma launches_bg [simp]: "launches (map bg_event s) = 0"
proof (induction s)
  case (Cons x s)
  then show ?case by (cases x) simp_all
qed simp

lemma runner_stop_ok: "gw_ok g \<Longrightarrow> runner_stop thr s g \<noteq> Inl Throws"
  using background_ok [OF gw_ok_clear, of g thr s]
  by (auto simp: runner_stop_def split: option.splits)

lemma runner_stop_returns:
  assumes "gw_ok g" and "lets_job_stop s"
  shows "\<exists>g'. runner_stop thr s g = Inr g'"
proof -
  have ok: "gw_ok (clear_running g)" by (rule gw_ok_clear [OF assms(1)])
  obtain g1 where b: "background thr s (clear_running g) = Inr g1"
    and st: "gw_steps thr (clear_running g) (map bg_event s) g1" using background_ok [OF ok] by blast
  have "\<not> r_running (gw_jobs (clear_running g))" by (simp add: clear_running_def)
  then have "steps_left g1 = 0"
    using stop_steps [OF st ok] assms(2) steps_left_max [of "clear_running g"]
    by (fastforce simp: lets_job_stop_def)
  then show ?thesis using b join_enabled [of g1] by (auto simp: runner_stop_def)
qed

lemma submit_and_wait_alt:
  "submit_and_wait thr s x g =
     (case background thr s (g\<lparr>gw_disp := snd (submit x (gw_disp g))\<rparr>) of
        Inl e \<Rightarrow> Inl e
      | Inr g1 \<Rightarrow> Inr (d_proms (gw_disp g1) (d_next (gw_disp g)), g1))"
  by (simp add: submit_and_wait_def split_def Let_def split: sum.split)

lemma submit_and_wait_reaches:
  "submit_and_wait thr s x g = Inr (r, g') \<Longrightarrow> reaches thr g g'"
  by (auto simp: submit_and_wait_alt split: sum.splits dest!: background_reaches
      intro: reaches_trans [OF reaches_step [OF gw_step.Submit]])

lemma submit_and_wait_returns:
  "gw_ok g \<Longrightarrow> \<exists>r g'. submit_and_wait thr s x g = Inr (r, g')"
  using background_ok [of "g\<lparr>gw_disp := snd (submit x (gw_disp g))\<rparr>" thr s]
  by (auto simp: submit_and_wait_alt)

lemma submit_and_wait_served:
  assumes "at_rest (gw_disp g)" and "\<not> thr (d_next (gw_disp g))" and "3 \<le> n"
  shows "submit_and_wait thr (replicate n BgWorker) x g =
    Inr (Some (fst (core_exec x (d_core (gw_disp g)))),
      g\<lparr>gw_disp := (gw_disp g)\<lparr>d_next := Suc (d_next (gw_disp g)),
          d_core := snd (core_exec x (d_core (gw_disp g))),
          d_proms := (d_proms (gw_disp g))(d_next (gw_disp g) \<mapsto> fst (core_exec x (d_core (gw_disp g))))\<rparr>\<rparr>)"
  by (simp add: submit_and_wait_alt background_idle served [where thr = thr, OF assms])

lemma runner_start_reaches:
  assumes "runner_start thr s rd tmo g = Inr (jid, g')"
  shows "reaches thr g g' \<and> jid = gen_id rd \<and> r_running (gw_jobs g') \<and>
    r_worker (gw_jobs g') = Some (new_thread jid tmo) \<and> get_job jid (gw_store g') = Inr new_JobResult"
proof -
  obtain g1 where st: "runner_stop thr s g = Inr g1" and l: "launch (gen_id rd) tmo g1 = Some g'"
    and j: "jid = gen_id rd"
    using assms by (auto simp: runner_start_def split: sum.splits option.splits)
  have "reaches thr g g'"
    using reaches_trans [OF runner_stop_reaches(1) [OF st] reaches_step [OF gw_step.Launch [OF l]]] .
  then show ?thesis using l j by (auto simp: launch_def store.fetch_new split: if_splits)
qed

lemma runner_start_returns:
  assumes "gw_ok g" and "lets_job_stop s"
  shows "\<exists>jid g'. runner_start thr s rd tmo g = Inr (jid, g')"
proof -
  obtain g1 where "runner_stop thr s g = Inr g1" using runner_stop_returns [OF assms] by blast
  then show ?thesis using runner_stop_reaches(2) by (force simp: runner_start_def launch_def)
qed

section \<open>The routes\<close>

text \<open>
  What a request is served with besides the gateway: the server object, the JSON reader, the
  out-of-range conversion, the calls that throw, the random draws, and what happens during the
  two waits of a handler.
\<close>

record 'j rest_env =
  re_srv :: RestServer
  re_json :: "'j crow_json"
  re_ub :: "dbl \<Rightarrow> int"
  re_thr :: "nat \<Rightarrow> bool"
  re_rd :: "nat \<Rightarrow> nat"
  re_s1 :: "bg list"
  re_s2 :: "bg list"

datatype http_request =
    GetHealth | GetStatus | PostCommand string | PostStart string | GetResult job_id | PostStop

fun serve :: "'j rest_env \<Rightarrow> http_request \<Rightarrow> Gateway \<Rightarrow> blocked + http_response \<times> Gateway" where
  "serve e GetHealth g = Inr (handle_health, g)"
| "serve e GetStatus g = Inr (handle_status g, g)"
| "serve e (PostCommand b) g =
     handle_command (re_json e) (re_ub e) (re_thr e) (re_s1 e) (re_s2 e) b g"
| "serve e (PostStart b) g =
     handle_start (re_srv e) (re_json e) (re_thr e) (re_rd e) (re_s1 e) (re_s2 e) b g"
| "serve e (GetResult jid) g =
     (case handle_result jid g of Inl x \<Rightarrow> Inl Throws | Inr resp \<Rightarrow> Inr (resp, g))"
| "serve e PostStop g = handle_stop (re_thr e) (re_s1 e) (re_s2 e) g"

text \<open>A predicate on answers holds of a handler's outcome if it answers and the answer satisfies it.\<close>

definition answers :: "blocked + http_response \<times> Gateway \<Rightarrow> (http_response \<Rightarrow> Gateway \<Rightarrow> bool) \<Rightarrow> bool" where
  "answers out P = (case out of Inl e \<Rightarrow> False | Inr (resp, g) \<Rightarrow> P resp g)"

lemma answers_Inr [simp]: "answers (Inr (resp, g)) P = P resp g"
  by (simp add: answers_def)

text \<open>The documented status codes, and their agreement with the member \<^verbatim>\<open>ok\<close> of the body.\<close>

definition good_response :: "http_response \<Rightarrow> bool" where
  "good_response resp \<longleftrightarrow> hr_code resp \<in> {200, 202, 400, 404, 409, 500, 503} \<and>
     wget ''ok'' (hr_body resp) = WBool (hr_code resp \<in> {200, 202})"

lemma good_error: "c \<in> {400, 404, 409, 500, 503} \<Longrightarrow> good_response (error_response c m)"
  by (auto simp: good_response_def)

lemma good_bad_request [simp]: "good_response bad_request"
  by (simp add: bad_request_def good_error)

definition good_reply :: "Response \<Rightarrow> bool" where
  "good_reply r \<longleftrightarrow> http_status r \<in> {200, 202, 400, 409, 500} \<and>
     (resp_ok r \<longleftrightarrow> http_status r \<in> {200, 202})"

lemma good_reply_exec: "good_reply (fst (guarded_exec b x c))"
  using core_exec_ok [of x c] core_exec_fail [of x c]
  by (auto simp: good_reply_def guarded_exec_def new_Response_def)

definition live :: "(nat \<Rightarrow> bool) \<Rightarrow> Gateway \<Rightarrow> bool" where
  "live thr g \<longleftrightarrow> (\<exists>port es. gw_steps thr (new_Gateway port) es g)"

lemma live_ok: "live thr g \<Longrightarrow> gw_ok g"
  using gw_ok_steps [OF _ gw_ok_new] by (auto simp: live_def)

lemma live_reaches: "live thr g \<Longrightarrow> reaches thr g g' \<Longrightarrow> live thr g'"
  using gw_steps_append unfolding live_def reaches_def by blast

lemma live_prom: "live thr g \<Longrightarrow> d_proms (gw_disp g) f = Some r \<Longrightarrow> good_reply r"
proof -
  assume "live thr g" and p: "d_proms (gw_disp g) f = Some r"
  then obtain port es where "gw_steps thr (new_Gateway port) es g" by (auto simp: live_def)
  from disp_history_steps [OF this HOL.refl]
  obtain fs where "gw_disp g = disp_run thr fs (new_Dispatcher new_Core)"
    by (auto simp: disp_history_def)
  then obtain k where "serial_at thr (submitted fs) new_Core k (gw_disp g)"
    using serial_at_run [of thr fs new_Core] by auto
  then have "r = serial_response thr (submitted fs) new_Core f"
    using p by (auto simp: serial_at_def split: if_splits)
  then show "good_reply r" by (simp add: serial_response_def good_reply_exec)
qed

lemma wait_outcome:
  assumes "live thr g"
  obtains r g' where "submit_and_wait thr s x g = Inr (r, g')" "live thr g'" "reaches thr g g'"
    "pred_option good_reply r"
proof -
  obtain r g' where w: "submit_and_wait thr s x g = Inr (r, g')"
    using submit_and_wait_returns [OF live_ok [OF assms]] by blast
  have re: "reaches thr g g'" by (rule submit_and_wait_reaches [OF w])
  have l: "live thr g'" by (rule live_reaches [OF assms re])
  have "r = d_proms (gw_disp g') (d_next (gw_disp g))"
    using w by (auto simp: submit_and_wait_alt split: sum.splits)
  then have "pred_option good_reply r"
    using live_prom [OF l, of "d_next (gw_disp g)"] by (auto simp: pred_option_def)
  then show thesis using that w l re by blast
qed

lemma runner_stop_outcome:
  "live thr g \<Longrightarrow> lets_job_stop s \<Longrightarrow> \<exists>g'. runner_stop thr s g = Inr g' \<and> reaches thr g g'"
  using runner_stop_returns [OF live_ok] runner_stop_reaches(1) by blast

lemma good_command_response: "good_reply r \<Longrightarrow> good_response (command_response r)"
  by (auto simp: good_reply_def good_response_def)

lemma run_command_answers:
  assumes "live thr g" and "lets_job_stop s1"
  shows "answers (run_command thr s1 s2 cmd baud g) (\<lambda>resp g'. reaches thr g g' \<and> good_response resp)"
proof -
  let ?g1 = "if baud > 0 then g\<lparr>gw_jobs := set_baudrate baud (gw_jobs g)\<rparr> else g"
  have r1: "reaches thr g ?g1" using reaches_step [OF gw_step.Baud] by simp
  have "\<exists>g2. (if cmd = ''STOP'' then runner_stop thr s1 ?g1 else Inr ?g1) = Inr g2 \<and> reaches thr ?g1 g2"
    using runner_stop_outcome [OF live_reaches [OF assms(1) r1] assms(2)]
    by (cases "cmd = ''STOP''") auto
  then obtain g2 where st: "(if cmd = ''STOP'' then runner_stop thr s1 ?g1 else Inr ?g1) = Inr g2"
    and r2: "reaches thr ?g1 g2" by blast
  have l2: "live thr g2" using live_reaches assms(1) r1 r2 by blast
  show ?thesis
  proof (rule wait_outcome [OF l2, of s2 "OpSync cmd"])
    fix r g3
    assume "submit_and_wait thr s2 (OpSync cmd) g2 = Inr (r, g3)" and "reaches thr g2 g3"
      and "pred_option good_reply r"
    then show ?thesis using r1 r2 unfolding run_command_def Let_def st
      by (cases r) (auto intro: reaches_trans good_error good_command_response)
  qed
qed

lemma parse_command_error: "parse_command cj ub b = Inl err \<Longrightarrow> err = bad_request"
  by (auto simp: parse_command_def parse_json_object_def Let_def simp flip: bad_request_def
      split: option.splits if_splits)

lemma handle_command_answers:
  assumes "live thr g" and "lets_job_stop s1"
  shows "answers (handle_command cj ub thr s1 s2 b g) (\<lambda>resp g'. reaches thr g g' \<and> good_response resp)"
  using run_command_answers [OF assms] parse_command_error [of cj ub b]
  by (auto simp: handle_command_def split: sum.split)

lemma handle_stop_answers:
  assumes "live thr g" and "lets_job_stop s1"
  shows "answers (handle_stop thr s1 s2 g) (\<lambda>resp g'. reaches thr g g' \<and> good_response resp)"
proof -
  obtain g1 where st: "runner_stop thr s1 g = Inr g1" and r1: "reaches thr g g1"
    using runner_stop_outcome [OF assms] by blast
  show ?thesis
  proof (rule wait_outcome [OF live_reaches [OF assms(1) r1], of s2 OpStop])
    fix r g2
    assume "submit_and_wait thr s2 OpStop g1 = Inr (r, g2)" and "reaches thr g1 g2"
      and "pred_option good_reply r"
    then show ?thesis using r1 st unfolding handle_stop_def
      by (cases r) (auto intro: reaches_trans good_error simp: good_response_def good_reply_def)
  qed
qed

lemma handle_start_answers:
  assumes "live thr g" and "lets_job_stop s2"
  shows "answers (handle_start srv cj thr rd s1 s2 b g) (\<lambda>resp g'. reaches thr g g' \<and> good_response resp)"
proof -
  have "answers
     (case submit_and_wait thr s1 (OpStart tmo) g of
        Inl e \<Rightarrow> Inl e
      | Inr (None, g1) \<Rightarrow> Inr (error_response 503 ''ERR:BUSY'', g1)
      | Inr (Some r, g1) \<Rightarrow>
          if \<not> resp_ok r then Inr (error_response (http_status r) (resp_message r), g1)
          else (case runner_start thr s2 rd tmo g1 of
                  Inl e \<Rightarrow> Inl e
                | Inr (jobId, g2) \<Rightarrow>
                    Inr (json_response 202
                      (wset ''message'' (WStr ''ACCEPTED'')
                        (wset ''state'' (WStr (to_string (core_st (d_core (gw_disp g2)))))
                          (wset ''jobId'' (WStr jobId) (wset ''ok'' (WBool True) WNull)))),
                      g2)))
     (\<lambda>resp g'. reaches thr g g' \<and> good_response resp)" for tmo
  proof (rule wait_outcome [OF assms(1), of s1 "OpStart tmo"])
    fix r g1
    assume w: "submit_and_wait thr s1 (OpStart tmo) g = Inr (r, g1)" and r1: "reaches thr g g1"
      and p: "pred_option good_reply r" and l: "live thr g1"
    obtain jid g2 where st: "runner_start thr s2 rd tmo g1 = Inr (jid, g2)"
      using runner_start_returns [OF live_ok [OF l] assms(2)] by blast
    then have "reaches thr g1 g2" using runner_start_reaches by blast
    then show ?thesis using w r1 p st
      by (cases r) (auto intro: reaches_trans good_error simp: good_response_def good_reply_def)
  qed
  then show ?thesis unfolding handle_start_def parse_json_object_def bad_request_def [symmetric] Let_def
    by (auto split: option.split)
qed

lemma handle_result_answers: "\<exists>resp. handle_result jid g = Inr resp \<and> good_response resp"
proof (cases "exists_job jid (gw_store g)")
  case True
  then obtain r where "get_job jid (gw_store g) = Inr r" using store.guarded_fetch by blast
  then show ?thesis using True
    by (simp add: handle_result_def Let_def good_response_def ensure_data_object_def split: option.split)
qed (simp add: handle_result_def good_error)

lemma serve_answers:
  assumes "live (re_thr e) g" and "lets_job_stop (re_s1 e)" and "lets_job_stop (re_s2 e)"
  shows "answers (serve e req g) (\<lambda>resp g'. reaches (re_thr e) g g' \<and> good_response resp)"
proof (cases req)
  case (GetResult jid)
  then show ?thesis using handle_result_answers [of jid g] by auto
next
  case GetHealth
  then show ?thesis by (simp add: handle_health_def good_response_def)
next
  case GetStatus
  then show ?thesis by (simp add: handle_status_def good_response_def)
qed (simp_all add: assms handle_command_answers handle_start_answers handle_stop_answers)

section \<open>The backlog during a wait\<close>

lemma bg_backlog:
  assumes "gw_exec thr (bg_event x) g = Some g'" and "gw_ok g" and "d_worker (gw_disp g) \<noteq> Exited"
    and "\<not> d_stopping (gw_disp g)"
  shows "d_worker (gw_disp g') \<noteq> Exited \<and> \<not> d_stopping (gw_disp g') \<and>
    work_left (gw_disp g') + 3 * unfinished g' \<le> work_left (gw_disp g) + 3 * unfinished g"
proof (cases x)
  case BgWorker
  have "d_worker (worker_step thr (gw_disp g)) \<noteq> Exited"
    using worker_step_not_Exited [OF assms(3)] worker_step_idle [OF assms(3)] assms(3,4)
    by (cases "work_left (gw_disp g) = 0") simp_all
  then show ?thesis using assms(1,4) work_left_step [OF assms(3)] BgWorker
    by (auto simp: unfinished_def)
next
  case (BgJob i)
  have run: "runner_step i g = Inr g'" using assms(1) BgJob by (auto split: sum.splits)
  have "job_known g" using assms(2) by (simp add: gw_ok_def)
  then show ?thesis
    by (cases rule: runner_step_cases [where i = i])
      (use run assms(3,4) in \<open>auto simp: unfinished_def submit_eq work_left_def\<close>)
qed

lemma background_backlog:
  assumes "background thr s g = Inr g'" and "gw_ok g" and "d_worker (gw_disp g) \<noteq> Exited"
    and "\<not> d_stopping (gw_disp g)"
  shows "d_worker (gw_disp g') \<noteq> Exited \<and> \<not> d_stopping (gw_disp g') \<and>
    work_left (gw_disp g') + 3 * unfinished g' \<le> work_left (gw_disp g) + 3 * unfinished g"
proof -
  have "gw_run thr (map bg_event s) g = Some g'"
    using assms(1) by (auto simp: background_def split: option.splits)
  then show ?thesis using assms(2-4)
  proof (induction s arbitrary: g)
    case (Cons x s)
    obtain g1 where g1: "gw_exec thr (bg_event x) g = Some g1" "gw_run thr (map bg_event s) g1 = Some g'"
      using Cons.prems(1) by (auto split: option.splits)
    have "gw_ok g1" using g1(1) Cons.prems(2) gw_ok_step gw_step_exec by blast
    then show ?case using Cons.IH [OF g1(2)] bg_backlog [OF g1(1) Cons.prems(2-4)] by linarith
  qed simp
qed

lemma unfinished_le: "unfinished g \<le> 1"
  by (simp add: unfinished_def split: option.split)

lemma live_serial:
  assumes "live thr g"
  obtains xs k where "serial_at thr xs new_Core k (gw_disp g)"
proof -
  obtain port es where "gw_steps thr (new_Gateway port) es g" using assms by (auto simp: live_def)
  from disp_history_steps [OF this HOL.refl]
  obtain fs where "gw_disp g = disp_run thr fs (new_Dispatcher new_Core)"
    by (auto simp: disp_history_def)
  then show thesis using that serial_at_run [of thr fs new_Core] by metis
qed

text \<open>A call submitted last is answered last: its response and the core are those of its execution.\<close>

lemma serial_at_worker_steps:
  "serial_at thr xs c k d \<Longrightarrow> \<exists>k'. serial_at thr xs c k' ((worker_step thr ^^ n) d)"
proof (induction n)
  case (Suc n)
  then show ?case using serial_at_worker by (metis funpow.simps(2) o_apply)
qed auto

lemma last_call_served:
  assumes "serial_at thr xs c k d" and "d_worker d \<noteq> Exited" and "work_left d + 3 \<le> n"
  shows "\<exists>c'. d_proms ((worker_step thr ^^ n) (snd (submit x d))) (d_next d) =
      Some (fst (guarded_exec (thr (length xs)) x c')) \<and>
    d_core ((worker_step thr ^^ n) (snd (submit x d))) = snd (guarded_exec (thr (length xs)) x c')"
proof -
  let ?d1 = "snd (submit x d)"
  let ?d2 = "(worker_step thr ^^ n) ?d1"
  have nx: "d_next d = length xs" using assms(1) by (simp add: serial_at_def)
  have s1: "serial_at thr (xs @ [x]) c k ?d1" using serial_at_submit [OF assms(1)] by simp
  have "work_left ?d1 \<le> n" using assms(3) by (auto simp: submit_eq work_left_def)
  then have w: "work_left ?d2 = 0"
    using assms(2) by (intro worker_steps_done) (simp_all add: submit_eq)
  obtain k' where s2: "serial_at thr (xs @ [x]) c k' ?d2" using serial_at_worker_steps [OF s1] by blast
  have k': "k' = Suc (length xs)" using serial_at_all_answered [OF s2 w] by simp
  have "d_proms ?d2 (length xs) = Some (serial_response thr (xs @ [x]) c (length xs))"
    using s2 k' by (simp add: serial_at_def)
  moreover have "d_core ?d2 = serial_core thr (xs @ [x]) c (Suc (length xs))"
    using s2 k' w by (auto simp: serial_at_def work_left_def split: worker_pc.splits)
  ultimately show ?thesis unfolding nx by (auto simp: serial_response_def)
qed

section \<open>Properties of the handlers\<close>


lemma no_thread_no_pending:
  "gw_ok g \<Longrightarrow> r_worker (gw_jobs g) = None \<Longrightarrow> get_job jid (gw_store g) = Inr r \<Longrightarrow> jr_status r \<noteq> PENDING"
  by (auto simp: gw_ok_def pending_owned_def working_on_def store.fetch_look split: option.splits)

lemma runner_stop_backlog:
  assumes "runner_stop thr s g = Inr g'" and "gw_ok g" and "d_worker (gw_disp g) \<noteq> Exited"
    and "\<not> d_stopping (gw_disp g)"
  shows "d_worker (gw_disp g') \<noteq> Exited \<and> work_left (gw_disp g') \<le> work_left (gw_disp g) + 3"
proof -
  obtain g1 where b: "background thr s (clear_running g) = Inr g1" and j: "join g1 = Some g'"
    using assms(1) by (auto simp: runner_stop_def split: sum.splits option.splits)
  have d: "gw_disp (clear_running g) = gw_disp g" "gw_disp g' = gw_disp g1"
    using j by (auto simp: clear_running_def join_def split: option.splits if_splits)
  show ?thesis
    using background_backlog [OF b gw_ok_clear [OF assms(2)]] assms(3,4) unfinished_le [of "clear_running g"]
    unfolding d by linarith
qed

text \<open>
  C11: \<^verbatim>\<open>/stop\<close> stops everything, whatever the backlog: from every reachable state with a living
  dispatcher, with enough worker steps for the calls still queued, it answers 200 with state
  STOPPED, the core is STOPPED, there is no job thread any more, and no job is left PENDING.
\<close>

theorem stop_stops_everything:
  assumes "gw_steps thr (new_Gateway port) es g" and "d_worker (gw_disp g) \<noteq> Exited"
    and "\<not> d_stopping (gw_disp g)" and "\<forall>k. \<not> thr k" and "lets_job_stop s1"
    and "work_left (gw_disp g) + 6 \<le> n"
  shows "\<exists>resp g'. handle_stop thr s1 (replicate n BgWorker) g = Inr (resp, g') \<and>
    hr_code resp = 200 \<and> wget ''state'' (hr_body resp) = WStr ''STOPPED'' \<and>
    core_st (d_core (gw_disp g')) = STOPPED \<and> r_worker (gw_jobs g') = None \<and>
    (\<forall>jid r. get_job jid (gw_store g') = Inr r \<longrightarrow> jr_status r \<noteq> PENDING)"
proof -
  have l: "live thr g" using assms(1) by (auto simp: live_def)
  obtain g1 where st: "runner_stop thr s1 g = Inr g1" and r1: "reaches thr g g1"
    using runner_stop_outcome [OF l assms(5)] by blast
  have l1: "live thr g1" by (rule live_reaches [OF l r1])
  have b: "d_worker (gw_disp g1) \<noteq> Exited" "work_left (gw_disp g1) + 3 \<le> n"
    using runner_stop_backlog [OF st live_ok [OF l] assms(2,3)] assms(6) by auto
  obtain xs k where "serial_at thr xs new_Core k (gw_disp g1)" by (rule live_serial [OF l1])
  from last_call_served [OF this b, of OpStop] obtain c' where
    c: "d_proms ((worker_step thr ^^ n) (snd (submit OpStop (gw_disp g1)))) (d_next (gw_disp g1)) = Some (fst (core_stop c'))"
      "d_core ((worker_step thr ^^ n) (snd (submit OpStop (gw_disp g1)))) = snd (core_stop c')"
    using assms(4) by (auto simp: guarded_exec_def)
  let ?g2 = "g1\<lparr>gw_disp := (worker_step thr ^^ n) (snd (submit OpStop (gw_disp g1)))\<rparr>"
  have w: "submit_and_wait thr (replicate n BgWorker) OpStop g1 = Inr (Some (fst (core_stop c')), ?g2)"
    using c(1) by (simp add: submit_and_wait_alt background_idle del: submit.simps)
  have n: "r_worker (gw_jobs ?g2) = None" using runner_stop_reaches(2) [OF st] by simp
  have "gw_ok ?g2" using live_ok [OF l1] by simp
  then have "\<forall>jid r. get_job jid (gw_store ?g2) = Inr r \<longrightarrow> jr_status r \<noteq> PENDING"
    using no_thread_no_pending n by blast
  then show ?thesis using st w n c(2)
    by (simp add: handle_stop_def core_stop_def new_Response_def to_string_def del: submit.simps)
qed

lemma handle_result_known:
  assumes "jobs (gw_store g) jid = Some r" and "wf_result r"
  shows "\<exists>resp. handle_result jid g = Inr resp \<and> hr_code resp = 200 \<and>
    wget ''jobId'' (hr_body resp) = WStr jid \<and>
    wget ''status'' (hr_body resp) = WStr (job_status_to_string (jr_status r)) \<and>
    wget ''message'' (hr_body resp) = WStr (jr_message r) \<and>
    wget ''qr'' (wget ''data'' (hr_body resp)) =
      (if jr_status r = DONE then WStr (the (jr_qr r)) else WNull)"
proof -
  have "(\<exists>q. jr_status r = DONE \<and> jr_qr r = Some q) \<or> jr_status r \<noteq> DONE \<and> jr_qr r = None"
    using assms(2) by (cases "jr_qr r") auto
  moreover have "handle_result jid g = Inr resp" if "resp = json_response 200
     (let out = ensure_data_object (wset ''message'' (WStr (jr_message r))
            (wset ''state'' (WStr (to_string (core_st (d_core (gw_disp g)))))
              (wset ''status'' (WStr (job_status_to_string (jr_status r)))
                (wset ''jobId'' (WStr jid) (wset ''ok'' (WBool True) WNull)))))
      in case jr_qr r of None \<Rightarrow> out
         | Some q \<Rightarrow> wset ''data'' (wset ''qr'' (WStr q) (wget ''data'' out)) out)" for resp
    using assms(1) that by (simp add: handle_result_def exists_job_def get_job_def at_job_def Let_def)
  ultimately show ?thesis
    by (elim disjE exE conjE) (simp_all add: ensure_data_object_def Let_def)
qed

text \<open>
  \<^verbatim>\<open>/result\<close> tells what the store holds: 404 exactly for an unknown identifier, otherwise 200
  with the status and message of the stored result, and with a QR payload exactly for a job
  that is DONE, namely the stored one; the lookup behind the guard never throws.
\<close>

lemma result_reports_store:
  assumes "gw_steps thr (new_Gateway port) es g"
  shows "\<exists>resp. handle_result jid g = Inr resp \<and>
    (case jobs (gw_store g) jid of
       None \<Rightarrow> hr_code resp = 404 \<and> wget ''message'' (hr_body resp) = WStr ''ERR:NOT_FOUND''
     | Some r \<Rightarrow> hr_code resp = 200 \<and> wget ''jobId'' (hr_body resp) = WStr jid \<and>
         wget ''status'' (hr_body resp) = WStr (job_status_to_string (jr_status r)) \<and>
         wget ''message'' (hr_body resp) = WStr (jr_message r) \<and>
         wget ''qr'' (wget ''data'' (hr_body resp)) =
           (if jr_status r = DONE then WStr (the (jr_qr r)) else WNull))"
proof (cases "jobs (gw_store g) jid")
  case None
  then show ?thesis by (simp add: handle_result_def exists_job_def)
next
  case (Some r)
  have "wf_store (gw_store g)" using gw_ok_steps [OF assms gw_ok_new] by (simp add: gw_ok_def)
  then have "wf_result r" using Some by (rule wf_storeD)
  from handle_result_known [OF Some this] show ?thesis using Some by simp
qed

text \<open>The event a command stands for and the answer of the lifecycle to it.\<close>

lemma core_exec_parts:
  "http_status (fst (core_exec x c)) = fst (lifecycle_reply (event_of x) (core_st c))"
  "resp_message (fst (core_exec x c)) = snd (lifecycle_reply (event_of x) (core_st c))"
  "resp_state (fst (core_exec x c)) = lifecycle (event_of x) (core_st c)"
  using core_exec_reply [of x c] core_exec_resp_state [of x c] core_exec_state [of x c]
  by (auto simp: prod_eq_iff)


lemma parse_int_field_range:
  "parse_int_field cj ub obj key out lo hi = Some v \<Longrightarrow> v = out \<or> lo \<le> v \<and> v \<le> hi"
  by (auto simp: parse_int_field_def Let_def split: if_splits)

lemma command_params_range:
  "command_params cj ub body = Some (bd, t) \<Longrightarrow> bd = - 1 \<or> 1 \<le> bd \<and> bd \<le> 2000000"
  by (auto simp: command_params_def Let_def split: option.splits if_splits dest!: parse_int_field_range)

lemma parse_command_range:
  "parse_command cj ub b = Inr (cmd, baud) \<Longrightarrow> baud = - 1 \<or> 1 \<le> baud \<and> baud \<le> 2000000"
  by (auto simp: parse_command_def init_baudrate_def Let_def split: option.splits if_splits sum.splits
      dest!: command_params_range)

lemma apply_acts_baud:
  "apply_acts jid as g = Inr g' \<Longrightarrow> r_baudrate (gw_jobs g') = r_baudrate (gw_jobs g)"
proof (induction as arbitrary: g)
  case (Cons a as)
  then show ?case by (cases a) (auto simp: upd_store_def split: sum.splits)
qed simp

lemma background_baud:
  assumes "background thr s g = Inr g'"
  shows "r_baudrate (gw_jobs g') = r_baudrate (gw_jobs g)"
proof -
  have one: "r_baudrate (gw_jobs g2) = r_baudrate (gw_jobs g1)"
    if "gw_exec thr (bg_event x) g1 = Some g2" for x g1 g2
    using that by (cases x) (auto simp: runner_step_def split: sum.splits option.splits prod.splits
        dest!: apply_acts_baud)
  have "gw_run thr (map bg_event s) g = Some g'"
    using assms by (auto simp: background_def split: option.splits)
  then show ?thesis
    by (induction s arbitrary: g) (auto split: option.splits dest!: one)
qed

lemma runner_stop_baud: "runner_stop thr s g = Inr g' \<Longrightarrow> r_baudrate (gw_jobs g') = r_baudrate (gw_jobs g)"
  by (auto simp: runner_stop_def join_def clear_running_def split: sum.splits option.splits if_splits
      dest!: background_baud)

lemma submit_and_wait_baud:
  "submit_and_wait thr s x g = Inr (r, g') \<Longrightarrow> r_baudrate (gw_jobs g') = r_baudrate (gw_jobs g)"
  by (auto simp: submit_and_wait_alt split: sum.splits dest!: background_baud)

lemma runner_start_baud:
  "runner_start thr s rd tmo g = Inr (jid, g') \<Longrightarrow> r_baudrate (gw_jobs g') = r_baudrate (gw_jobs g)"
  by (auto simp: runner_start_def launch_def split: sum.splits option.splits if_splits
      dest!: runner_stop_baud)

lemmas baud_frames = runner_stop_baud submit_and_wait_baud runner_start_baud

lemma run_command_baud:
  "run_command thr s1 s2 cmd baud g = Inr (resp, g') \<Longrightarrow>
     r_baudrate (gw_jobs g') = (if baud > 0 then baud else r_baudrate (gw_jobs g))"
  by (auto simp: run_command_def Let_def set_baudrate_def split: sum.splits option.splits if_splits
      dest!: baud_frames)

text \<open>
  The baud rate stays sane: whatever bytes a client sends and whatever the target makes of
  an out-of-range conversion, a request leaves the baud rate alone or sets it to a value
  between 1 and 2000000.
\<close>


lemma baudrate_stays_sane:
  assumes "serve e req g = Inr (resp, g')"
  shows "r_baudrate (gw_jobs g') = r_baudrate (gw_jobs g) \<or>
    1 \<le> r_baudrate (gw_jobs g') \<and> r_baudrate (gw_jobs g') \<le> 2000000"
proof (cases req)
  case (PostCommand b)
  then show ?thesis using assms
    by (auto simp: handle_command_def split: sum.splits prod.splits
        dest!: run_command_baud parse_command_range)
next
  case (PostStart b)
  then show ?thesis using assms
    by (auto simp: handle_start_def split: sum.splits option.splits if_splits dest!: baud_frames)
next
  case PostStop
  then show ?thesis using assms
    by (auto simp: handle_stop_def split: sum.splits option.splits dest!: baud_frames)
qed (use assms in \<open>auto split: sum.splits\<close>)

section \<open>Starting a job\<close>

lemma bg_rest:
  assumes "gw_exec thr (bg_event x) g = Some g'" and "gw_ok g" and "at_rest (gw_disp g)" and "unfinished g = 0"
  shows "gw_disp g' = gw_disp g \<and> unfinished g' = 0"
proof (cases x)
  case BgWorker
  then show ?thesis using assms(1,3,4) at_rest_stays [where d = "gw_disp g" and thr = thr and n = 1]
    by (auto simp: unfinished_def)
next
  case (BgJob i)
  have run: "runner_step i g = Inr g'" using assms(1) BgJob by (auto split: sum.splits)
  have "job_known g" using assms(2) by (simp add: gw_ok_def)
  then show ?thesis
    by (cases rule: runner_step_cases [where i = i])
      (use run assms(4) in \<open>auto simp: unfinished_def split: if_splits\<close>)
qed

lemma background_rest:
  assumes "background thr s g = Inr g'" and "gw_ok g" and "at_rest (gw_disp g)" and "unfinished g = 0"
  shows "gw_disp g' = gw_disp g"
proof -
  have "gw_run thr (map bg_event s) g = Some g'"
    using assms(1) by (auto simp: background_def split: option.splits)
  then show ?thesis using assms(2-4)
  proof (induction s arbitrary: g)
    case (Cons x s)
    obtain g1 where g1: "gw_exec thr (bg_event x) g = Some g1" "gw_run thr (map bg_event s) g1 = Some g'"
      using Cons.prems(1) by (auto split: option.splits)
    have "gw_ok g1" using g1(1) Cons.prems(2) gw_ok_step gw_step_exec by blast
    then show ?case using Cons.IH [OF g1(2)] bg_rest [OF g1(1) Cons.prems(2-4)] Cons.prems(3) by simp
  qed simp
qed

lemma runner_start_rest:
  assumes "runner_start thr s rd tmo g = Inr (jid, g')" and "gw_ok g" and "at_rest (gw_disp g)"
    and "unfinished g = 0"
  shows "gw_disp g' = gw_disp g"
proof -
  obtain g1 where b: "background thr s (clear_running g) = Inr g1" and d: "gw_disp g' = gw_disp g1"
    using assms(1) by (auto simp: runner_start_def runner_stop_def launch_def join_def
        split: sum.splits option.splits if_splits)
  have "gw_disp (clear_running g) = gw_disp g" "unfinished (clear_running g) = unfinished g"
    by (simp_all add: clear_running_def unfinished_def)
  then show ?thesis using background_rest [OF b gw_ok_clear [OF assms(2)]] assms(3,4) d by simp
qed

text \<open>The gateway after a call at a dispatcher at rest has been served.\<close>

definition served_gw :: "core_op \<Rightarrow> Gateway \<Rightarrow> Gateway" where
  "served_gw x g = g\<lparr>gw_disp := (gw_disp g)\<lparr>d_next := Suc (d_next (gw_disp g)),
      d_core := snd (core_exec x (d_core (gw_disp g))),
      d_proms := (d_proms (gw_disp g))(d_next (gw_disp g) \<mapsto> fst (core_exec x (d_core (gw_disp g))))\<rparr>\<rparr>"

lemma served_gw_simps [simp]:
  "gw_ok (served_gw x g) = gw_ok g" "unfinished (served_gw x g) = unfinished g"
  "at_rest (gw_disp (served_gw x g)) = at_rest (gw_disp g)"
  "gw_store (served_gw x g) = gw_store g" "gw_jobs (served_gw x g) = gw_jobs g"
  "d_core (gw_disp (served_gw x g)) = snd (core_exec x (d_core (gw_disp g)))"
  by (simp_all add: served_gw_def unfinished_def del: core_exec.simps)

lemma start_served:
  assumes "at_rest (gw_disp g)" and "\<not> thr (d_next (gw_disp g))" and "3 \<le> n"
    and "cj_load cj b = Some body" and "cj_t cj body = TObject" and "start_timeout srv cj body = Some tmo"
  shows "handle_start srv cj thr rd (replicate n BgWorker) s2 b g =
      (if \<not> resp_ok (fst (start_job tmo (d_core (gw_disp g))))
       then Inr (error_response (http_status (fst (start_job tmo (d_core (gw_disp g)))))
              (resp_message (fst (start_job tmo (d_core (gw_disp g))))), served_gw (OpStart tmo) g)
       else (case runner_start thr s2 rd tmo (served_gw (OpStart tmo) g) of Inl e \<Rightarrow> Inl e
             | Inr (jobId, g2) \<Rightarrow> Inr (json_response 202 (wset ''message'' (WStr ''ACCEPTED'')
                  (wset ''state'' (WStr (to_string (core_st (d_core (gw_disp g2)))))
                    (wset ''jobId'' (WStr jobId) (wset ''ok'' (WBool True) WNull)))), g2)))"
  using assms(4-6) submit_and_wait_served [where thr = thr, OF assms(1-3), of "OpStart tmo"]
  by (simp add: handle_start_def parse_json_object_def served_gw_def)

lemma start_accepted:
  assumes "gw_ok g" and "at_rest (gw_disp g)" and "unfinished g = 0"
    and "\<not> thr (d_next (gw_disp g))" and "3 \<le> n" and "lets_job_stop s2"
    and "cj_load cj b = Some body" and "cj_t cj body = TObject" and "start_timeout srv cj body = Some tmo"
    and "core_st (d_core (gw_disp g)) = INIT"
  shows "\<exists>resp g'. handle_start srv cj thr rd (replicate n BgWorker) s2 b g = Inr (resp, g') \<and>
    hr_code resp = 202 \<and> wget ''jobId'' (hr_body resp) = WStr (gen_id rd) \<and>
    wget ''state'' (hr_body resp) = WStr ''RUNNING'' \<and> core_st (d_core (gw_disp g')) = RUNNING \<and>
    get_job (gen_id rd) (gw_store g') = Inr new_JobResult \<and> r_running (gw_jobs g') \<and>
    r_worker (gw_jobs g') = Some (new_thread (gen_id rd) tmo) \<and> at_rest (gw_disp g') \<and> gw_ok g' \<and>
    r_baudrate (gw_jobs g') = r_baudrate (gw_jobs g)"
proof -
  let ?g1 = "served_gw (OpStart tmo) g"
  have ok: "gw_ok ?g1" using assms(1) by simp
  obtain jid g2 where st: "runner_start thr s2 rd tmo ?g1 = Inr (jid, g2)"
    using runner_start_returns [OF ok assms(6)] by blast
  have d: "gw_disp g2 = gw_disp ?g1" using runner_start_rest [OF st ok] assms(2,3) by simp
  have c: "resp_ok (fst (start_job tmo (d_core (gw_disp g))))" "core_st (d_core (gw_disp g2)) = RUNNING"
    using assms(10) d by (simp_all add: start_job_def new_Response_def)
  note r = runner_start_reaches [OF st]
  have "gw_ok g2" "r_baudrate (gw_jobs g2) = r_baudrate (gw_jobs g)"
    using reaches_ok ok r runner_start_baud [OF st] by auto
  then show ?thesis
    using st r d c assms(2) start_served [where thr = thr, OF assms(2,4,5,7-9), of rd s2] by (auto simp: to_string_def)
qed


section \<open>The validation of a command\<close>

text \<open>What the API documents: a member is absent, or a number that denotes an integer in its range.\<close>

definition number_at :: "'j crow_json \<Rightarrow> 'j \<Rightarrow> string \<Rightarrow> dbl" where
  "number_at cj obj key = cj_d cj (cj_at cj obj key)"

definition int_member_ok :: "'j crow_json \<Rightarrow> 'j \<Rightarrow> string \<Rightarrow> int \<Rightarrow> int \<Rightarrow> bool" where
  "int_member_ok cj obj key lo hi \<longleftrightarrow> (cj_has cj obj key \<longrightarrow>
     cj_t cj (cj_at cj obj key) = TNumber \<and> isfinite (number_at cj obj key) \<and>
     is_whole (number_at cj obj key) \<and> lo \<le> whole_value (number_at cj obj key) \<and>
     whole_value (number_at cj obj key) \<le> hi)"

definition valid_command :: "'j crow_json \<Rightarrow> 'j \<Rightarrow> bool" where
  "valid_command cj body \<longleftrightarrow>
     cj_t cj body = TObject \<and> cj_has cj body ''command'' \<and>
     cj_t cj (cj_at cj body ''command'') = TString \<and> cj_s cj (cj_at cj body ''command'') \<noteq> [] \<and>
     (cj_has cj body ''params'' \<longrightarrow>
        cj_t cj (cj_at cj body ''params'') = TObject \<and>
        int_member_ok cj (cj_at cj body ''params'') ''baudrate'' 1 2000000 \<and>
        int_member_ok cj (cj_at cj body ''params'') ''timeout_ms'' 1 3600000) \<and>
     (upper (cj_s cj (cj_at cj body ''command'')) = ''INIT'' \<longrightarrow>
        int_member_ok cj body ''baudrate'' 1 2000000)"

definition command_baud :: "'j crow_json \<Rightarrow> 'j \<Rightarrow> int" where
  "command_baud cj body =
     (if upper (cj_s cj (cj_at cj body ''command'')) \<noteq> ''INIT'' then - 1
      else if cj_has cj body ''baudrate'' then whole_value (number_at cj body ''baudrate'')
      else if cj_has cj body ''params'' \<and> cj_has cj (cj_at cj body ''params'') ''baudrate''
      then whole_value (number_at cj (cj_at cj body ''params'') ''baudrate'') else - 1)"

text \<open>The conversions of the three numbers a command can carry are defined.\<close>

definition fits :: "'j crow_json \<Rightarrow> 'j \<Rightarrow> bool" where
  "fits cj body \<longleftrightarrow> list_all (\<lambda>(obj, key). is_int64 (whole_value (number_at cj obj key)))
     [(body, ''baudrate''), (cj_at cj body ''params'', ''baudrate''), (cj_at cj body ''params'', ''timeout_ms'')]"

lemma parse_int_field_spec:
  assumes "is_int64 (whole_value (number_at cj obj key))"
  shows "parse_int_field cj ub obj key out lo hi =
    (if int_member_ok cj obj key lo hi
     then Some (if cj_has cj obj key then whole_value (number_at cj obj key) else out) else None)"
  using assms
  by (auto simp: parse_int_field_def int_member_ok_def number_at_def to_long_long_def Let_def)

lemma command_params_spec:
  assumes "fits cj body"
  shows "command_params cj ub body =
    (if cj_has cj body ''params'' \<longrightarrow>
        int_member_ok cj (cj_at cj body ''params'') ''baudrate'' 1 2000000 \<and>
        int_member_ok cj (cj_at cj body ''params'') ''timeout_ms'' 1 3600000
     then Some (if cj_has cj body ''params'' \<and> cj_has cj (cj_at cj body ''params'') ''baudrate''
                then whole_value (number_at cj (cj_at cj body ''params'') ''baudrate'') else - 1,
                if cj_has cj body ''params'' \<and> cj_has cj (cj_at cj body ''params'') ''timeout_ms''
                then whole_value (number_at cj (cj_at cj body ''params'') ''timeout_ms'') else - 1)
     else None)"
  using assms by (auto simp: command_params_def fits_def parse_int_field_spec int_member_ok_def Let_def)

lemma init_baudrate_spec:
  assumes "fits cj body"
  shows "init_baudrate cj ub body p =
    (if int_member_ok cj body ''baudrate'' 1 2000000
     then Some (if cj_has cj body ''baudrate'' then whole_value (number_at cj body ''baudrate'')
                else if p > 0 then p else - 1)
     else None)"
  using assms by (auto simp: init_baudrate_def fits_def int_member_ok_def number_at_def to_long_long_def Let_def)

lemma to_upper_ascii_eq: "to_upper_ascii s = upper s"
  by (simp add: to_upper_ascii_def upper_def)


section \<open>Timeouts, and two rejections with an effect\<close>

text \<open>
  Whatever number a request carries, the timeout \<^verbatim>\<open>/start\<close> accepts from it is positive, fits
  an \<^verbatim>\<open>int\<close> and agrees with the number modulo $2^{32}$; it is the number itself exactly when that
  lies between 1 and the largest \<^verbatim>\<open>int\<close>, so a larger number is accepted with another value.
\<close>

lemma start_timeout_wraps:
  assumes "start_timeout srv cj body = Some t" and "cj_has cj body ''timeout_ms''"
  shows "1 \<le> t \<and> t \<le> 2147483647 \<and>
    t mod 4294967296 = cj_i cj (cj_at cj body ''timeout_ms'') mod 4294967296 \<and>
    (t = cj_i cj (cj_at cj body ''timeout_ms'') \<longleftrightarrow>
       1 \<le> cj_i cj (cj_at cj body ''timeout_ms'') \<and> cj_i cj (cj_at cj body ''timeout_ms'') \<le> 2147483647)"
proof -
  let ?i = "cj_i cj (cj_at cj body ''timeout_ms'')"
  have t: "t = int32_cast ?i" "0 < t"
    using assms by (auto simp: start_timeout_def Let_def split: if_splits)
  have "int32_cast ?i mod 4294967296 = ?i mod 4294967296"
    by (simp add: int32_cast_def mod_diff_left_eq)
  moreover have "int32_cast ?i \<le> 2147483647" by (rule int32_cast_range(2))
  moreover have "int32_cast ?i = ?i \<longleftrightarrow> is_int32 ?i" by (rule int32_cast_eq_iff)
  ultimately show ?thesis using t by auto
qed

text \<open>
  An INIT that is refused has an effect all the same: while a job runs, an INIT with a baud
  rate is answered 409 and the baud rate of the runner is the requested one afterwards.
\<close>

lemma refused_init_changes_baudrate:
  assumes "parse_command cj ub b = Inr (''INIT'', baud)" and "0 < baud"
    and "core_st (d_core (gw_disp g)) = RUNNING"
    and "at_rest (gw_disp g)" and "\<not> thr (d_next (gw_disp g))" and "3 \<le> n"
  shows "\<exists>resp g'. handle_command cj ub thr s1 (replicate n BgWorker) b g = Inr (resp, g') \<and>
    hr_code resp = 409 \<and> wget ''message'' (hr_body resp) = WStr ''ERR:BUSY'' \<and>
    r_baudrate (gw_jobs g') = baud"
proof -
  let ?g1 = "g\<lparr>gw_jobs := set_baudrate baud (gw_jobs g)\<rparr>"
  have d: "gw_disp ?g1 = gw_disp g" by simp
  note w = submit_and_wait_served [of ?g1 thr n "OpSync ''INIT''", unfolded d, OF assms(4-6)]
  have "upper ''INIT'' = ''INIT''" by code_simp
  then show ?thesis
    using assms(1-3) w core_exec_parts [of "OpSync ''INIT''" "d_core (gw_disp g)"]
    unfolding handle_command_def
    by (simp add: run_command_def set_baudrate_def del: core_exec.simps)
qed

text \<open>
  C38: a \<^verbatim>\<open>/start\<close> that is answered 503 is still in the queue: when the worker does not get to
  it in time, the client is told ERR:BUSY and no job exists, but once the worker has run, the
  core is RUNNING with no thread that will ever report the end of the job.
\<close>

theorem timed_out_start_strands_core:
  assumes "gw_steps thr (new_Gateway port) es g"
    and "at_rest (gw_disp g)" and "core_st (d_core (gw_disp g)) = INIT" and "\<not> thr (d_next (gw_disp g))"
    and "r_worker (gw_jobs g) = None"
    and "cj_load cj b = Some body" and "cj_t cj body = TObject" and "start_timeout srv cj body = Some tmo"
  shows "\<exists>resp g'. handle_start srv cj thr rd [] s2 b g = Inr (resp, g') \<and> hr_code resp = 503 \<and>
    r_worker (gw_jobs g') = None \<and> gw_store g' = gw_store g \<and>
    core_st (d_core ((worker_step thr ^^ 3) (gw_disp g'))) = RUNNING"
proof -
  have "live thr g" using assms(1) by (auto simp: live_def)
  then obtain xs k where "serial_at thr xs new_Core k (gw_disp g)" by (rule live_serial)
  then have "d_proms (gw_disp g) (d_next (gw_disp g)) = None" by (auto simp: serial_at_def)
  then have w: "submit_and_wait thr [] (OpStart tmo) g =
      Inr (None, g\<lparr>gw_disp := snd (submit (OpStart tmo) (gw_disp g))\<rparr>)"
    by (simp add: submit_and_wait_alt background_def submit_eq del: submit.simps)
  have "core_st (d_core ((worker_step thr ^^ 3) (snd (submit (OpStart tmo) (gw_disp g))))) = RUNNING"
    using three_steps [where thr = thr, OF assms(2,4)] core_exec_state [of "OpStart tmo" "d_core (gw_disp g)"] assms(3)
    by (simp del: submit.simps core_exec.simps)
  then show ?thesis using w assms(5-8)
    by (simp add: handle_start_def parse_json_object_def del: submit.simps)
qed

section \<open>A concrete reader and concrete requests\<close>

text \<open>A reader for documents that are already trees; the inputs of the witnesses.\<close>

datatype json = JNull | JNumber dbl int | JString string | JObject "(string \<times> json) list"

fun json_member :: "json \<Rightarrow> string \<Rightarrow> json option" where
  "json_member (JObject kvs) key = map_of kvs key"
| "json_member _ key = None"

definition tree_json :: "json \<Rightarrow> json crow_json" where
  "tree_json doc =
     \<lparr>cj_load = (\<lambda>_. Some doc),
      cj_t = (\<lambda>j. case j of JNull \<Rightarrow> TNull | JNumber d i \<Rightarrow> TNumber | JString s \<Rightarrow> TString
                    | JObject kvs \<Rightarrow> TObject),
      cj_has = (\<lambda>j k. json_member j k \<noteq> None),
      cj_at = (\<lambda>j k. case json_member j k of None \<Rightarrow> JNull | Some v \<Rightarrow> v),
      cj_s = (\<lambda>j. case j of JString s \<Rightarrow> s | _ \<Rightarrow> []),
      cj_d = (\<lambda>j. case j of JNumber d i \<Rightarrow> d | _ \<Rightarrow> Finite 0 0),
      cj_i = (\<lambda>j. case j of JNumber d i \<Rightarrow> i | _ \<Rightarrow> 0)\<rparr>"

definition init_doc :: json where
  "init_doc = JObject [(''command'', JString ''init''), (''baudrate'', JNumber (Finite 9600 0) 9600)]"

definition start_doc :: json where
  "start_doc = JObject [(''timeout_ms'', JNumber (Finite 4294967301 0) 4294967301)]"

definition some_srv :: RestServer where
  "some_srv = \<lparr>rs_bind_addr = ''0.0.0.0'', rs_port = 8080, rs_default_timeout_ms = 3000\<rparr>"

definition some_env :: "json rest_env" where
  "some_env = \<lparr>re_srv = some_srv, re_json = tree_json init_doc, re_ub = (\<lambda>_. 0), re_thr = (\<lambda>_. False),
     re_rd = (\<lambda>i. i), re_s1 = replicate 7 (BgJob (quiet_in 5)), re_s2 = replicate 7 (BgJob (quiet_in 5))\<rparr>"

definition init_events :: "gw_event list" where
  "init_events = [GSubmit (OpSync ''INIT''), GWorker, GWorker, GWorker]"

definition init_gw :: Gateway where
  "init_gw = the (gw_run (\<lambda>_. False) init_events (new_Gateway ''/dev/ttyS1''))"

lemma init_gw_steps: "gw_steps (\<lambda>_. False) (new_Gateway ''/dev/ttyS1'') init_events init_gw"
proof (rule gw_run_steps)
  have "gw_run (\<lambda>_. False) init_events (new_Gateway ''/dev/ttyS1'') \<noteq> None" by code_simp
  then show "gw_run (\<lambda>_. False) init_events (new_Gateway ''/dev/ttyS1'') = Some init_gw"
    by (simp add: init_gw_def)
qed

lemma init_gw_facts:
  "at_rest (gw_disp init_gw)" "core_st (d_core (gw_disp init_gw)) = INIT" "unfinished init_gw = 0"
  "r_worker (gw_jobs init_gw) = None"
  by code_simp+

lemma started_gw_facts:
  "at_rest (gw_disp started_gw)" "core_st (d_core (gw_disp started_gw)) = RUNNING"
  "work_left (gw_disp started_gw) = 0"
  by code_simp+

lemma lets_job_stop_quiet [simp]: "lets_job_stop (replicate 7 (BgJob (quiet_in 5)))"
  by code_simp

lemma init_doc_parsed: "parse_command (tree_json init_doc) (\<lambda>_. 0) b = Inr (''INIT'', 9600)"
  by code_simp


theorem stop_stops_everything_witness:
  "\<exists>resp g'. handle_stop (\<lambda>_. False) (replicate 7 (BgJob (quiet_in 5))) (replicate 6 BgWorker) started_gw
      = Inr (resp, g') \<and>
    hr_code resp = 200 \<and> wget ''state'' (hr_body resp) = WStr ''STOPPED'' \<and>
    core_st (d_core (gw_disp g')) = STOPPED \<and> r_worker (gw_jobs g') = None \<and>
    (\<forall>jid r. get_job jid (gw_store g') = Inr r \<longrightarrow> jr_status r \<noteq> PENDING)"
  by (rule stop_stops_everything [OF started_gw_steps])
    (use started_gw_facts in \<open>simp_all add: at_rest_def\<close>)




theorem timed_out_start_strands_core_witness:
  "\<exists>resp g'. handle_start some_srv (tree_json start_doc) (\<lambda>_. False) (\<lambda>i. i) []
        (replicate 7 (BgJob (quiet_in 5))) ''x'' init_gw = Inr (resp, g') \<and> hr_code resp = 503 \<and>
    r_worker (gw_jobs g') = None \<and> gw_store g' = gw_store init_gw \<and>
    core_st (d_core ((worker_step (\<lambda>_. False) ^^ 3) (gw_disp g'))) = RUNNING"
  by (rule timed_out_start_strands_core [OF init_gw_steps, where body = start_doc and tmo = 5])
    (simp_all add: init_gw_facts tree_json_def start_doc_def start_timeout_def int32_cast_def)

section \<open>A client session\<close>

text \<open>
  A client that sends commands one after the other and waits for each answer: the answers of
  the handler and the gateway in the end.
\<close>

fun session ::
  "(nat \<Rightarrow> bool) \<Rightarrow> nat \<Rightarrow> (string \<times> int) list \<Rightarrow> Gateway \<Rightarrow> blocked + http_response list \<times> Gateway" where
  "session thr n [] g = Inr ([], g)"
| "session thr n ((cmd, baud) # cs) g =
     (case run_command thr [] (replicate n BgWorker) cmd baud g of
        Inl e \<Rightarrow> Inl e
      | Inr (resp, g1) \<Rightarrow>
          (case session thr n cs g1 of Inl e \<Rightarrow> Inl e | Inr (resps, g2) \<Rightarrow> Inr (resp # resps, g2)))"

lemma run_command_disp:
  assumes "at_rest (gw_disp g)" and "3 \<le> n" and "cmd \<noteq> ''STOP''"
  shows "\<exists>g'. run_command (\<lambda>_. False) [] (replicate n BgWorker) cmd baud g =
      Inr (command_response (fst (core_exec (OpSync cmd) (d_core (gw_disp g)))), g') \<and>
    gw_disp g' = (worker_step (\<lambda>_. False) ^^ n) (snd (submit (OpSync cmd) (gw_disp g))) \<and>
    gw_store g' = gw_store g \<and> r_worker (gw_jobs g') = r_worker (gw_jobs g)"
proof -
  define g1 where "g1 = (if baud > 0 then g\<lparr>gw_jobs := set_baudrate baud (gw_jobs g)\<rparr> else g)"
  have g1: "gw_disp g1 = gw_disp g" "gw_store g1 = gw_store g" "r_worker (gw_jobs g1) = r_worker (gw_jobs g)"
    by (simp_all add: g1_def set_baudrate_def)
  have "submit_and_wait (\<lambda>_. False) (replicate n BgWorker) (OpSync cmd) g1 =
      Inr (Some (fst (core_exec (OpSync cmd) (d_core (gw_disp g)))),
        g1\<lparr>gw_disp := (worker_step (\<lambda>_. False) ^^ n) (snd (submit (OpSync cmd) (gw_disp g)))\<rparr>)"
    using disp.answered [OF assms(1,2), of "OpSync cmd"] g1(1)
    by (simp add: submit_and_wait_alt background_idle del: submit.simps core_exec.simps)
  then show ?thesis using assms(3) g1
    by (simp add: run_command_def flip: g1_def del: submit.simps core_exec.simps)
qed

lemma session_dialogue:
  assumes "at_rest (gw_disp g)" and "3 \<le> n" and "\<forall>(cmd, baud) \<in> set cs. cmd \<noteq> ''STOP''"
  shows "\<exists>resps g'. session (\<lambda>_. False) n cs g = Inr (resps, g') \<and>
    gw_disp g' = disp.dialogue n (map (\<lambda>(cmd, baud). OpSync cmd) cs) (gw_disp g) \<and>
    gw_store g' = gw_store g \<and> r_worker (gw_jobs g') = r_worker (gw_jobs g)"
  using assms(1,3)
proof (induction cs arbitrary: g)
  case (Cons c cs)
  obtain cmd baud where c: "c = (cmd, baud)" by (cases c)
  with Cons.prems obtain g1 where
    g1: "run_command (\<lambda>_. False) [] (replicate n BgWorker) cmd baud g =
        Inr (command_response (fst (core_exec (OpSync cmd) (d_core (gw_disp g)))), g1)"
      "gw_disp g1 = (worker_step (\<lambda>_. False) ^^ n) (snd (submit (OpSync cmd) (gw_disp g)))"
      "gw_store g1 = gw_store g" "r_worker (gw_jobs g1) = r_worker (gw_jobs g)"
    using run_command_disp [OF Cons.prems(1) assms(2), of cmd baud] by auto
  have "at_rest (gw_disp g1)" unfolding g1(2) by (rule disp.rests_again [OF Cons.prems(1) assms(2)])
  from Cons.IH [OF this] Cons.prems(2) obtain resps g2 where
    "session (\<lambda>_. False) n cs g1 = Inr (resps, g2)"
    "gw_disp g2 = disp.dialogue n (map (\<lambda>(cmd, baud). OpSync cmd) cs) (gw_disp g1)"
    "gw_store g2 = gw_store g1" "r_worker (gw_jobs g2) = r_worker (gw_jobs g1)" by auto
  then show ?case using g1 c by simp
qed simp

text \<open>
  A session of commands is a run of the state machine: a client that sends any commands
  other than STOP one by one, at a dispatcher at rest whose worker gets three steps for each,
  leaves the core in the state the calls on it reach one after the other, with no job
  touched, and its next command is answered with the response of the core in that state.
\<close>

lemma session_runs_core:
  assumes "at_rest (gw_disp g)" and "3 \<le> n" and "\<forall>(cmd, baud) \<in> set cs. cmd \<noteq> ''STOP''"
    and "cmd \<noteq> ''STOP''"
  shows "\<exists>resps g' g''. session (\<lambda>_. False) n cs g = Inr (resps, g') \<and>
    d_core (gw_disp g') = core_run (map (\<lambda>(cmd, baud). OpSync cmd) cs) (d_core (gw_disp g)) \<and>
    gw_store g' = gw_store g \<and> r_worker (gw_jobs g') = r_worker (gw_jobs g) \<and>
    run_command (\<lambda>_. False) [] (replicate n BgWorker) cmd baud g' =
      Inr (command_response (fst (handle_sync_command cmd
        (core_run (map (\<lambda>(cmd, baud). OpSync cmd) cs) (d_core (gw_disp g))))), g'')"
proof -
  obtain resps g' where s: "session (\<lambda>_. False) n cs g = Inr (resps, g')"
      "gw_disp g' = disp.dialogue n (map (\<lambda>(cmd, baud). OpSync cmd) cs) (gw_disp g)"
      "gw_store g' = gw_store g" "r_worker (gw_jobs g') = r_worker (gw_jobs g)"
    using session_dialogue [OF assms(1-3)] by blast
  have "d_core (gw_disp g') = core_run (map (\<lambda>(cmd, baud). OpSync cmd) cs) (d_core (gw_disp g))"
    and "at_rest (gw_disp g')"
    unfolding s(2) using disp.dialogue_runs_core [OF assms(1,2)] by blast+
  then show ?thesis using s run_command_disp [of g' n cmd baud] assms(2,4) by auto
qed

end
