(* ===== verification/Request_Threads.thy ===== *)
theory Request_Threads
  imports Rest_Server
begin

text \<open>
  The request threads of \<^verbatim>\<open>adapters/rest/RestServer.cpp\<close>, any number of them at once. Crow runs every
  handler in a thread of a pool, so here each handler is a program of its own whose steps make at
  most one access to shared state; \<open>req_step\<close> is one such step. \<^verbatim>\<open>JobRunner::start\<close> is not one action
  either: it creates the entry, sets the flag and assigns the thread object in three steps.
  \<open>sv_step\<close> interleaves the request threads, the worker and the job thread in any order.
\<close>

section \<open>The programs of the handlers\<close>

text \<open>What a thread is doing with the dispatcher or the runner: the handler it goes back to.\<close>

datatype req_cont = KCommand string | KStart int job_id | KStop

text \<open>
  Program points: \<^verbatim>\<open>set_baudrate\<close>; the two halves of \<^verbatim>\<open>JobRunner::stop\<close>; submission and
  \<^verbatim>\<open>wait_for\<close>; the three accesses of \<^verbatim>\<open>JobRunner::start\<close>; the reads of the state and of the store;
  the response.
\<close>

datatype req_pc =
    QBaud string int | QClear req_cont | QJoin req_cont | QSubmit req_cont | QWait req_cont nat
  | QCreate int job_id | QFlag int job_id | QLaunch int job_id | QStarted job_id
  | QStatus | QExists job_id | QGet job_id | QGot job_id JobResult | QDone http_response

text \<open>Parsing and validation touch nothing shared.\<close>

fun req_entry ::
  "RestServer \<Rightarrow> 'j crow_json \<Rightarrow> (dbl \<Rightarrow> int) \<Rightarrow> (nat \<Rightarrow> nat) \<Rightarrow> http_request \<Rightarrow> req_pc" where
  "req_entry srv cj ub rd GetHealth = QDone handle_health"
| "req_entry srv cj ub rd GetStatus = QStatus"
| "req_entry srv cj ub rd (PostCommand b) =
     (case parse_command cj ub b of Inl err \<Rightarrow> QDone err | Inr (cmd_up, baud) \<Rightarrow> QBaud cmd_up baud)"
| "req_entry srv cj ub rd (PostStart b) =
     (case parse_json_object cj b of
        Inl err \<Rightarrow> QDone err
      | Inr body \<Rightarrow>
          (case start_timeout srv cj body of
             None \<Rightarrow> QDone bad_request | Some tmo \<Rightarrow> QSubmit (KStart tmo (gen_id rd))))"
| "req_entry srv cj ub rd (GetResult jid) = QExists jid"
| "req_entry srv cj ub rd PostStop = QClear KStop"

fun cont_op :: "req_cont \<Rightarrow> core_op" where
  "cont_op (KCommand cmd) = OpSync cmd"
| "cont_op (KStart tmo jid) = OpStart tmo"
| "cont_op KStop = OpStop"

fun after_join :: "req_cont \<Rightarrow> req_pc" where
  "after_join (KStart tmo jid) = QCreate tmo jid"
| "after_join k = QSubmit k"

fun after_wait :: "req_cont \<Rightarrow> Response \<Rightarrow> req_pc" where
  "after_wait (KCommand cmd) r = QDone (command_response r)"
| "after_wait (KStart tmo jid) r =
     (if \<not> resp_ok r then QDone (error_response (http_status r) (resp_message r))
      else QClear (KStart tmo jid))"
| "after_wait KStop r = QDone (stop_response r)"

text \<open>
  A step moves, or has to wait (for the job thread, for the future, or because the handler has
  answered), or ends in an exception nobody catches; assigning to a joinable thread object ends
  the process.
\<close>

datatype req_out = Moves Gateway req_pc | Blocked | Aborts

abbreviation gw_state :: "Gateway \<Rightarrow> State" where
  "gw_state g \<equiv> core_st (d_core (gw_disp g))"

fun req_step :: "Gateway \<Rightarrow> req_pc \<Rightarrow> req_out" where
  "req_step g (QBaud cmd baud) =
     Moves (if baud > 0 then g\<lparr>gw_jobs := set_baudrate baud (gw_jobs g)\<rparr> else g)
       (if cmd = ''STOP'' then QClear (KCommand cmd) else QSubmit (KCommand cmd))"
| "req_step g (QClear k) = Moves (clear_running g) (QJoin k)"
| "req_step g (QJoin k) =
     (case join g of None \<Rightarrow> Blocked | Some g' \<Rightarrow> Moves g' (after_join k))"
| "req_step g (QSubmit k) =
     (let (fut, d) = submit (cont_op k) (gw_disp g) in Moves (g\<lparr>gw_disp := d\<rparr>) (QWait k fut))"
| "req_step g (QWait k fut) =
     (case d_proms (gw_disp g) fut of None \<Rightarrow> Blocked | Some r \<Rightarrow> Moves g (after_wait k r))"
| "req_step g (QCreate tmo jid) =
     Moves (g\<lparr>gw_store := create jid (gw_store g)\<rparr>) (QFlag tmo jid)"
| "req_step g (QFlag tmo jid) =
     Moves (g\<lparr>gw_jobs := (gw_jobs g)\<lparr>r_running := True\<rparr>\<rparr>) (QLaunch tmo jid)"
| "req_step g (QLaunch tmo jid) =
     (if r_worker (gw_jobs g) \<noteq> None then Aborts
      else Moves (g\<lparr>gw_jobs := (gw_jobs g)\<lparr>r_worker := Some (new_thread jid tmo)\<rparr>\<rparr>) (QStarted jid))"
| "req_step g (QStarted jid) = Moves g (QDone (start_response jid (gw_state g)))"
| "req_step g QStatus = Moves g (QDone (handle_status g))"
| "req_step g (QExists jid) =
     Moves g (if exists_job jid (gw_store g) then QGet jid
              else QDone (error_response 404 ''ERR:NOT_FOUND''))"
| "req_step g (QGet jid) =
     (case get_job jid (gw_store g) of Inl e \<Rightarrow> Aborts | Inr res \<Rightarrow> Moves g (QGot jid res))"
| "req_step g (QGot jid res) = Moves g (QDone (result_response jid res (gw_state g)))"
| "req_step g (QDone resp) = Blocked"

text \<open>A \<^verbatim>\<open>wait_for\<close> that runs out before the future is ready.\<close>

fun req_timeout :: "Gateway \<Rightarrow> req_pc \<Rightarrow> req_pc option" where
  "req_timeout g (QWait k fut) =
     (if d_proms (gw_disp g) fut = None then Some (QDone (error_response 503 ''ERR:BUSY'')) else None)"
| "req_timeout g _ = None"

section \<open>The server\<close>

record server =
  sv_gw :: Gateway
  sv_req :: "nat \<rightharpoonup> req_pc"

datatype sv_event = SvArrive nat req_pc | SvStep nat | SvTimeout nat | SvWorker | SvJob job_in

text \<open>The entry points a request can have.\<close>

definition entry_point :: "req_pc \<Rightarrow> bool" where
  "entry_point pc =
     (case pc of
        QBaud cmd baud \<Rightarrow> True | QSubmit k \<Rightarrow> (case k of KStart tmo jid \<Rightarrow> True | _ \<Rightarrow> False)
      | QClear k \<Rightarrow> k = KStop | QStatus \<Rightarrow> True | QExists jid \<Rightarrow> True
      | QDone resp \<Rightarrow> resp = bad_request \<or> resp = handle_health | _ \<Rightarrow> False)"

lemma entry_point_req: "entry_point (req_entry srv cj ub rd req)"
  using parse_command_error [of cj ub]
  by (cases req) (auto simp: entry_point_def parse_json_object_def simp flip: bad_request_def
      split: sum.split option.split prod.split)

text \<open>\<open>None\<close>: the event is not possible now, or ends the process.\<close>

fun sv_exec :: "(nat \<Rightarrow> bool) \<Rightarrow> sv_event \<Rightarrow> server \<Rightarrow> server option" where
  "sv_exec thr (SvArrive t pc) s =
     (if sv_req s t = None \<and> entry_point pc
      then Some (s\<lparr>sv_req := (sv_req s)(t \<mapsto> pc)\<rparr>) else None)"
| "sv_exec thr (SvStep t) s =
     (case sv_req s t of
        None \<Rightarrow> None
      | Some pc \<Rightarrow>
          (case req_step (sv_gw s) pc of
             Moves g pc' \<Rightarrow> Some \<lparr>sv_gw = g, sv_req = (sv_req s)(t \<mapsto> pc')\<rparr>
           | _ \<Rightarrow> None))"
| "sv_exec thr (SvTimeout t) s =
     (case sv_req s t of
        None \<Rightarrow> None
      | Some pc \<Rightarrow>
          (case req_timeout (sv_gw s) pc of
             None \<Rightarrow> None | Some pc' \<Rightarrow> Some (s\<lparr>sv_req := (sv_req s)(t \<mapsto> pc')\<rparr>)))"
| "sv_exec thr SvWorker s =
     Some (s\<lparr>sv_gw := (sv_gw s)\<lparr>gw_disp := worker_step thr (gw_disp (sv_gw s))\<rparr>\<rparr>)"
| "sv_exec thr (SvJob i) s =
     (case runner_step i (sv_gw s) of Inl e \<Rightarrow> None | Inr g \<Rightarrow> Some (s\<lparr>sv_gw := g\<rparr>))"

text \<open>
  The step relation, and runs all of whose states satisfy \<open>P\<close>.
\<close>

inductive sv_step :: "(nat \<Rightarrow> bool) \<Rightarrow> server \<Rightarrow> sv_event \<Rightarrow> server \<Rightarrow> bool"
  for thr :: "nat \<Rightarrow> bool" where
  Arrive: "sv_req s t = None \<Longrightarrow> entry_point pc \<Longrightarrow>
    sv_step thr s (SvArrive t pc) (s\<lparr>sv_req := (sv_req s)(t \<mapsto> pc)\<rparr>)"
| Step: "sv_req s t = Some pc \<Longrightarrow> req_step (sv_gw s) pc = Moves g pc' \<Longrightarrow>
    sv_step thr s (SvStep t) \<lparr>sv_gw = g, sv_req = (sv_req s)(t \<mapsto> pc')\<rparr>"
| Timeout: "sv_req s t = Some pc \<Longrightarrow> req_timeout (sv_gw s) pc = Some pc' \<Longrightarrow>
    sv_step thr s (SvTimeout t) (s\<lparr>sv_req := (sv_req s)(t \<mapsto> pc')\<rparr>)"
| Worker: "sv_step thr s SvWorker (s\<lparr>sv_gw := (sv_gw s)\<lparr>gw_disp := worker_step thr (gw_disp (sv_gw s))\<rparr>\<rparr>)"
| Job: "runner_step i (sv_gw s) = Inr g \<Longrightarrow> sv_step thr s (SvJob i) (s\<lparr>sv_gw := g\<rparr>)"

inductive sv_steps :: "(nat \<Rightarrow> bool) \<Rightarrow> (server \<Rightarrow> bool) \<Rightarrow> server \<Rightarrow> sv_event list \<Rightarrow> server \<Rightarrow> bool"
  for thr :: "nat \<Rightarrow> bool" and P :: "server \<Rightarrow> bool" where
  no_step: "P s \<Longrightarrow> sv_steps thr P s [] s"
| one_more: "sv_steps thr P s es s1 \<Longrightarrow> sv_step thr s1 e s2 \<Longrightarrow> P s2 \<Longrightarrow> sv_steps thr P s (es @ [e]) s2"

definition new_server :: "string \<Rightarrow> server" where
  "new_server port = \<lparr>sv_gw = new_Gateway port, sv_req = Map.empty\<rparr>"

text \<open>
  The program points inside \<^verbatim>\<open>JobRunner::stop\<close> and \<^verbatim>\<open>JobRunner::start\<close>. The sources have no lock around
  them; \<open>exclusive\<close> says that no two threads are there at once.
\<close>

fun in_runner :: "req_pc \<Rightarrow> bool" where
  "in_runner (QClear k) = True" | "in_runner (QJoin k) = True" | "in_runner (QCreate tmo jid) = True"
| "in_runner (QFlag tmo jid) = True" | "in_runner (QLaunch tmo jid) = True" | "in_runner _ = False"

definition exclusive :: "server \<Rightarrow> bool" where
  "exclusive s \<longleftrightarrow> (\<forall>t u pc qc. sv_req s t = Some pc \<longrightarrow> sv_req s u = Some qc \<longrightarrow>
     in_runner pc \<longrightarrow> in_runner qc \<longrightarrow> t = u)"

text \<open>The accesses to the thread object, which is not an atomic: a check, a join or an assignment.\<close>

fun at_thread_object :: "req_pc \<Rightarrow> bool" where
  "at_thread_object (QJoin k) = True" | "at_thread_object (QLaunch tmo jid) = True"
| "at_thread_object _ = False"

section \<open>The request threads refine the gateway\<close>

text \<open>
  A thread between \<^verbatim>\<open>store_.create\<close> and the assignment of the thread object is launching a job. For
  the outside the job is there from the creation of its entry on; \<open>begun\<close> is the gateway with
  the job launched.
\<close>

definition begun :: "int \<Rightarrow> job_id \<Rightarrow> Gateway \<Rightarrow> Gateway" where
  "begun tmo jid g =
     g\<lparr>gw_jobs := (gw_jobs g)\<lparr>r_running := True, r_worker := Some (new_thread jid tmo)\<rparr>\<rparr>"

definition launching :: "server \<Rightarrow> nat \<Rightarrow> int \<Rightarrow> job_id \<Rightarrow> bool" where
  "launching s t tmo jid \<longleftrightarrow>
     sv_req s t = Some (QFlag tmo jid) \<or> sv_req s t = Some (QLaunch tmo jid)"

definition runner_free :: "server \<Rightarrow> bool" where
  "runner_free s \<longleftrightarrow> r_worker (gw_jobs (sv_gw s)) = None"

definition launch_ready :: "server \<Rightarrow> bool" where
  "launch_ready s \<longleftrightarrow> (\<forall>t tmo jid.
     (sv_req s t = Some (QCreate tmo jid) \<longrightarrow> runner_free s) \<and>
     (launching s t tmo jid \<longrightarrow> runner_free s) \<and>
     (sv_req s t = Some (QLaunch tmo jid) \<longrightarrow> r_running (gw_jobs (sv_gw s))))"

definition sv_sim :: "server \<Rightarrow> Gateway \<Rightarrow> bool" where
  "sv_sim s a \<longleftrightarrow> exclusive s \<and> launch_ready s \<and>
     (\<forall>t tmo jid. launching s t tmo jid \<longrightarrow> a = begun tmo jid (sv_gw s)) \<and>
     ((\<forall>t tmo jid. \<not> launching s t tmo jid) \<longrightarrow> a = sv_gw s)"

lemma begun_simps [simp]:
  "gw_store (begun tmo jid g) = gw_store g" "gw_disp (begun tmo jid g) = gw_disp g"
  by (simp_all add: begun_def)

lemma sv_sim_shared:
  assumes "sv_sim s a"
  shows "gw_store a = gw_store (sv_gw s)" "gw_disp a = gw_disp (sv_gw s)"
  using assms by (auto simp: sv_sim_def)

lemma launching_in_runner: "launching s t tmo jid \<Longrightarrow> \<exists>pc. sv_req s t = Some pc \<and> in_runner pc"
  by (auto simp: launching_def)

text \<open>Only the thread inside the runner can be launching.\<close>

lemma exclusive_launching:
  assumes "exclusive s" and "sv_req s t = Some pc" and "in_runner pc" and "launching s u tmo jid"
  shows "u = t"
  using assms launching_in_runner [OF assms(4)] unfolding exclusive_def by blast

text \<open>Steps that leave the runner alone.\<close>

definition harmless :: "(Gateway \<Rightarrow> Gateway) \<Rightarrow> bool" where
  "harmless f \<longleftrightarrow> (\<forall>g. (\<forall>tmo jid. f (begun tmo jid g) = begun tmo jid (f g)) \<and>
     r_worker (gw_jobs (f g)) = r_worker (gw_jobs g) \<and> r_running (gw_jobs (f g)) = r_running (gw_jobs g))"

fun plain_pc :: "req_pc \<Rightarrow> bool" where
  "plain_pc (QCreate tmo jid) = False" | "plain_pc (QFlag tmo jid) = False"
| "plain_pc (QLaunch tmo jid) = False" | "plain_pc _ = True"

lemma sim_frame:
  assumes "sv_sim s a" and "harmless f" and "sv_gw s' = f (sv_gw s)" and "exclusive s'"
    and "\<And>t pc. sv_req s' t = Some pc \<Longrightarrow> plain_pc pc \<or> sv_req s t = Some pc"
    and "\<And>t pc. sv_req s t = Some pc \<Longrightarrow> plain_pc pc \<or> sv_req s' t = Some pc"
  shows "sv_sim s' (f a)"
proof -
  have l: "launching s' t tmo jid = launching s t tmo jid" for t tmo jid
    using assms(5,6) unfolding launching_def by (metis plain_pc.simps(2,3))
  have c: "sv_req s t = Some (QCreate tmo jid)" if "sv_req s' t = Some (QCreate tmo jid)" for t tmo jid
    using assms(5) [OF that] by simp
  have q: "sv_req s t = Some (QLaunch tmo jid)" if "sv_req s' t = Some (QLaunch tmo jid)" for t tmo jid
    using assms(5) [OF that] by simp
  have "launch_ready s'" using assms(1,2,3) l c q
    unfolding sv_sim_def launch_ready_def runner_free_def harmless_def by metis
  then show ?thesis using assms(1-4) l unfolding sv_sim_def harmless_def by metis
qed

lemma harmless_id: "harmless (\<lambda>g. g)"
  and harmless_disp: "harmless (\<lambda>g. g\<lparr>gw_disp := h (gw_disp g)\<rparr>)"
  and harmless_baud: "harmless (\<lambda>g. if b > 0 then g\<lparr>gw_jobs := set_baudrate b (gw_jobs g)\<rparr> else g)"
  by (auto simp: harmless_def begun_def set_baudrate_def)

text \<open>A step of the thread inside the runner, when no job is being launched before or after.\<close>

lemma sim_idle:
  assumes "exclusive s" and "launch_ready s" and "\<And>t tmo jid. \<not> launching s t tmo jid"
  shows "sv_sim s (sv_gw s)"
  using assms by (simp add: sv_sim_def)

lemma sim_at_runner:
  assumes "sv_sim s a" and "sv_req s t = Some pc" and "in_runner pc" and "plain_pc pc \<or> (\<exists>tmo jid. pc = QCreate tmo jid)"
  shows "a = sv_gw s" and "\<And>u tmo jid. \<not> launching s u tmo jid"
proof -
  have "\<not> launching s u tmo jid" for u tmo jid
    using exclusive_launching [OF _ assms(2,3), of u tmo jid] assms by (auto simp: sv_sim_def launching_def)
  then show "a = sv_gw s" and "\<And>u tmo jid. \<not> launching s u tmo jid"
    using assms(1) by (auto simp: sv_sim_def)
qed

lemma sim_runner_step:
  assumes "sv_sim s a" and "sv_req s t = Some pc" and "in_runner pc"
    and "exclusive \<lparr>sv_gw = g, sv_req = (sv_req s)(t \<mapsto> pc')\<rparr>"
    and "case pc' of
        QCreate tmo jid \<Rightarrow> r_worker (gw_jobs g) = None \<and> a' = g
      | QFlag tmo jid \<Rightarrow> r_worker (gw_jobs g) = None \<and> a' = begun tmo jid g
      | QLaunch tmo jid \<Rightarrow> r_worker (gw_jobs g) = None \<and> r_running (gw_jobs g) \<and> a' = begun tmo jid g
      | _ \<Rightarrow> a' = g"
  shows "sv_sim \<lparr>sv_gw = g, sv_req = (sv_req s)(t \<mapsto> pc')\<rparr> a'"
proof -
  have ot: "\<not> in_runner qc" if "sv_req s u = Some qc" "u \<noteq> t" for u qc
    using assms(1-3) that unfolding sv_sim_def exclusive_def by blast
  have o: "sv_req s u \<noteq> Some (QCreate tmo jid)" "sv_req s u \<noteq> Some (QFlag tmo jid)"
    "sv_req s u \<noteq> Some (QLaunch tmo jid)" if "u \<noteq> t" for u tmo jid
    using ot [OF _ that] by auto
  then show ?thesis using assms(4,5)
    by (cases pc') (auto simp: sv_sim_def launch_ready_def launching_def runner_free_def split: if_splits)
qed

text \<open>The thread that launches a job: the gateway of the refinement has it already.\<close>

lemma sim_launching:
  assumes "sv_sim s a" and "sv_req s t = Some pc" and "req_step (sv_gw s) pc = Moves g pc'"
    and "exclusive \<lparr>sv_gw = g, sv_req = (sv_req s)(t \<mapsto> pc')\<rparr>"
    and "pc = QFlag tmo jid \<or> pc = QLaunch tmo jid"
  shows "sv_sim \<lparr>sv_gw = g, sv_req = (sv_req s)(t \<mapsto> pc')\<rparr> a"
proof (rule sim_runner_step [OF assms(1,2) _ assms(4)])
  show "in_runner pc" using assms(5) by auto
  have l: "launching s t tmo jid" using assms(2,5) by (auto simp: launching_def)
  then have n: "r_worker (gw_jobs (sv_gw s)) = None" "a = begun tmo jid (sv_gw s)"
    "pc = QLaunch tmo jid \<longrightarrow> r_running (gw_jobs (sv_gw s))"
    using assms(1,2) by (auto simp: launch_ready_def runner_free_def sv_sim_def)
  show "case pc' of
      QCreate tmo jid \<Rightarrow> r_worker (gw_jobs g) = None \<and> a = g
    | QFlag tmo jid \<Rightarrow> r_worker (gw_jobs g) = None \<and> a = begun tmo jid g
    | QLaunch tmo jid \<Rightarrow> r_worker (gw_jobs g) = None \<and> r_running (gw_jobs g) \<and> a = begun tmo jid g
    | _ \<Rightarrow> a = g"
    using n assms(3,5) by (auto simp: begun_def)
qed

lemma sim_runner_pc:
  assumes "sv_sim s a" and "sv_req s t = Some pc" and "in_runner pc"
    and "req_step (sv_gw s) pc = Moves g pc'"
    and ex: "exclusive \<lparr>sv_gw = g, sv_req = (sv_req s)(t \<mapsto> pc')\<rparr>"
  shows "\<exists>a'. reaches thr a a' \<and> sv_sim \<lparr>sv_gw = g, sv_req = (sv_req s)(t \<mapsto> pc')\<rparr> a'"
proof -
  note sim = sim_runner_step [OF assms(1-3) ex] and at = sim_at_runner [OF assms(1-3)]
  have ready: "launch_ready s" using assms(1) by (simp add: sv_sim_def)
  show ?thesis
  proof (cases pc)
    case (QClear k)
    then have "sv_sim \<lparr>sv_gw = g, sv_req = (sv_req s)(t \<mapsto> pc')\<rparr> g" using assms(4) by (intro sim) auto
    moreover have "gw_step thr a GClear g" using at(1) assms(4) QClear gw_step.Clear by auto
    ultimately show ?thesis using reaches_step by blast
  next
    case (QJoin k)
    then obtain j: "join (sv_gw s) = Some g" "pc' = after_join k" using assms(4) by (auto split: option.splits)
    have "r_worker (gw_jobs g) = None" using j(1) by (auto simp: join_def split: option.splits if_splits)
    then have "sv_sim \<lparr>sv_gw = g, sv_req = (sv_req s)(t \<mapsto> pc')\<rparr> g" using j(2) by (intro sim) (cases k; simp)
    moreover have "gw_step thr a GJoin g" using at(1) j(1) QJoin gw_step.Join by auto
    ultimately show ?thesis using reaches_step by blast
  next
    case (QCreate tmo jid)
    have n: "r_worker (gw_jobs (sv_gw s)) = None"
      using ready assms(2) QCreate by (auto simp: launch_ready_def runner_free_def)
    then have "sv_sim \<lparr>sv_gw = g, sv_req = (sv_req s)(t \<mapsto> pc')\<rparr> (begun tmo jid g)"
      using assms(4) QCreate by (intro sim) auto
    moreover have "launch jid tmo a = Some (begun tmo jid g)"
      using n at(1) QCreate assms(4) by (auto simp: launch_def begun_def)
    then have "gw_step thr a (GLaunch jid tmo) (begun tmo jid g)" by (rule gw_step.Launch)
    ultimately show ?thesis using reaches_step by blast
  next
    case (QFlag tmo jid)
    then show ?thesis using sim_launching [OF assms(1,2,4) ex] reaches_refl by blast
  next
    case (QLaunch tmo jid)
    then show ?thesis using sim_launching [OF assms(1,2,4) ex] reaches_refl by blast
  qed (use assms(3) in simp_all)
qed

lemma reaches_harmless:
  "reaches thr g (g\<lparr>gw_disp := snd (submit x (gw_disp g))\<rparr>)"
  "reaches thr g (g\<lparr>gw_disp := worker_step thr (gw_disp g)\<rparr>)"
  "reaches thr g (if b > 0 then g\<lparr>gw_jobs := set_baudrate b (gw_jobs g)\<rparr> else g)"
  using reaches_step [OF gw_step.Submit] reaches_step [OF gw_step.Worker] reaches_step [OF gw_step.Baud] by auto

lemma plain_after_wait: "plain_pc (after_wait k r)"
  by (cases k) simp_all

lemma sim_plain_pc:
  assumes "sv_sim s a" and "sv_req s t = Some pc" and "\<not> in_runner pc"
    and "req_step (sv_gw s) pc = Moves g pc'"
    and ex: "exclusive \<lparr>sv_gw = g, sv_req = (sv_req s)(t \<mapsto> pc')\<rparr>"
  shows "\<exists>a'. reaches thr a a' \<and> sv_sim \<lparr>sv_gw = g, sv_req = (sv_req s)(t \<mapsto> pc')\<rparr> a'"
proof -
  have pl: "plain_pc pc" "plain_pc pc'"
    using assms(3,4) plain_after_wait by (cases pc; auto split: option.splits sum.splits if_splits prod.splits)+
  have go: "\<exists>a'. reaches thr a a' \<and> sv_sim \<lparr>sv_gw = g, sv_req = (sv_req s)(t \<mapsto> pc')\<rparr> a'"
    if "harmless f" "g = f (sv_gw s)" "reaches thr a (f a)" for f
  proof -
    have "sv_sim \<lparr>sv_gw = g, sv_req = (sv_req s)(t \<mapsto> pc')\<rparr> (f a)"
      by (rule sim_frame [OF assms(1) that(1) _ ex]) (use that(2) pl assms(2) in \<open>auto split: if_splits\<close>)
    then show ?thesis using that(3) by blast
  qed
  consider (baud) cmd baud where "pc = QBaud cmd baud" | (sub) k where "pc = QSubmit k" | (same) "g = sv_gw s"
    using assms(3,4) by (cases pc) (auto split: option.splits sum.splits)
  then show ?thesis
  proof cases
    case (baud cmd baud)
    then show ?thesis using assms(4) by (intro go [OF harmless_baud [of baud]]) (auto simp: reaches_harmless)
  next
    case (sub k)
    then show ?thesis using assms(4)
      by (intro go [OF harmless_disp, of "\<lambda>d. snd (submit (cont_op k) d)"]) (auto simp: reaches_harmless split: prod.splits)
  next
    case same
    then show ?thesis by (intro go [OF harmless_id]) simp_all
  qed
qed

lemma sim_job:
  assumes "sv_sim s a" and "runner_step i (sv_gw s) = Inr g" and "s' = s\<lparr>sv_gw := g\<rparr>" and "exclusive s'"
  shows "\<exists>a'. reaches thr a a' \<and> sv_sim s' a'"
proof (cases "\<exists>t tmo jid. launching s t tmo jid")
  case True
  then have "r_worker (gw_jobs (sv_gw s)) = None"
    using assms(1) by (auto simp: sv_sim_def launch_ready_def runner_free_def)
  then have "s' = s" using assms by (cases s) (simp add: runner_step_def)
  then show ?thesis using assms(1) reaches_refl by blast
next
  case False
  then have a: "a = sv_gw s" using assms(1) by (auto simp: sv_sim_def)
  have "r_worker (gw_jobs g) = None" if "r_worker (gw_jobs (sv_gw s)) = None"
    using assms that by (simp add: runner_step_def)
  then have "sv_sim s' g" using False assms
    by (auto simp: sv_sim_def launch_ready_def launching_def runner_free_def)
  moreover have "gw_step thr a (GJob i) g" using a assms(2) gw_step.Job by auto
  ultimately show ?thesis using reaches_step by blast
qed

lemma sv_sim_step:
  assumes "sv_sim s a" and "sv_step thr s e s'" and "exclusive s'"
  shows "\<exists>a'. reaches thr a a' \<and> sv_sim s' a'"
  using assms(2)
proof cases
  case (Arrive t pc)
  then have "plain_pc pc" by (cases pc) (simp_all add: entry_point_def)
  then have "sv_sim s' a"
    by (intro sim_frame [OF assms(1) harmless_id _ assms(3)]) (use Arrive in \<open>auto split: if_splits\<close>)
  then show ?thesis using reaches_refl by blast
next
  case (Step t pc g pc')
  then show ?thesis
    using sim_plain_pc [OF assms(1) Step(3) _ Step(4)] sim_runner_pc [OF assms(1) Step(3) _ Step(4)] assms(3)
    by (cases "in_runner pc") auto
next
  case (Timeout t pc pc')
  then have "plain_pc pc" "plain_pc pc'" by (cases pc; auto split: if_splits)+
  then have "sv_sim s' a"
    by (intro sim_frame [OF assms(1) harmless_id _ assms(3)]) (use Timeout in \<open>auto split: if_splits\<close>)
  then show ?thesis using reaches_refl by blast
next
  case Worker
  then have "sv_sim s' (a\<lparr>gw_disp := worker_step thr (gw_disp a)\<rparr>)"
    by (intro sim_frame [OF assms(1) harmless_disp _ assms(3)]) auto
  then show ?thesis using reaches_harmless(2) by blast
next
  case (Job i g)
  then show ?thesis using sim_job [OF assms(1)] assms(3) by blast
qed

text \<open>
  Forward simulation, as an interface: a concrete step relation whose steps an abstract one can
  follow. Whatever holds of the abstract states reachable from related initial states holds of the
  abstract side of every concrete run.
\<close>

locale forward_simulation =
  fixes cstep :: "'c \<Rightarrow> 'e \<Rightarrow> 'c \<Rightarrow> bool" and areach :: "'a \<Rightarrow> 'a \<Rightarrow> bool"
    and related :: "'c \<Rightarrow> 'a \<Rightarrow> bool"
  assumes areach_refl: "areach a a"
    and areach_trans: "areach x y \<Longrightarrow> areach y z \<Longrightarrow> areach x z"
    and follows: "related c a \<Longrightarrow> cstep c e c' \<Longrightarrow> \<exists>a'. areach a a' \<and> related c' a'"
begin

inductive crun :: "'c \<Rightarrow> 'e list \<Rightarrow> 'c \<Rightarrow> bool" where
  crun_none: "crun c [] c"
| crun_more: "crun c es c1 \<Longrightarrow> cstep c1 e c2 \<Longrightarrow> crun c (es @ [e]) c2"

lemma run_follows: "crun c es c' \<Longrightarrow> related c a \<Longrightarrow> \<exists>a'. areach a a' \<and> related c' a'"
proof (induction rule: crun.induct)
  case (crun_none c)
  then show ?case using areach_refl by blast
next
  case (crun_more c es c1 e c2)
  then obtain a1 where "areach a a1" "related c1 a1" by blast
  then show ?case using follows [OF _ crun_more(2)] areach_trans by blast
qed

end

interpretation requests: forward_simulation "\<lambda>s e s'. sv_step thr s e s' \<and> exclusive s'" "reaches thr" sv_sim
  for thr
  by unfold_locales (auto intro: reaches_trans dest: sv_sim_step)

lemma exclusive_run: "sv_steps thr exclusive s es s' \<Longrightarrow> requests.crun thr s es s'"
  by (induction rule: sv_steps.induct) (auto intro: requests.crun.intros)

lemma sv_sim_new: "sv_sim (new_server port) (new_Gateway port)"
  by (simp add: sv_sim_def new_server_def exclusive_def launch_ready_def launching_def)

lemma run_simulated:
  assumes "sv_steps thr exclusive (new_server port) es s"
  obtains a where "live thr a" "sv_sim s a" "\<exists>fs. gw_steps thr (new_Gateway port) fs a"
proof -
  obtain a where "reaches thr (new_Gateway port) a" "sv_sim s a"
    using requests.run_follows [OF exclusive_run [OF assms] sv_sim_new] by blast
  then show thesis using that by (auto simp: reaches_def live_def)
qed

section \<open>What every thread can rely on\<close>

text \<open>An entry that exists stays; an answer of a thread is a documented one.\<close>

lemma step_keeps_entries:
  assumes "sv_step thr s e s'" and "job_known (sv_gw s) \<or> r_worker (gw_jobs (sv_gw s)) = None"
    and "jobs (gw_store (sv_gw s)) jid \<noteq> None"
  shows "jobs (gw_store (sv_gw s')) jid \<noteq> None"
  using assms(1)
proof cases
  case (Step t pc g pc')
  then show ?thesis using assms(3)
    by (cases pc) (auto simp: clear_running_def join_def create_def split: option.splits sum.splits if_splits prod.splits)
next
  case (Job i g)
  show ?thesis
  proof (cases "r_worker (gw_jobs (sv_gw s)) = None")
    case True
    then show ?thesis using Job assms(3) by (simp add: runner_step_def)
  next
    case False
    then have "job_known (sv_gw s)" using assms(2) by (elim disjE) simp_all
    then show ?thesis using Job assms(3) by (cases rule: runner_step_cases [where i = i]) auto
  qed
qed (use assms(3) in simp_all)

definition threads_ok :: "server \<Rightarrow> bool" where
  "threads_ok s \<longleftrightarrow> (\<forall>t pc. sv_req s t = Some pc \<longrightarrow>
     (case pc of QGet jid \<Rightarrow> jobs (gw_store (sv_gw s)) jid \<noteq> None
      | QDone resp \<Rightarrow> good_response resp | _ \<Rightarrow> True))"

lemma threads_okD:
  assumes "threads_ok s"
  shows "sv_req s t = Some (QGet jid) \<Longrightarrow> jobs (gw_store (sv_gw s)) jid \<noteq> None"
    and "sv_req s t = Some (QDone resp) \<Longrightarrow> good_response resp"
  using assms unfolding threads_ok_def by fastforce+

lemma sim_known: "sv_sim s a \<Longrightarrow> gw_ok a \<Longrightarrow> job_known (sv_gw s) \<or> r_worker (gw_jobs (sv_gw s)) = None"
  by (cases "\<exists>t tmo jid. launching s t tmo jid")
    (auto simp: sv_sim_def launch_ready_def runner_free_def gw_ok_def)

lemma good_health: "good_response handle_health"
  by (simp add: good_response_def handle_health_def)

lemma after_wait_good: "good_reply r \<Longrightarrow> after_wait k r = QDone resp \<Longrightarrow> good_response resp"
  by (cases k) (auto simp: good_command_response good_response_def good_reply_def split: if_splits)

lemma req_step_good:
  assumes "req_step g pc = Moves g' (QDone resp)" and "\<And>f r. d_proms (gw_disp g) f = Some r \<Longrightarrow> good_reply r"
  shows "good_response resp"
proof (cases pc)
  case (QWait k fut)
  then obtain r where "d_proms (gw_disp g) fut = Some r" "after_wait k r = QDone resp"
    using assms(1) by (auto split: option.splits)
  then show ?thesis using assms(2) after_wait_good by blast
next
  case (QJoin k)
  then show ?thesis using assms(1) by (cases k) (auto split: option.splits)
qed (use assms(1) in \<open>auto simp: good_response_def handle_status_def good_error ensure_data_object_def Let_def
    split: option.splits sum.splits if_splits prod.splits\<close>)

lemma threads_ok_step:
  assumes "sv_step thr s e s'" and "threads_ok s" and "sv_sim s a" and "live thr a"
  shows "threads_ok s'"
proof -
  have d: "good_reply r" if "d_proms (gw_disp (sv_gw s)) f = Some r" for f r
    using live_prom [OF assms(4)] sv_sim_shared(2) [OF assms(3)] that by simp
  have k: "jobs (gw_store (sv_gw s)) jid \<noteq> None \<Longrightarrow> jobs (gw_store (sv_gw s')) jid \<noteq> None" for jid
    using step_keeps_entries [OF assms(1) sim_known [OF assms(3) live_ok [OF assms(4)]]] .
  have old: "case pc of QGet jid \<Rightarrow> jobs (gw_store (sv_gw s')) jid \<noteq> None
      | QDone resp \<Rightarrow> good_response resp | _ \<Rightarrow> True" if "sv_req s t = Some pc" for t pc
    using assms(2) that k unfolding threads_ok_def by (force split: req_pc.splits)
  from assms(1) show ?thesis
  proof cases
    case (Arrive t pc)
    then have "case pc of QGet jid \<Rightarrow> jobs (gw_store (sv_gw s')) jid \<noteq> None
      | QDone resp \<Rightarrow> good_response resp | _ \<Rightarrow> True"
      by (cases pc) (auto simp: entry_point_def good_health)
    then show ?thesis using old Arrive(2) unfolding threads_ok_def by (auto split: if_splits)
  next
    case (Step t pc g pc')
    have "case pc' of QGet jid \<Rightarrow> jobs (gw_store (sv_gw s')) jid \<noteq> None
      | QDone resp \<Rightarrow> good_response resp | _ \<Rightarrow> True"
    proof (cases pc')
      case (QGet jid)
      then have "pc = QExists jid \<and> exists_job jid (gw_store (sv_gw s)) \<and> g = sv_gw s"
        using Step(4) by (cases pc) (auto split: option.splits sum.splits if_splits prod.splits
            elim!: after_join.elims after_wait.elims)
      then show ?thesis using QGet Step(2) by (auto simp: exists_job_def split: option.splits)
    next
      case (QDone resp)
      then show ?thesis using Step req_step_good d by auto
    qed simp_all
    then show ?thesis using old Step(2) unfolding threads_ok_def by (auto split: if_splits)
  next
    case (Timeout t pc pc')
    then have "pc' = QDone (error_response 503 ''ERR:BUSY'')" by (cases pc) (auto split: if_splits)
    then show ?thesis using old Timeout(2) unfolding threads_ok_def by (auto simp: good_error split: if_splits)
  qed (use old in \<open>auto simp: threads_ok_def\<close>)
qed

section \<open>Progress\<close>

fun req_fuel :: "req_pc \<Rightarrow> nat" where
  "req_fuel (QSubmit k) = (case k of KStart tmo jid \<Rightarrow> 8 | _ \<Rightarrow> 2)"
| "req_fuel (QWait k fut) = (case k of KStart tmo jid \<Rightarrow> 7 | _ \<Rightarrow> 1)"
| "req_fuel (QClear k) = (case k of KStart tmo jid \<Rightarrow> 6 | _ \<Rightarrow> 4)"
| "req_fuel (QJoin k) = (case k of KStart tmo jid \<Rightarrow> 5 | _ \<Rightarrow> 3)"
| "req_fuel (QBaud cmd baud) = 5"
| "req_fuel (QCreate tmo jid) = 4" | "req_fuel (QFlag tmo jid) = 3" | "req_fuel (QLaunch tmo jid) = 2"
| "req_fuel (QExists jid) = 3" | "req_fuel (QGet jid) = 2" | "req_fuel (QDone resp) = 0"
| "req_fuel _ = 1"

lemma req_fuel_max: "req_fuel pc \<le> 8"
  by (cases pc) (simp_all split: req_cont.split)

lemma req_fuel_step: "req_step g pc = Moves g' pc' \<Longrightarrow> req_fuel pc' < req_fuel pc"
proof (cases pc)
  case (QWait k fut)
  then show "req_step g pc = Moves g' pc' \<Longrightarrow> req_fuel pc' < req_fuel pc"
    by (cases k) (auto split: option.splits if_splits)
next
  case (QJoin k)
  then show "req_step g pc = Moves g' pc' \<Longrightarrow> req_fuel pc' < req_fuel pc"
    by (cases k) (auto split: option.splits)
qed (auto split: option.splits sum.splits prod.splits req_cont.splits if_splits)

lemma req_fuel_timeout: "req_timeout g pc = Some pc' \<Longrightarrow> req_fuel pc' < req_fuel pc"
  by (cases pc) (auto split: if_splits req_cont.split)

fun own_events :: "nat \<Rightarrow> sv_event list \<Rightarrow> nat" where
  "own_events t [] = 0"
| "own_events t (SvStep u # es) = (if u = t then 1 else 0) + own_events t es"
| "own_events t (SvTimeout u # es) = (if u = t then 1 else 0) + own_events t es"
| "own_events t (_ # es) = own_events t es"

fun job_events :: "sv_event list \<Rightarrow> nat" where
  "job_events [] = 0"
| "job_events (SvJob i # es) = Suc (job_events es)"
| "job_events (_ # es) = job_events es"

lemma own_events_append [simp]: "own_events t (es @ fs) = own_events t es + own_events t fs"
  by (induction t es rule: own_events.induct) auto

lemma job_events_append [simp]: "job_events (es @ fs) = job_events es + job_events fs"
  by (induction es rule: job_events.induct) auto

lemma own_step:
  assumes "sv_step thr s e s'" and "sv_req s t = Some pc"
  shows "\<exists>pc'. sv_req s' t = Some pc' \<and> own_events t [e] + req_fuel pc' \<le> req_fuel pc \<and>
    (own_events t [e] = 0 \<longrightarrow> pc' = pc)"
  using assms(1)
proof cases
  case (Step u qc g pc')
  then show ?thesis using assms(2) req_fuel_step [of "sv_gw s" pc g pc'] by (cases "u = t") auto
next
  case (Timeout u qc pc')
  then show ?thesis using assms(2) req_fuel_timeout [of "sv_gw s" pc pc'] by (cases "u = t") auto
qed (use assms(2) in auto)

lemma own_steps:
  "sv_steps thr P s es s' \<Longrightarrow> sv_req s t = Some pc \<Longrightarrow>
     \<exists>pc'. sv_req s' t = Some pc' \<and> own_events t es + req_fuel pc' \<le> req_fuel pc \<and>
       (own_events t es = 0 \<longrightarrow> pc' = pc)"
proof (induction rule: sv_steps.induct)
  case (one_more s es s1 e s2)
  from one_more.IH [OF one_more.prems] obtain pc1 where 1: "sv_req s1 t = Some pc1"
    "own_events t es + req_fuel pc1 \<le> req_fuel pc" "own_events t es = 0 \<longrightarrow> pc1 = pc"
    by (elim exE conjE)
  from own_step [OF one_more(2) 1(1)] obtain pc2 where 2: "sv_req s2 t = Some pc2"
    "own_events t [e] + req_fuel pc2 \<le> req_fuel pc1" "own_events t [e] = 0 \<longrightarrow> pc2 = pc1"
    by (elim exE conjE)
  have "own_events t (es @ [e]) + req_fuel pc2 \<le> req_fuel pc" using 1(2) 2(2) by (simp only: own_events_append)
  then show ?case using 1(3) 2(1,3) by (intro exI [of _ pc2]) (simp only: own_events_append, simp)
qed simp

text \<open>While a thread waits in \<^verbatim>\<open>join\<close>, nobody sets the flag, and each step of the job thread brings it
  closer to its end.\<close>

definition joining :: "server \<Rightarrow> nat \<Rightarrow> bool" where
  "joining s t \<longleftrightarrow> (\<exists>k. sv_req s t = Some (QJoin k)) \<and> \<not> r_running (gw_jobs (sv_gw s)) \<and> exclusive s"

lemma joining_step:
  assumes "joining s t" and "sv_step thr s e s'" and "exclusive s'" and "own_events t [e] = 0"
    and "job_known (sv_gw s) \<or> r_worker (gw_jobs (sv_gw s)) = None"
  shows "joining s' t \<and> steps_left (sv_gw s') \<le> steps_left (sv_gw s) - job_events [e]"
proof -
  obtain k where k: "sv_req s t = Some (QJoin k)" using assms(1) by (auto simp: joining_def)
  then have k': "sv_req s' t = Some (QJoin k)" using own_step [OF assms(2) k] assms(4) by auto
  have r: "\<not> r_running (gw_jobs (sv_gw s))" using assms(1) by (simp add: joining_def)
  have "\<not> r_running (gw_jobs (sv_gw s')) \<and> steps_left (sv_gw s') \<le> steps_left (sv_gw s) - job_events [e]"
    using assms(2)
  proof cases
    case (Step u pc g pc')
    then have "u \<noteq> t" using assms(4) by auto
    then have "\<not> in_runner pc" using assms(1) k Step(3) unfolding joining_def exclusive_def
      by (metis in_runner.simps(2))
    then have "r_running (gw_jobs g) = r_running (gw_jobs (sv_gw s)) \<and> r_worker (gw_jobs g) = r_worker (gw_jobs (sv_gw s))"
      using Step(4) by (cases pc) (auto simp: set_baudrate_def split: option.splits sum.splits prod.splits if_splits)
    then show ?thesis using r Step(1,2) by (simp add: steps_left_def)
  next
    case (Job i g)
    show ?thesis
    proof (cases "r_worker (gw_jobs (sv_gw s)) = None")
      case True
      then show ?thesis using Job r by (simp add: runner_step_def steps_left_def)
    next
      case False
      then have "job_known (sv_gw s)" using assms(5) by (elim disjE) simp_all
      then show ?thesis using runner_step_fuel [OF Job(3) r] Job by simp
    qed
  qed (use r in \<open>simp_all add: steps_left_def\<close>)
  then show ?thesis using k' assms(3) by (auto simp: joining_def)
qed

lemma exclusive_last: "sv_steps thr exclusive s es s' \<Longrightarrow> exclusive s'"
  by (induction rule: sv_steps.induct) auto

lemma sim_run:
  assumes "sv_steps thr exclusive s es s'" and "sv_sim s a" and "live thr a"
  shows "\<exists>a'. sv_sim s' a' \<and> live thr a'"
  using requests.run_follows [OF exclusive_run [OF assms(1)] assms(2)] assms(3) live_reaches by blast

lemma joining_run:
  "sv_steps thr exclusive s es s' \<Longrightarrow> joining s t \<Longrightarrow> own_events t es = 0 \<Longrightarrow> sv_sim s a \<Longrightarrow> live thr a \<Longrightarrow>
     joining s' t \<and> steps_left (sv_gw s') \<le> steps_left (sv_gw s) - job_events es"
proof (induction rule: sv_steps.induct)
  case (one_more s es s1 e s2)
  then have 1: "joining s1 t" "steps_left (sv_gw s1) \<le> steps_left (sv_gw s) - job_events es" by auto
  obtain a1 where a1: "sv_sim s1 a1" "live thr a1" using sim_run [OF one_more(1)] one_more.prems(3,4) by blast
  from joining_step [OF 1(1) one_more(2,3) _ sim_known [OF a1(1) live_ok [OF a1(2)]]] one_more.prems(2) 1(2)
  show ?case by auto
qed simp

text \<open>A thread in \<^verbatim>\<open>join\<close> has cleared the flag.\<close>

definition join_clear :: "server \<Rightarrow> bool" where
  "join_clear s \<longleftrightarrow> (\<forall>t k. sv_req s t = Some (QJoin k) \<longrightarrow> \<not> r_running (gw_jobs (sv_gw s)))"

lemma new_join:
  assumes "sv_step thr s e s'" and "sv_req s' t = Some (QJoin k)"
  shows "sv_req s t = Some (QJoin k) \<and> own_events t [e] = 0 \<or> \<not> r_running (gw_jobs (sv_gw s'))"
  using assms(1)
proof cases
  case (Step u pc g pc')
  show ?thesis
  proof (cases "u = t")
    case True
    then have "req_step (sv_gw s) pc = Moves g (QJoin k)" using Step assms(2) by simp
    then have "g = clear_running (sv_gw s)"
      by (cases pc) (auto split: option.splits sum.splits if_splits prod.splits
          elim!: after_join.elims after_wait.elims)
    then show ?thesis using Step(2) by (simp add: clear_running_def)
  next
    case False
    then show ?thesis using Step(1,2) assms(2) by simp
  qed
next
  case (Timeout u pc pc')
  then have "\<exists>resp. pc' = QDone resp" by (cases pc) (auto split: if_splits)
  then show ?thesis using Timeout(1,2) assms(2) by (auto split: if_splits)
qed (use assms(2) in \<open>auto simp: entry_point_def split: if_splits\<close>)

lemma join_clear_run:
  "sv_steps thr exclusive s es s' \<Longrightarrow> join_clear s \<Longrightarrow> sv_sim s a \<Longrightarrow> live thr a \<Longrightarrow> join_clear s'"
proof (induction rule: sv_steps.induct)
  case (one_more s es s1 e s2)
  obtain a1 where a1: "sv_sim s1 a1" "live thr a1" using sim_run [OF one_more(1)] one_more.prems(2,3) by blast
  note known = sim_known [OF a1(1) live_ok [OF a1(2)]]
  have c: "join_clear s1" using one_more.IH one_more.prems by blast
  have "\<not> r_running (gw_jobs (sv_gw s2))" if k: "sv_req s2 t = Some (QJoin k)" for t k
    using new_join [OF one_more(2) k]
  proof (elim disjE conjE)
    assume o: "sv_req s1 t = Some (QJoin k)" "own_events t [e] = 0"
    then have "joining s1 t" using c exclusive_last [OF one_more(1)] by (auto simp: joining_def join_clear_def)
    then show ?thesis using joining_step [OF _ one_more(2,3) o(2) known] by (simp add: joining_def)
  qed
  then show ?case unfolding join_clear_def by blast
qed

section \<open>Running the relation\<close>

fun sv_run :: "(nat \<Rightarrow> bool) \<Rightarrow> sv_event list \<Rightarrow> server \<Rightarrow> server option" where
  "sv_run thr [] s = Some s"
| "sv_run thr (e # es) s = (case sv_exec thr e s of None \<Rightarrow> None | Some s' \<Rightarrow> sv_run thr es s')"

lemma sv_run_append:
  "sv_run thr (es @ fs) s = (case sv_run thr es s of None \<Rightarrow> None | Some s' \<Rightarrow> sv_run thr fs s')"
  by (induction es arbitrary: s) (simp_all split: option.split)

lemma sv_step_exec: "sv_exec thr e s = Some s' \<Longrightarrow> sv_step thr s e s'"
  by (cases e) (auto intro: sv_step.intros split: option.splits req_out.splits sum.splits if_splits)

text \<open>Exclusion, checked on a list of thread numbers.\<close>

definition exclusive_on :: "nat list \<Rightarrow> server \<Rightarrow> bool" where
  "exclusive_on ts s \<longleftrightarrow>
     length (filter (\<lambda>t. case sv_req s t of None \<Rightarrow> False | Some pc \<Rightarrow> in_runner pc) ts) \<le> 1"

fun sv_run_on :: "nat list \<Rightarrow> (nat \<Rightarrow> bool) \<Rightarrow> sv_event list \<Rightarrow> server \<Rightarrow> server option" where
  "sv_run_on ts thr [] s = (if exclusive_on ts s then Some s else None)"
| "sv_run_on ts thr (e # es) s =
     (if exclusive_on ts s \<and> (case e of SvArrive t pc \<Rightarrow> t \<in> set ts | _ \<Rightarrow> True)
      then (case sv_exec thr e s of None \<Rightarrow> None | Some s' \<Rightarrow> sv_run_on ts thr es s') else None)"

lemma exclusive_on_sound:
  assumes "exclusive_on ts s" and "dom (sv_req s) \<subseteq> set ts"
  shows "exclusive s"
  unfolding exclusive_def
proof (intro allI impI)
  fix t u pc qc
  assume r: "sv_req s t = Some pc" "sv_req s u = Some qc" "in_runner pc" "in_runner qc"
  let ?f = "filter (\<lambda>t. case sv_req s t of None \<Rightarrow> False | Some pc \<Rightarrow> in_runner pc) ts"
  have "t \<in> set ?f" "u \<in> set ?f" using r assms(2) by (auto split: option.splits)
  moreover have "length ?f \<le> 1" using assms(1) by (simp add: exclusive_on_def)
  ultimately show "t = u" by (cases ?f) auto
qed

lemma sv_exec_dom:
  "sv_exec thr e s = Some s' \<Longrightarrow> dom (sv_req s) \<subseteq> set ts \<Longrightarrow> (case e of SvArrive t pc \<Rightarrow> t \<in> set ts | _ \<Rightarrow> True) \<Longrightarrow>
     dom (sv_req s') \<subseteq> set ts"
  by (cases e) (auto simp: dom_def subset_iff split: option.splits req_out.splits sum.splits if_splits)

lemma sv_steps_Cons:
  "sv_steps thr P s1 es s2 \<Longrightarrow> sv_step thr s e s1 \<Longrightarrow> P s \<Longrightarrow> sv_steps thr P s (e # es) s2"
proof (induction rule: sv_steps.induct)
  case (no_step s1)
  then show ?case using sv_steps.one_more [OF sv_steps.no_step, of P s thr e s1] by simp
next
  case (one_more s1 es s2 e' s3)
  then show ?case using sv_steps.one_more [of thr P s "e # es" s2 e' s3] by simp
qed

lemma sv_run_steps: "sv_run thr es s = Some s' \<Longrightarrow> sv_steps thr (\<lambda>_. True) s es s'"
proof (induction es arbitrary: s)
  case Nil
  then show ?case using sv_steps.no_step by simp
next
  case (Cons e es)
  then obtain s1 where "sv_exec thr e s = Some s1" "sv_run thr es s1 = Some s'" by (auto split: option.splits)
  then show ?case using Cons.IH sv_steps_Cons sv_step_exec by blast
qed

lemma sv_run_on_steps:
  "sv_run_on ts thr es s = Some s' \<Longrightarrow> dom (sv_req s) \<subseteq> set ts \<Longrightarrow> sv_steps thr exclusive s es s'"
proof (induction es arbitrary: s)
  case Nil
  then show ?case using sv_steps.no_step exclusive_on_sound by (auto split: if_splits)
next
  case (Cons e es)
  then obtain s1 where s1: "sv_exec thr e s = Some s1" "sv_run_on ts thr es s1 = Some s'" "exclusive_on ts s"
    "case e of SvArrive t pc \<Rightarrow> t \<in> set ts | _ \<Rightarrow> True" by (auto split: option.splits if_splits)
  have "sv_steps thr exclusive s1 es s'" using Cons.IH [OF s1(2) sv_exec_dom [OF s1(1) Cons.prems(2) s1(4)]] .
  then show ?case
    using sv_steps_Cons sv_step_exec [OF s1(1)] exclusive_on_sound [OF s1(3) Cons.prems(2)] by blast
qed

section \<open>A handler alone\<close>

text \<open>The handlers of \<open>Rest_Server\<close> are the runs of a single request thread.\<close>

abbreviation alone :: "Gateway \<Rightarrow> req_pc \<Rightarrow> server" where
  "alone g pc \<equiv> \<lparr>sv_gw = g, sv_req = [0 \<mapsto> pc]\<rparr>"

fun bg_sv :: "bg \<Rightarrow> sv_event" where
  "bg_sv BgWorker = SvWorker" | "bg_sv (BgJob i) = SvJob i"

definition runs_to :: "(nat \<Rightarrow> bool) \<Rightarrow> Gateway \<Rightarrow> req_pc \<Rightarrow> Gateway \<Rightarrow> req_pc \<Rightarrow> bool" where
  "runs_to thr g pc g' pc' \<longleftrightarrow>
     (\<exists>es. (\<forall>e \<in> set es. e \<in> {SvStep 0, SvTimeout 0, SvWorker} \<or> (\<exists>i. e = SvJob i)) \<and>
        sv_run thr es (alone g pc) = Some (alone g' pc'))"

lemma runs_to_refl: "runs_to thr g pc g pc"
  unfolding runs_to_def by (rule exI [of _ "[]"]) simp

lemma runs_to_trans: "runs_to thr g pc g1 pc1 \<Longrightarrow> runs_to thr g1 pc1 g2 pc2 \<Longrightarrow> runs_to thr g pc g2 pc2"
  unfolding runs_to_def
proof (elim exE conjE)
  fix es fs
  assume "sv_run thr es (alone g pc) = Some (alone g1 pc1)" "sv_run thr fs (alone g1 pc1) = Some (alone g2 pc2)"
    and "\<forall>e \<in> set es. e \<in> {SvStep 0, SvTimeout 0, SvWorker} \<or> (\<exists>i. e = SvJob i)"
    and "\<forall>e \<in> set fs. e \<in> {SvStep 0, SvTimeout 0, SvWorker} \<or> (\<exists>i. e = SvJob i)"
  then show "\<exists>es. (\<forall>e \<in> set es. e \<in> {SvStep 0, SvTimeout 0, SvWorker} \<or> (\<exists>i. e = SvJob i)) \<and>
      sv_run thr es (alone g pc) = Some (alone g2 pc2)"
    by (intro exI [of _ "es @ fs"]) (auto simp: sv_run_append)
qed

lemma runs_to_step: "req_step g pc = Moves g' pc' \<Longrightarrow> runs_to thr g pc g' pc'"
  unfolding runs_to_def by (rule exI [of _ "[SvStep 0]"]) (auto simp: fun_upd_def)

lemma runs_to_timeout: "req_timeout g pc = Some pc' \<Longrightarrow> runs_to thr g pc g pc'"
  unfolding runs_to_def by (rule exI [of _ "[SvTimeout 0]"]) (auto simp: fun_upd_def)

lemma runs_to_background: "background thr sched g = Inr g' \<Longrightarrow> runs_to thr g pc g' pc"
proof -
  assume "background thr sched g = Inr g'"
  then have "gw_run thr (map bg_event sched) g = Some g'" by (simp add: background_def split: option.splits)
  then have "sv_run thr (map bg_sv sched) (alone g pc) = Some (alone g' pc)"
  proof (induction sched arbitrary: g)
    case (Cons x sched)
    then show ?case by (cases x) (auto split: option.splits sum.splits)
  qed simp
  moreover have "\<forall>e \<in> set (map bg_sv sched). e \<in> {SvStep 0, SvTimeout 0, SvWorker} \<or> (\<exists>i. e = SvJob i)"
  proof
    fix e
    assume "e \<in> set (map bg_sv sched)"
    then obtain x where "e = bg_sv x" by auto
    then show "e \<in> {SvStep 0, SvTimeout 0, SvWorker} \<or> (\<exists>i. e = SvJob i)" by (cases x) auto
  qed
  ultimately show ?thesis unfolding runs_to_def by blast
qed

lemma runs_to_stop:
  assumes "runner_stop thr sched g = Inr g'"
  shows "runs_to thr g (QClear k) g' (after_join k)"
proof -
  obtain g1 where b: "background thr sched (clear_running g) = Inr g1" and j: "join g1 = Some g'"
    using assms by (auto simp: runner_stop_def split: sum.splits option.splits)
  have 1: "runs_to thr g (QClear k) (clear_running g) (QJoin k)" by (rule runs_to_step) simp
  have "runs_to thr g1 (QJoin k) g' (after_join k)" by (rule runs_to_step) (simp add: j)
  then show ?thesis by (rule runs_to_trans [OF 1 runs_to_trans [OF runs_to_background [OF b]]])
qed

lemma runs_to_wait:
  assumes "submit_and_wait thr sched (cont_op k) g = Inr (r, g')"
  shows "runs_to thr g (QSubmit k) g'
    (case r of None \<Rightarrow> QDone (error_response 503 ''ERR:BUSY'') | Some r \<Rightarrow> after_wait k r)"
proof -
  obtain fut d where sb: "submit (cont_op k) (gw_disp g) = (fut, d)" by fastforce
  then have b: "background thr sched (g\<lparr>gw_disp := d\<rparr>) = Inr g'" and r: "r = d_proms (gw_disp g') fut"
    using assms by (auto simp: submit_and_wait_def split: sum.splits)
  have 1: "runs_to thr g (QSubmit k) (g\<lparr>gw_disp := d\<rparr>) (QWait k fut)"
    by (rule runs_to_step) (simp add: sb)
  have "runs_to thr g' (QWait k fut) g'
      (case r of None \<Rightarrow> QDone (error_response 503 ''ERR:BUSY'') | Some r \<Rightarrow> after_wait k r)"
  proof (cases r)
    case None
    then have "req_timeout g' (QWait k fut) = Some (QDone (error_response 503 ''ERR:BUSY''))"
      using r by simp
    then show ?thesis using None runs_to_timeout by simp
  next
    case (Some x)
    then have "req_step g' (QWait k fut) = Moves g' (after_wait k x)" using r by (simp split: option.split)
    then show ?thesis using Some runs_to_step by simp
  qed
  then show ?thesis by (rule runs_to_trans [OF 1 runs_to_trans [OF runs_to_background [OF b]]])
qed

lemma runs_to_start:
  assumes "runner_start thr sched rd tmo g = Inr (jid, g')"
  shows "runs_to thr g (QClear (KStart tmo (gen_id rd))) g' (QDone (start_response jid (gw_state g')))"
proof -
  obtain g1 where st: "runner_stop thr sched g = Inr g1" and l: "launch (gen_id rd) tmo g1 = Some g'"
    and j: "jid = gen_id rd"
    using assms by (auto simp: runner_start_def split: sum.splits option.splits)
  let ?g2 = "g1\<lparr>gw_store := create jid (gw_store g1)\<rparr>"
  let ?g3 = "?g2\<lparr>gw_jobs := (gw_jobs ?g2)\<lparr>r_running := True\<rparr>\<rparr>"
  have n: "r_worker (gw_jobs g1) = None" and g': "g' = ?g3\<lparr>gw_jobs := (gw_jobs ?g3)\<lparr>r_worker := Some (new_thread jid tmo)\<rparr>\<rparr>"
    using l j by (auto simp: launch_def split: if_splits)
  have 1: "runs_to thr g1 (QCreate tmo jid) ?g2 (QFlag tmo jid)" by (rule runs_to_step) simp
  have 2: "runs_to thr ?g2 (QFlag tmo jid) ?g3 (QLaunch tmo jid)" by (rule runs_to_step) simp
  have 3: "runs_to thr ?g3 (QLaunch tmo jid) g' (QStarted jid)"
    using n unfolding g' by (intro runs_to_step) simp
  have 4: "runs_to thr g' (QStarted jid) g' (QDone (start_response jid (gw_state g')))"
    by (rule runs_to_step) simp
  have "runs_to thr g (QClear (KStart tmo jid)) g1 (QCreate tmo jid)"
    using runs_to_stop [OF st, of "KStart tmo jid"] by simp
  note runs_to_trans [OF this runs_to_trans [OF 1 runs_to_trans [OF 2 runs_to_trans [OF 3 4]]]]
  then show ?thesis using j by simp
qed

lemma runs_to_command:
  assumes "run_command thr s1 s2 cmd baud g = Inr (resp, g')"
  shows "runs_to thr g (QBaud cmd baud) g' (QDone resp)"
proof -
  let ?g1 = "if baud > 0 then g\<lparr>gw_jobs := set_baudrate baud (gw_jobs g)\<rparr> else g"
  obtain g2 where g2: "(if cmd = ''STOP'' then runner_stop thr s1 ?g1 else Inr ?g1) = Inr g2"
    using assms by (auto simp: run_command_def Let_def split: sum.splits)
  have "runs_to thr g (QBaud cmd baud) ?g1 (if cmd = ''STOP'' then QClear (KCommand cmd) else QSubmit (KCommand cmd))"
    by (rule runs_to_step) simp
  moreover have "runs_to thr ?g1 (if cmd = ''STOP'' then QClear (KCommand cmd) else QSubmit (KCommand cmd))
      g2 (QSubmit (KCommand cmd))"
    using g2 runs_to_stop [of thr s1 ?g1 g2 "KCommand cmd"] runs_to_refl by (cases "cmd = ''STOP''") auto
  moreover obtain r where w: "submit_and_wait thr s2 (OpSync cmd) g2 = Inr (r, g')"
    and resp: "resp = (case r of None \<Rightarrow> error_response 503 ''ERR:BUSY'' | Some r \<Rightarrow> command_response r)"
    using assms unfolding run_command_def Let_def g2 by (auto split: sum.splits option.splits)
  moreover have "runs_to thr g2 (QSubmit (KCommand cmd)) g' (QDone resp)"
    using runs_to_wait [of thr s2 "KCommand cmd" g2 r g'] w resp by (cases r) simp_all
  ultimately show ?thesis using runs_to_trans by blast
qed

lemma runs_to_result:
  assumes "handle_result jid g = Inr resp"
  shows "runs_to thr g (QExists jid) g (QDone resp)"
proof (cases "exists_job jid (gw_store g)")
  case True
  then obtain res where res: "get_job jid (gw_store g) = Inr res" using store.guarded_fetch by blast
  have "runs_to thr g (QExists jid) g (QGet jid)" using True by (intro runs_to_step) simp
  moreover have "runs_to thr g (QGet jid) g (QGot jid res)" using res by (intro runs_to_step) simp
  moreover have "runs_to thr g (QGot jid res) g (QDone (result_response jid res (gw_state g)))"
    by (intro runs_to_step) simp
  ultimately have "runs_to thr g (QExists jid) g (QDone (result_response jid res (gw_state g)))"
    using runs_to_trans by blast
  moreover have "resp = result_response jid res (gw_state g)" using assms True res by (auto simp: handle_result_def)
  ultimately show ?thesis by simp
qed (use assms in \<open>auto simp: handle_result_def intro!: runs_to_step\<close>)

lemma runs_to_stop_handler:
  assumes "handle_stop thr s1 s2 g = Inr (resp, g')"
  shows "runs_to thr g (QClear KStop) g' (QDone resp)"
proof -
  obtain g1 where st: "runner_stop thr s1 g = Inr g1" using assms by (auto simp: handle_stop_def split: sum.splits)
  moreover obtain r where w: "submit_and_wait thr s2 OpStop g1 = Inr (r, g')"
    and resp: "resp = (case r of None \<Rightarrow> error_response 503 ''ERR:BUSY'' | Some r \<Rightarrow> stop_response r)"
    using assms st by (auto simp: handle_stop_def split: sum.splits option.splits)
  moreover have "runs_to thr g1 (QSubmit KStop) g' (QDone resp)"
    using runs_to_wait [of thr s2 KStop g1 r g'] w resp by (cases r) simp_all
  ultimately show ?thesis using runs_to_stop [OF st, of KStop] runs_to_trans by fastforce
qed

lemma runs_to_start_handler:
  assumes "handle_start srv cj thr rd s1 s2 b g = Inr (resp, g')"
    and p: "parse_json_object cj b = Inr body" "start_timeout srv cj body = Some tmo"
  shows "runs_to thr g (QSubmit (KStart tmo (gen_id rd))) g' (QDone resp)"
proof -
  let ?k = "KStart tmo (gen_id rd)"
  obtain r g1 where w: "submit_and_wait thr s1 (OpStart tmo) g = Inr (r, g1)"
    and rest: "(case r of None \<Rightarrow> Inr (error_response 503 ''ERR:BUSY'', g1)
      | Some r \<Rightarrow> if \<not> resp_ok r then Inr (error_response (http_status r) (resp_message r), g1)
          else (case runner_start thr s2 rd tmo g1 of Inl e \<Rightarrow> Inl e
                | Inr (jobId, g2) \<Rightarrow> Inr (start_response jobId (gw_state g2), g2))) = Inr (resp, g')"
    using assms by (auto simp: handle_start_def split: sum.splits option.splits)
  have "runs_to thr g (QSubmit ?k) g1
      (case r of None \<Rightarrow> QDone (error_response 503 ''ERR:BUSY'') | Some r \<Rightarrow> after_wait ?k r)"
    using runs_to_wait [of thr s1 ?k g r g1] w by simp
  moreover have "runs_to thr g1
      (case r of None \<Rightarrow> QDone (error_response 503 ''ERR:BUSY'') | Some r \<Rightarrow> after_wait ?k r) g' (QDone resp)"
    using rest runs_to_start runs_to_refl by (cases r) (auto split: if_splits sum.splits)
  ultimately show ?thesis using runs_to_trans by blast
qed

lemma runs_to_serve:
  assumes "serve e req g = Inr (resp, g')"
  shows "runs_to (re_thr e) g (req_entry (re_srv e) (re_json e) (re_ub e) (re_rd e) req) g' (QDone resp)"
proof (cases req)
  case GetHealth
  then show ?thesis using assms runs_to_refl by simp
next
  case GetStatus
  then show ?thesis using assms by (auto intro: runs_to_step)
next
  case (PostCommand b)
  then show ?thesis using assms runs_to_refl runs_to_command
    by (fastforce simp: handle_command_def split: sum.splits prod.splits)
next
  case (GetResult jid)
  then show ?thesis using assms runs_to_result by (auto split: sum.splits)
next
  case PostStop
  then show ?thesis using assms runs_to_stop_handler by simp
next
  case (PostStart b)
  show ?thesis
  proof (cases "\<exists>body tmo. parse_json_object (re_json e) b = Inr body \<and> start_timeout (re_srv e) (re_json e) body = Some tmo")
    case False
    then show ?thesis using assms PostStart runs_to_refl
      by (auto simp: handle_start_def split: sum.splits option.splits)
  next
    case True
    then show ?thesis using assms PostStart runs_to_start_handler by fastforce
  qed
qed

section \<open>Concrete runs\<close>

definition command_run :: "nat \<Rightarrow> string \<Rightarrow> sv_event list" where
  "command_run t cmd =
     [SvArrive t (QBaud cmd (- 1)), SvStep t, SvStep t] @ replicate 3 SvWorker @ [SvStep t]"

text \<open>\<^verbatim>\<open>/start\<close> up to the answer of the core, and \<^verbatim>\<open>/stop\<close> with no job thread to wait for.\<close>

definition accept_run :: "nat \<Rightarrow> job_id \<Rightarrow> sv_event list" where
  "accept_run t jid = [SvArrive t (QSubmit (KStart 100 jid)), SvStep t] @ replicate 3 SvWorker"

definition stop_run :: "nat \<Rightarrow> sv_event list" where
  "stop_run t = [SvArrive t (QClear KStop), SvStep t, SvStep t, SvStep t] @ replicate 3 SvWorker @ [SvStep t]"

definition started_events :: "sv_event list" where
  "started_events = command_run 0 ''INIT'' @ accept_run 1 ''0badcafe'' @ replicate 7 (SvStep 1) @ [SvJob (quiet_in 0)]"

definition raced_events :: "sv_event list" where
  "raced_events = command_run 0 ''INIT'' @ accept_run 1 ''0badcafe'' @ stop_run 2 @
     replicate 7 (SvStep 1) @ [SvJob (quiet_in 0)]"

definition stale_events :: "sv_event list" where
  "stale_events = raced_events @ command_run 3 ''INIT'' @ accept_run 4 ''0badf00d'' @ replicate 2 (SvStep 4) @
     replicate 7 (SvJob (quiet_in 5)) @ replicate 5 (SvStep 4) @ replicate 3 SvWorker @ [SvJob (quiet_in 6)]"

definition crash_events :: "sv_event list" where
  "crash_events = command_run 0 ''INIT'' @ accept_run 1 ''0badcafe'' @ replicate 3 (SvStep 1) @
     stop_run 2 @ command_run 3 ''INIT'' @ accept_run 4 ''0badf00d'' @ replicate 7 (SvStep 4) @
     replicate 2 (SvStep 1)"

abbreviation no_throw :: "nat \<Rightarrow> bool" where
  "no_throw \<equiv> \<lambda>_. False"

lemma run_case:
  assumes "case sv_run_on ts thr es (new_server port) of None \<Rightarrow> False | Some s \<Rightarrow> Q s"
  shows "\<exists>s. sv_steps thr exclusive (new_server port) es s \<and> Q s"
proof -
  obtain s where "sv_run_on ts thr es (new_server port) = Some s" "Q s" using assms by (auto split: option.splits)
  moreover have "dom (sv_req (new_server port)) \<subseteq> set ts" by (simp add: new_server_def)
  ultimately show ?thesis using sv_run_on_steps by blast
qed

lemma started_run:
  "\<exists>s. sv_steps no_throw exclusive (new_server ''/dev/ttyS1'') started_events s \<and> r_running (gw_jobs (sv_gw s))"
  by (rule run_case [where ts = "[0, 1]"]) code_simp

lemma accepted_run:
  "\<exists>s. sv_steps no_throw exclusive (new_server ''/dev/ttyS1'') (command_run 0 ''INIT'' @ accept_run 1 ''0badcafe'') s \<and>
     sv_req s 1 = Some (QWait (KStart 100 ''0badcafe'') 1)"
  by (rule run_case [where ts = "[0, 1]"]) code_simp

section \<open>Properties\<close>

lemma threads_ok_run:
  "sv_steps thr exclusive s es s' \<Longrightarrow> threads_ok s \<Longrightarrow> sv_sim s a \<Longrightarrow> live thr a \<Longrightarrow> threads_ok s'"
proof (induction rule: sv_steps.induct)
  case (one_more s es s1 e s2)
  obtain a1 where "sv_sim s1 a1" "live thr a1" using sim_run [OF one_more(1)] one_more.prems by blast
  then show ?case using threads_ok_step [OF one_more(2)] one_more by blast
qed

lemma threads_ok_new: "threads_ok (new_server port)"
  by (simp add: threads_ok_def new_server_def)

lemma no_abort:
  assumes "sv_sim s a" and "threads_ok s" and "sv_req s t = Some pc"
  shows "req_step (sv_gw s) pc \<noteq> Aborts"
proof (cases pc)
  case (QLaunch tmo jid)
  then have "r_worker (gw_jobs (sv_gw s)) = None"
    using assms(1,3) by (auto simp: sv_sim_def launch_ready_def launching_def runner_free_def)
  then show ?thesis using QLaunch by simp
next
  case (QGet jid)
  then show ?thesis using threads_okD(1) [OF assms(2)] assms(3) by (auto simp: store.fetch_look split: option.splits)
qed (auto split: option.splits prod.splits)

text \<open>
  C4: any number of concurrent requests is safe as long as no two of them are inside
  \<^verbatim>\<open>JobRunner::start\<close> or \<^verbatim>\<open>JobRunner::stop\<close> at the same time. Under every interleaving of their
  accesses with the worker and the job thread, the store and the dispatcher are those of a
  reachable state of \<open>Gateway_System\<close>, so all its invariants hold; the whole gateway is that state
  except between the three accesses of a launch, which from the outside happens when the entry is
  created. No request thread and no job thread ends in an exception, and every answer has a
  documented code that agrees with its member \<^verbatim>\<open>ok\<close>.
\<close>

theorem concurrent_requests_refine:
  assumes "sv_steps thr exclusive (new_server port) es s"
  shows "(\<exists>fs a. gw_steps thr (new_Gateway port) fs a \<and>
      gw_store a = gw_store (sv_gw s) \<and> gw_disp a = gw_disp (sv_gw s) \<and>
      ((\<exists>t tmo jid. launching s t tmo jid \<and> a = begun tmo jid (sv_gw s)) \<or> a = sv_gw s)) \<and>
    (sv_req s t = None \<or> (\<exists>pc. sv_req s t = Some pc \<and> req_step (sv_gw s) pc \<noteq> Aborts \<and>
      ((\<exists>resp. pc = QDone resp \<and> good_response resp) \<or> (\<nexists>resp. pc = QDone resp)))) \<and>
    (\<exists>g. runner_step i (sv_gw s) = Inr g)"
proof -
  obtain a where l: "live thr a" and sim: "sv_sim s a" and r: "\<exists>fs. gw_steps thr (new_Gateway port) fs a"
    using run_simulated [OF assms] .
  have ok: "threads_ok s"
    using threads_ok_run [OF assms threads_ok_new sv_sim_new] by (auto simp: live_def intro: gw_steps.no_step)
  have "\<exists>fs a. gw_steps thr (new_Gateway port) fs a \<and>
      gw_store a = gw_store (sv_gw s) \<and> gw_disp a = gw_disp (sv_gw s) \<and>
      ((\<exists>t tmo jid. launching s t tmo jid \<and> a = begun tmo jid (sv_gw s)) \<or> a = sv_gw s)"
    using r sv_sim_shared [OF sim] sim unfolding sv_sim_def by blast
  moreover have "sv_req s t = None \<or> (\<exists>pc. sv_req s t = Some pc \<and> req_step (sv_gw s) pc \<noteq> Aborts \<and>
      ((\<exists>resp. pc = QDone resp \<and> good_response resp) \<or> (\<nexists>resp. pc = QDone resp)))"
  proof (cases "sv_req s t")
    case (Some pc)
    then show ?thesis using no_abort [OF sim ok Some] threads_okD(2) [OF ok, of t] by (cases pc) simp_all
  qed simp
  moreover have "\<exists>g. runner_step i (sv_gw s) = Inr g"
  proof (cases "r_worker (gw_jobs (sv_gw s)) = None")
    case True
    then show ?thesis by (simp add: runner_step_def)
  next
    case False
    then have "job_known (sv_gw s)" using sim_known [OF sim live_ok [OF l]] by (elim disjE) simp_all
    then show ?thesis by (cases rule: runner_step_cases [where i = i]) auto
  qed
  ultimately show ?thesis by blast
qed

theorem concurrent_requests_refine_witness:
  "\<exists>s. sv_steps no_throw exclusive (new_server ''/dev/ttyS1'') started_events s \<and>
     (\<exists>fs a. gw_steps no_throw (new_Gateway ''/dev/ttyS1'') fs a \<and>
        gw_store a = gw_store (sv_gw s) \<and> gw_disp a = gw_disp (sv_gw s) \<and>
        ((\<exists>t tmo jid. launching s t tmo jid \<and> a = begun tmo jid (sv_gw s)) \<or> a = sv_gw s))"
proof -
  obtain s where "sv_steps no_throw exclusive (new_server ''/dev/ttyS1'') started_events s"
    using started_run by blast
  then show ?thesis using concurrent_requests_refine by blast
qed

text \<open>Seven steps of the job thread release a join.\<close>

lemma join_released:
  assumes "sv_steps thr exclusive (new_server port) es0 s0" and "sv_req s0 t = Some (QJoin k)"
    and "sv_steps thr exclusive s0 es s" and "own_events t es = 0" and "join (sv_gw s) = None"
  shows "job_events es < 7"
proof (rule ccontr)
  assume late: "\<not> job_events es < 7"
  obtain a0 where a0: "live thr a0" "sv_sim s0 a0" using run_simulated [OF assms(1)] .
  have new: "live thr (new_Gateway port)" by (auto simp: live_def intro: gw_steps.no_step)
  have "join_clear s0"
    using join_clear_run [OF assms(1) _ sv_sim_new new] by (simp add: join_clear_def new_server_def)
  then have "joining s0 t" using assms(2) a0(2) by (auto simp: joining_def sv_sim_def join_clear_def)
  then have "steps_left (sv_gw s) \<le> steps_left (sv_gw s0) - job_events es"
    using joining_run [OF assms(3) _ assms(4) a0(2,1)] by blast
  then have "steps_left (sv_gw s) = 0" using late steps_left_max [of "sv_gw s0"] by linarith
  then show False using assms(5) join_enabled [of "sv_gw s"] by simp
qed



text \<open>
  The handlers of \<open>Rest_Server\<close> are what the request threads compute when they are alone: every
  answer \<open>serve\<close> gives is reached by a run of the one thread together with the worker and the job
  thread, from the entry point of the request, and ends in the same gateway.
\<close>

lemma handlers_are_thread_runs:
  assumes "serve e req g = Inr (resp, g')"
  shows "\<exists>es. (\<forall>ev \<in> set es. ev \<in> {SvStep 0, SvTimeout 0, SvWorker} \<or> (\<exists>i. ev = SvJob i)) \<and>
    sv_run (re_thr e) es
      (alone g (req_entry (re_srv e) (re_json e) (re_ub e) (re_rd e) req)) = Some (alone g' (QDone resp))"
  using runs_to_serve [OF assms] by (simp add: runs_to_def)




end
