(* ===== verification/Sequential_Clients.thy ===== *)
theory Sequential_Clients
  imports Request_Threads
begin

text \<open>
  Clients that wait for the answer to a request that changes something before they send the next
  one, beside any number of clients that only ask. For them the two views of a job the process
  has, the state of the core and the job thread of the runner, agree: this theory ties the
  history of the dispatcher to the program points of the request threads and to the job thread.
\<close>

section \<open>How much of its history the dispatcher has executed\<close>

abbreviation core_at :: "core_op list \<Rightarrow> nat \<Rightarrow> Core" where
  "core_at xs n \<equiv> serial_core no_throw xs new_Core n"

abbreviation reply_at :: "core_op list \<Rightarrow> nat \<Rightarrow> Response" where
  "reply_at xs i \<equiv> serial_response no_throw xs new_Core i"

text \<open>
  \<open>xs\<close> are the calls submitted so far and the first \<open>n\<close> of them have had their effect on the
  core; the answer to the last of these may still be in the hand of the worker.
\<close>

definition executed :: "core_op list \<Rightarrow> nat \<Rightarrow> Dispatcher \<Rightarrow> bool" where
  "executed xs n d \<longleftrightarrow> (\<exists>k. serial_at no_throw xs new_Core k d \<and>
     n = (case d_worker d of Ran t r \<Rightarrow> Suc k | _ \<Rightarrow> k))"

lemma executed_new: "executed [] 0 (new_Dispatcher new_Core)"
  unfolding executed_def by (intro exI [of _ 0]) (simp add: serial_at_new, simp add: new_Dispatcher_def)

lemma executed_core: "executed xs n d \<Longrightarrow> d_core d = core_at xs n"
  by (auto simp: executed_def serial_at_def split: worker_pc.splits)

lemma executed_length:
  assumes "executed xs n d"
  shows "n \<le> length xs" and "d_next d = length xs"
proof -
  obtain k where k: "serial_at no_throw xs new_Core k d" "n = (case d_worker d of Ran t r \<Rightarrow> Suc k | _ \<Rightarrow> k)"
    using assms by (auto simp: executed_def)
  have "k < length xs" if "d_worker d = Ran t r" for t r
    using serial_at_hand(1) [OF k(1), of t "d_q d"] that by simp
  then show "n \<le> length xs" using k by (auto simp: serial_at_def split: worker_pc.splits)
  show "d_next d = length xs" using k(1) by (simp add: serial_at_def)
qed

lemma executed_answer:
  "executed xs n d \<Longrightarrow> d_proms d i = Some r \<Longrightarrow> i < n \<and> r = reply_at xs i"
  by (auto simp: executed_def serial_at_def split: worker_pc.splits if_splits)

lemma executed_submit: "executed xs n d \<Longrightarrow> executed (xs @ [x]) n (snd (submit x d))"
  unfolding executed_def by (elim exE conjE, rule exI, rule conjI, erule serial_at_submit) (simp add: submit_eq)

lemma executed_worker:
  assumes "executed xs n d"
  shows "executed xs n (worker_step no_throw d) \<or> n < length xs \<and> executed xs (Suc n) (worker_step no_throw d)"
proof -
  obtain k where k: "serial_at no_throw xs new_Core k d" "n = (case d_worker d of Ran t r \<Rightarrow> Suc k | _ \<Rightarrow> k)"
    using assms by (auto simp: executed_def)
  show ?thesis
  proof (cases "d_worker d")
    case Waiting
    then have "executed xs n (worker_step no_throw d)" using k
      by (auto simp: executed_def serial_at_def worker_step_def intro!: exI [of _ k] split: list.splits)
    then show ?thesis ..
  next
    case (GotTask t)
    have h: "k < length xs" "t = task_of k (xs ! k)" using serial_at_hand [OF k(1), of t "d_q d"] GotTask by simp_all
    then have "executed xs (Suc n) (worker_step no_throw d)" using k GotTask
      by (auto simp: executed_def serial_at_def worker_step_def serial_response_def
          intro!: exI [of _ k] split: prod.splits)
    then show ?thesis using h k(2) GotTask by simp
  next
    case (Ran t r)
    have h: "k < length xs" "t = task_of k (xs ! k)" "d_q d = map (\<lambda>i. task_of i (xs ! i)) [Suc k..<length xs]"
      using serial_at_hand [OF k(1), of t "d_q d"] Ran by simp_all
    then have "executed xs n (worker_step no_throw d)" using k Ran
      by (auto simp: executed_def serial_at_def worker_step_def fun_eq_iff less_Suc_eq intro!: exI [of _ "Suc k"])
    then show ?thesis ..
  next
    case Exited
    then show ?thesis using assms by (simp add: worker_step_def)
  qed
qed

section \<open>One request at a time\<close>

text \<open>The program points from which a request can still change something, its waits included.\<close>

fun busy :: "req_pc \<Rightarrow> bool" where
  "busy (QBaud cmd baud) = True" | "busy (QClear k) = True" | "busy (QJoin k) = True"
| "busy (QSubmit k) = True" | "busy (QWait k fut) = True" | "busy (QCreate tmo jid) = True"
| "busy (QFlag tmo jid) = True" | "busy (QLaunch tmo jid) = True" | "busy _ = False"

definition idle :: "server \<Rightarrow> bool" where
  "idle s \<longleftrightarrow> (\<forall>t pc. sv_req s t = Some pc \<longrightarrow> \<not> busy pc)"

definition command_upper :: "req_pc \<Rightarrow> bool" where
  "command_upper pc = (case pc of QBaud cmd baud \<Rightarrow> upper cmd = cmd | _ \<Rightarrow> True)"

lemma command_upper_entry: "command_upper (req_entry srv cj ub rd req)"
proof (cases req)
  case (PostCommand b)
  have "upper cmd = cmd" if "parse_command cj ub b = Inr (cmd, baud)" for cmd baud
    using that by (auto simp: parse_command_def to_upper_ascii_eq Let_def split: sum.splits if_splits option.splits)
  then show ?thesis using PostCommand by (auto simp: command_upper_def split: sum.split)
qed (auto simp: command_upper_def split: sum.split option.split)

text \<open>
  What the clients do: a request that can change something arrives when no other one is in
  progress, as the handlers parse it; and no wait runs out.
\<close>

definition polite :: "server \<Rightarrow> sv_event \<Rightarrow> bool" where
  "polite s e =
     (case e of
        SvArrive t pc \<Rightarrow> command_upper pc \<and> (busy pc \<longrightarrow> idle s)
      | SvTimeout t \<Rightarrow> False
      | _ \<Rightarrow> True)"

inductive seq_steps :: "server \<Rightarrow> sv_event list \<Rightarrow> server \<Rightarrow> bool" where
  seq_none: "seq_steps s [] s"
| seq_more: "seq_steps s es s1 \<Longrightarrow> polite s1 e \<Longrightarrow> sv_step no_throw s1 e s2 \<Longrightarrow> seq_steps s (es @ [e]) s2"

text \<open>The request in progress, if there is one.\<close>

definition active :: "server \<Rightarrow> req_pc option \<Rightarrow> bool" where
  "active s p =
     (case p of
        None \<Rightarrow> idle s
      | Some pc \<Rightarrow> busy pc \<and> (\<exists>t. sv_req s t = Some pc \<and> (\<forall>u qc. sv_req s u = Some qc \<longrightarrow> busy qc \<longrightarrow> u = t)))"

definition if_busy :: "req_pc \<Rightarrow> req_pc option" where
  "if_busy pc = (if busy pc then Some pc else None)"

lemma in_runner_busy: "in_runner pc \<Longrightarrow> busy pc"
  by (cases pc) auto

lemma active_gw [simp]: "active (s\<lparr>sv_gw := g\<rparr>) p = active s p"
  by (cases p) (simp_all add: active_def idle_def)

lemma active_unique:
  assumes "active s p" and "sv_req s t = Some pc" and "busy pc" and "sv_req s u = Some qc" and "busy qc"
  shows "u = t"
proof (cases p)
  case (Some rc)
  then obtain v where "\<forall>u qc. sv_req s u = Some qc \<longrightarrow> busy qc \<longrightarrow> u = v" using assms(1) by (auto simp: active_def)
  then show ?thesis using assms(2-5) by metis
qed (use assms in \<open>auto simp: active_def idle_def\<close>)

lemma active_exclusive: "active s p \<Longrightarrow> exclusive s"
  unfolding exclusive_def using active_unique in_runner_busy by blast

lemma active_busy:
  assumes "active s p" and "sv_req s t = Some pc" and "busy pc"
  shows "p = Some pc"
proof (cases p)
  case (Some rc)
  then obtain v where "sv_req s v = Some rc" "busy rc" using assms(1) by (auto simp: active_def)
  then show ?thesis using active_unique [OF assms] assms(2) Some by auto
qed (use assms in \<open>auto simp: active_def idle_def\<close>)

lemma active_free:
  assumes "active s p" and "sv_req s t = None \<or> (\<exists>pc. sv_req s t = Some pc \<and> \<not> busy pc)"
    and "sv_req s' = (sv_req s)(t \<mapsto> pc')" and "\<not> busy pc'"
  shows "active s' p"
proof (cases p)
  case None
  then show ?thesis using assms by (simp add: active_def idle_def)
next
  case (Some rc)
  then obtain v where v: "busy rc" "sv_req s v = Some rc" "\<forall>u qc. sv_req s u = Some qc \<longrightarrow> busy qc \<longrightarrow> u = v"
    using assms(1) by (auto simp: active_def)
  have "v \<noteq> t" using v(1,2) assms(2) by auto
  then have "sv_req s' v = Some rc" using v(2) assms(3) by simp
  moreover have "u = v" if "sv_req s' u = Some qc" "busy qc" for u qc
    using that v(3) assms(3,4) by (cases "u = t") auto
  ultimately show ?thesis using v(1) Some by (auto simp: active_def)
qed

lemma active_own:
  assumes "\<And>u qc. sv_req s u = Some qc \<Longrightarrow> busy qc \<Longrightarrow> u = t" and "sv_req s' = (sv_req s)(t \<mapsto> pc')"
  shows "active s' (if_busy pc')"
proof (cases "busy pc'")
  case True
  have "u = t" if "sv_req s' u = Some qc" "busy qc" for u qc
    using assms(1) [of u qc] assms(2) that by (cases "u = t") simp_all
  moreover have "sv_req s' t = Some pc'" using assms(2) by simp
  ultimately show ?thesis using True by (auto simp: active_def if_busy_def)
next
  case False
  have "\<not> busy qc" if "sv_req s' u = Some qc" for u qc
    using assms(1) [of u qc] assms(2) that False by (cases "u = t") auto
  then show ?thesis using False by (auto simp: active_def if_busy_def idle_def)
qed

section \<open>Core and job thread agree\<close>

text \<open>A START_JOB that was accepted and whose job is not launched yet.\<close>

fun accepted :: "core_op list \<Rightarrow> nat \<Rightarrow> req_pc \<Rightarrow> bool" where
  "accepted xs n (QWait (KStart tmo jid) fut) \<longleftrightarrow> fut < n \<and> resp_ok (reply_at xs fut)"
| "accepted xs n (QClear (KStart tmo jid)) \<longleftrightarrow> True"
| "accepted xs n (QJoin (KStart tmo jid)) \<longleftrightarrow> True"
| "accepted xs n (QCreate tmo jid) \<longleftrightarrow> True"
| "accepted xs n (QFlag tmo jid) \<longleftrightarrow> True"
| "accepted xs n (QLaunch tmo jid) \<longleftrightarrow> True"
| "accepted xs n _ \<longleftrightarrow> False"

text \<open>
  The jobs the core has to know of: accepted and not launched, launched and not returned,
  returned with the end not told to the core yet.
\<close>

definition jobs_open :: "req_pc option \<Rightarrow> nat \<Rightarrow> core_op list \<Rightarrow> nat \<Rightarrow> nat" where
  "jobs_open p u xs n =
     (case p of None \<Rightarrow> 0 | Some pc \<Rightarrow> of_bool (accepted xs n pc)) + u + count_list (drop n xs) OpFinish"

text \<open>The calls not executed yet: ends of jobs, and the one the request in progress waits for.\<close>

definition in_line :: "req_pc option \<Rightarrow> core_op list \<Rightarrow> nat \<Rightarrow> bool" where
  "in_line p xs n \<longleftrightarrow>
     (\<forall>i. n \<le> i \<and> i < length xs \<longrightarrow> xs ! i = OpFinish \<or> (\<exists>k. p = Some (QWait k i))) \<and>
     (\<forall>k i. p = Some (QWait k i) \<longrightarrow> i < length xs \<and> xs ! i = cont_op k)"

definition stops :: "req_cont \<Rightarrow> bool" where
  "stops k \<longleftrightarrow> k = KStop \<or> k = KCommand ''STOP''"

text \<open>A request that stops the core has joined the job thread; its call is the last in line.\<close>

definition joined :: "req_pc option \<Rightarrow> nat \<Rightarrow> core_op list \<Rightarrow> nat \<Rightarrow> bool" where
  "joined p u xs n \<longleftrightarrow>
     (\<forall>k. p = Some (QSubmit k) \<and> stops k \<longrightarrow> u = 0) \<and>
     (\<forall>k i. p = Some (QWait k i) \<and> stops k \<and> n \<le> i \<longrightarrow> u = 0 \<and> Suc i = length xs)"

fun spelled :: "req_pc \<Rightarrow> bool" where
  "spelled (QBaud cmd baud) \<longleftrightarrow> upper cmd = cmd"
| "spelled (QClear (KCommand cmd)) \<longleftrightarrow> cmd = ''STOP''"
| "spelled (QJoin (KCommand cmd)) \<longleftrightarrow> cmd = ''STOP''"
| "spelled (QSubmit (KCommand cmd)) \<longleftrightarrow> upper cmd = cmd"
| "spelled (QWait (KCommand cmd) fut) \<longleftrightarrow> upper cmd = cmd"
| "spelled _ \<longleftrightarrow> True"

definition agrees :: "req_pc option \<Rightarrow> nat \<Rightarrow> core_op list \<Rightarrow> nat \<Rightarrow> bool" where
  "agrees p u xs n \<longleftrightarrow> in_line p xs n \<and> joined p u xs n \<and> pred_option spelled p \<and>
     jobs_open p u xs n \<le> 1 \<and> (core_st (core_at xs n) = RUNNING \<longleftrightarrow> jobs_open p u xs n = 1)"

lemmas agrees_defs = agrees_def in_line_def joined_def jobs_open_def stops_def

lemma agrees_arrive:
  assumes "agrees None u xs n" and "entry_point pc" and "command_upper pc" and "busy pc"
  shows "agrees (Some pc) u xs n"
  using assms by (cases pc) (auto simp: agrees_defs entry_point_def command_upper_def split: req_cont.splits)

lemma core_at_Suc: "core_at xs (Suc n) = snd (core_exec (xs ! n) (core_at xs n))"
  by (simp add: guarded_exec_def)

lemma reply_at_eq: "reply_at xs n = fst (core_exec (xs ! n) (core_at xs n))"
  by (simp add: serial_response_def guarded_exec_def)

lemma finish_running: "core_st c = RUNNING \<Longrightarrow> core_st (snd (finish_job c)) = INIT"
  by (simp add: finish_job_def Let_def)

lemma sync_running:
  "upper cmd \<noteq> ''STOP'' \<Longrightarrow> core_st (snd (handle_sync_command cmd c)) = RUNNING \<longleftrightarrow> core_st c = RUNNING"
  by (simp add: handle_sync_command_def new_Response_def Let_def)

lemma start_running:
  "core_st (snd (start_job tmo c)) = RUNNING \<longleftrightarrow> core_st c = RUNNING \<or> resp_ok (fst (start_job tmo c))"
  "resp_ok (fst (start_job tmo c)) \<Longrightarrow> core_st c \<noteq> RUNNING"
  by (cases "core_st c"; simp add: start_job_def new_Response_def Let_def)+

lemma stop_running: "core_st (snd (core_stop c)) \<noteq> RUNNING"
  by (simp add: core_stop_def)

lemma in_line_Suc: "in_line p xs n \<Longrightarrow> in_line p xs (Suc n)"
  unfolding in_line_def using Suc_leD by blast

lemma joined_Suc: "joined p u xs n \<Longrightarrow> joined p u xs (Suc n)"
  unfolding joined_def using Suc_leD by blast

lemma drop_here: "n < length xs \<Longrightarrow> drop n xs = xs ! n # drop (Suc n) xs"
  by (simp add: Cons_nth_drop_Suc)

lemma agrees_worker_finish:
  assumes "agrees p u xs n" and "n < length xs" and "xs ! n = OpFinish"
  shows "agrees p u xs (Suc n)"
proof -
  have nq: "p \<noteq> Some (QWait k n)" for k
    using assms(1,3) by (cases k) (auto simp: agrees_defs)
  have acc: "accepted xs (Suc n) pc = accepted xs n pc" if "p = Some pc" for pc
    using nq that by (cases "(xs, n, pc)" rule: accepted.cases) (auto simp: less_Suc_eq)
  have "jobs_open p u xs n = Suc (jobs_open p u xs (Suc n))"
    using acc drop_here [OF assms(2)] assms(3) by (simp add: jobs_open_def split: option.split)
  then have "jobs_open p u xs (Suc n) = 0" "core_st (core_at xs n) = RUNNING" using assms(1) by (auto simp: agrees_def)
  moreover have "in_line p xs (Suc n)" "joined p u xs (Suc n)"
    using assms(1) in_line_Suc joined_Suc by (auto simp: agrees_def)
  ultimately show ?thesis using assms(1,3) by (simp add: agrees_def core_at_Suc finish_running del: serial_core.simps)
qed

lemma agrees_worker_call:
  assumes "agrees (Some (QWait k n)) u xs n" and "n < length xs"
  shows "agrees (Some (QWait k n)) u xs (Suc n)"
proof -
  let ?p = "Some (QWait k n)" and ?c = "core_at xs n"
  have x: "xs ! n = cont_op k" using assms(1) by (simp add: agrees_defs)
  then have c: "count_list (drop n xs) OpFinish = count_list (drop (Suc n) xs) OpFinish"
    using drop_here [OF assms(2)] by (cases k) simp_all
  have line: "in_line ?p xs (Suc n)" "joined ?p u xs (Suc n)" "spelled (QWait k n)"
    using assms(1) in_line_Suc joined_Suc by (auto simp: agrees_def)
  have before: "jobs_open ?p u xs n = u + count_list (drop (Suc n) xs) OpFinish"
    using c by (cases k) (simp_all add: jobs_open_def)
  show ?thesis
  proof (cases "stops k")
    case True
    then have "u = 0" "Suc n = length xs" using assms(1) by (auto simp: agrees_def joined_def)
    then have "jobs_open ?p u xs (Suc n) = 0" using True by (auto simp: jobs_open_def stops_def)
    moreover have "core_st (core_at xs (Suc n)) \<noteq> RUNNING"
      using True x stop_running by (auto simp: core_at_Suc stops_def handle_sync_command_def upper_def
          toupper_char_def new_Response_def Let_def simp del: serial_core.simps)
    ultimately show ?thesis using line by (simp add: agrees_def del: serial_core.simps)
  next
    case False
    then show ?thesis
    proof (cases k)
      case (KCommand cmd)
      then show ?thesis using False line before assms(1) x sync_running [of cmd ?c]
        by (auto simp: agrees_def stops_def core_at_Suc jobs_open_def c simp del: serial_core.simps)
    next
      case (KStart tmo jid)
      then have "jobs_open ?p u xs (Suc n) = jobs_open ?p u xs n + of_bool (resp_ok (fst (start_job tmo ?c)))"
        using before x by (simp add: jobs_open_def reply_at_eq)
      then show ?thesis using KStart line assms(1) x start_running [of tmo ?c]
        by (auto simp: agrees_def core_at_Suc simp del: serial_core.simps)
    qed (simp add: stops_def)
  qed
qed

lemma agrees_worker:
  assumes "agrees p u xs n" and "n < length xs"
  shows "agrees p u xs (Suc n)"
proof (cases "xs ! n = OpFinish")
  case True
  then show ?thesis using agrees_worker_finish assms by blast
next
  case False
  then obtain k where "p = Some (QWait k n)" using assms unfolding agrees_def in_line_def by blast
  then show ?thesis using agrees_worker_call assms by blast
qed

lemma core_at_append: "n \<le> length xs \<Longrightarrow> core_at (xs @ ys) n = core_at xs n"
  by (rule serial_core_append)

lemma accepted_append:
  assumes "in_line (Some pc) xs n"
  shows "accepted (xs @ ys) n pc = accepted xs n pc"
proof (cases "\<exists>k i. pc = QWait k i")
  case True
  then obtain k i where "pc = QWait k i" by blast
  then show ?thesis using assms by (cases k) (auto simp: in_line_def serial_response_append)
next
  case False
  then show ?thesis by (cases "(xs, n, pc)" rule: accepted.cases) simp_all
qed

text \<open>The job thread returns: its end is submitted.\<close>

lemma agrees_finish:
  assumes "agrees p 1 xs n" and "n \<le> length xs"
  shows "agrees p 0 (xs @ [OpFinish]) n"
proof -
  have "jobs_open p 0 (xs @ [OpFinish]) n = jobs_open p 1 xs n"
    using assms accepted_append by (auto simp: jobs_open_def agrees_def split: option.split)
  moreover have "in_line p (xs @ [OpFinish]) n"
    using assms by (auto simp: agrees_def in_line_def nth_append)
  moreover have "joined p 0 (xs @ [OpFinish]) n"
    using assms(1) unfolding agrees_def joined_def by (metis zero_neq_one)
  ultimately show ?thesis using assms by (simp add: agrees_def core_at_append)
qed

text \<open>A request submits its call.\<close>

lemma agrees_submit:
  assumes "agrees (Some (QSubmit k)) u xs n" and "n \<le> length xs"
  shows "agrees (Some (QWait k (length xs))) u (xs @ [cont_op k]) n"
proof -
  have c: "cont_op k \<noteq> OpFinish" by (cases k) simp_all
  have "accepted (xs @ [cont_op k]) n (QWait k (length xs)) = False" using assms(2) by (cases k) simp_all
  then have "jobs_open (Some (QWait k (length xs))) u (xs @ [cont_op k]) n = jobs_open (Some (QSubmit k)) u xs n"
    using assms(2) c by (simp add: jobs_open_def)
  moreover have "in_line (Some (QWait k (length xs))) (xs @ [cont_op k]) n"
    using assms by (auto simp: agrees_def in_line_def nth_append)
  moreover have "joined (Some (QWait k (length xs))) u (xs @ [cont_op k]) n" "spelled (QWait k (length xs))"
    using assms by (cases k; auto simp: agrees_def joined_def)+
  ultimately show ?thesis using assms by (simp add: agrees_def core_at_append)
qed

text \<open>
  Every other move of a request in progress: the calls in line are ends of jobs before and
  after it, and the job it has to launch or has launched is counted once.
\<close>

lemma agrees_move:
  assumes "agrees (Some pc) u xs n" and "\<And>k i. pc = QWait k i \<Longrightarrow> i < n" and "\<And>k i. pc' \<noteq> QWait k i"
    and "of_bool (accepted xs n pc) + u = of_bool (accepted xs n pc') + u'"
    and "\<And>k. pc' = QSubmit k \<Longrightarrow> stops k \<Longrightarrow> u' = 0" and "spelled pc'" and "\<not> busy pc' \<Longrightarrow> \<not> accepted xs n pc'"
  shows "agrees (if_busy pc') u' xs n"
proof -
  have "jobs_open (if_busy pc') u' xs n = jobs_open (Some pc) u xs n"
    using assms(4,7) by (simp add: jobs_open_def if_busy_def)
  moreover have "in_line (if_busy pc') xs n"
  proof -
    have "xs ! i = OpFinish" if "n \<le> i" "i < length xs" for i
    proof -
      have "xs ! i = OpFinish \<or> (\<exists>k. pc = QWait k i)" using assms(1) that by (simp add: agrees_def in_line_def)
      then show ?thesis using assms(2) that(1) by fastforce
    qed
    then show ?thesis using assms(3) by (simp add: in_line_def if_busy_def)
  qed
  moreover have "joined (if_busy pc') u' xs n" using assms(3,5) by (auto simp: joined_def if_busy_def)
  ultimately show ?thesis using assms(1,6) by (simp add: agrees_def if_busy_def)
qed

lemma agrees_answer:
  assumes "agrees (Some (QWait k fut)) u xs n" and "fut < n"
  shows "agrees (if_busy (after_wait k (reply_at xs fut))) u xs n"
proof (rule agrees_move [OF assms(1)])
  let ?pc = "after_wait k (reply_at xs fut)"
  show "i < n" if "QWait k fut = QWait k' i" for k' i using that assms(2) by simp
  show "?pc \<noteq> QWait k' i" for k' i by (cases k) simp_all
  show "u = 0" if "?pc = QSubmit k'" for k' using that by (cases k) (simp_all split: if_splits)
  show "of_bool (accepted xs n (QWait k fut)) + u = of_bool (accepted xs n ?pc) + u"
    using assms(2) by (cases k) simp_all
  show "spelled ?pc" by (cases k) simp_all
  show "\<not> accepted xs n ?pc" if "\<not> busy ?pc" using that by (cases k) (simp_all split: if_splits)
qed

lemma unfinished_simps [simp]:
  "unfinished (g\<lparr>gw_disp := d\<rparr>) = unfinished g" "unfinished (g\<lparr>gw_store := st\<rparr>) = unfinished g"
  "unfinished (clear_running g) = unfinished g" "unfinished (g\<lparr>gw_jobs := set_baudrate b (gw_jobs g)\<rparr>) = unfinished g"
  "unfinished (g\<lparr>gw_jobs := (gw_jobs g)\<lparr>r_running := f\<rparr>\<rparr>) = unfinished g"
  by (simp_all add: unfinished_def clear_running_def set_baudrate_def)

lemma join_unfinished:
  "join g = Some g' \<Longrightarrow> unfinished g = 0 \<and> unfinished g' = 0 \<and> gw_disp g' = gw_disp g"
  by (auto simp: join_def unfinished_def split: option.splits if_splits)

lemma launch_unfinished:
  "r_worker (gw_jobs g) = None \<Longrightarrow> unfinished g = 0 \<and>
     unfinished (g\<lparr>gw_jobs := (gw_jobs g)\<lparr>r_worker := Some (new_thread jid tmo)\<rparr>\<rparr>) = 1"
  by (simp add: unfinished_def new_thread_def)

lemma clear_running_disp [simp]: "gw_disp (clear_running g) = gw_disp g"
  by (simp add: clear_running_def)

text \<open>The steps of a request in progress: those of \<^verbatim>\<open>stop\<close> and \<^verbatim>\<open>start\<close> of the runner, those that only move, all.\<close>

lemma join_agrees:
  assumes "agrees (Some (QJoin k)) (unfinished g) xs n" and "join g = Some g'"
  shows "agrees (if_busy (after_join k)) (unfinished g') xs n"
proof -
  have u: "unfinished g = 0" "unfinished g' = 0" using join_unfinished [OF assms(2)] by simp_all
  have "spelled (QJoin k)" using assms(1) by (simp add: agrees_def)
  then have "agrees (if_busy (after_join k)) 0 xs n"
    using agrees_move [OF assms(1), of "after_join k" 0] u
    by (cases k) (simp_all add: if_busy_def upper_def toupper_char_def)
  then show ?thesis using u(2) by simp
qed

lemma launch_agrees:
  assumes "agrees (Some (QLaunch tmo jid)) (unfinished g) xs n" and "r_worker (gw_jobs g) = None"
  shows "agrees (if_busy (QStarted jid))
    (unfinished (g\<lparr>gw_jobs := (gw_jobs g)\<lparr>r_worker := Some (new_thread jid tmo)\<rparr>\<rparr>)) xs n"
  using launch_unfinished [OF assms(2)] by (intro agrees_move [OF assms(1)]) simp_all

lemma moving_agrees:
  assumes "agrees (Some pc) (unfinished g) xs n" and "req_step g pc = Moves g' pc'"
    and "(\<exists>cmd baud. pc = QBaud cmd baud) \<or> (\<exists>k. pc = QClear k) \<or> (\<exists>tmo jid. pc = QCreate tmo jid \<or> pc = QFlag tmo jid)"
  shows "agrees (if_busy pc') (unfinished g') xs n \<and> gw_disp g' = gw_disp g"
proof -
  have acc: "accepted xs n (QJoin k) = accepted xs n (QClear k)" for k by (cases k) simp_all
  have "agrees (if_busy pc') (unfinished g) xs n"
  proof (rule agrees_move [OF assms(1)])
    show "spelled pc'" using assms by (cases pc) (auto simp: agrees_def clear_running_def elim: spelled.elims split: if_splits)
  qed (use assms acc in \<open>auto simp: agrees_def stops_def split: if_splits\<close>)
  moreover have "unfinished g' = unfinished g" "gw_disp g' = gw_disp g" using assms(2,3) by auto
  ultimately show ?thesis by simp
qed

lemma req_step_agrees:
  assumes "executed xs n (gw_disp g)" and "agrees (Some pc) (unfinished g) xs n"
    and "req_step g pc = Moves g' pc'" and "busy pc"
  shows "\<exists>xs'. executed xs' n (gw_disp g') \<and> agrees (if_busy pc') (unfinished g') xs' n"
proof (cases pc)
  case (QSubmit k)
  have "executed (xs @ [cont_op k]) n (gw_disp g')" "pc' = QWait k (length xs)" "unfinished g' = unfinished g"
    using QSubmit assms(3) executed_submit [OF assms(1)] executed_length(2) [OF assms(1)] by (auto simp: submit_eq)
  then show ?thesis using agrees_submit [of k] assms(2) executed_length(1) [OF assms(1)] QSubmit
    by (auto simp: if_busy_def)
next
  case (QWait k fut)
  then obtain r where r: "d_proms (gw_disp g) fut = Some r" "g' = g" "pc' = after_wait k r"
    using assms(3) by (auto split: option.splits)
  then have "fut < n" "r = reply_at xs fut" using executed_answer [OF assms(1)] by blast+
  then show ?thesis using agrees_answer assms(1,2) r(2,3) QWait by blast
next
  case (QJoin k)
  then have j: "join g = Some g'" "pc' = after_join k" using assms(3) by (auto split: option.splits)
  then have "agrees (if_busy pc') (unfinished g') xs n" using join_agrees assms(2) QJoin by blast
  then show ?thesis using assms(1) join_unfinished [OF j(1)] by auto
next
  case (QLaunch tmo jid)
  then have l: "r_worker (gw_jobs g) = None"
    "g' = g\<lparr>gw_jobs := (gw_jobs g)\<lparr>r_worker := Some (new_thread jid tmo)\<rparr>\<rparr>" "pc' = QStarted jid"
    using assms(3) by (auto split: if_splits)
  then show ?thesis using launch_agrees [OF _ l(1)] assms(1,2) QLaunch by auto
qed (use moving_agrees [OF assms(2,3)] assms(1,4) in auto)

lemma req_step_quiet: "req_step g pc = Moves g' pc' \<Longrightarrow> \<not> busy pc \<Longrightarrow> g' = g \<and> \<not> busy pc'"
  by (cases pc) (auto split: sum.splits if_splits)

definition seq_ok :: "server \<Rightarrow> bool" where
  "seq_ok s \<longleftrightarrow> (\<exists>p xs n. active s p \<and> executed xs n (gw_disp (sv_gw s)) \<and>
     agrees p (unfinished (sv_gw s)) xs n)"

lemma seq_ok_job:
  assumes "seq_ok s" and "runner_step i (sv_gw s) = Inr g"
    and "job_known (sv_gw s) \<or> r_worker (gw_jobs (sv_gw s)) = None"
  shows "seq_ok (s\<lparr>sv_gw := g\<rparr>)"
proof (cases "r_worker (gw_jobs (sv_gw s)) = None")
  case True
  then have "s\<lparr>sv_gw := g\<rparr> = s" using assms(2) by (simp add: runner_step_def)
  then show ?thesis using assms(1) by simp
next
  case False
  obtain p xs n where ok: "active s p" "executed xs n (gw_disp (sv_gw s))" "agrees p (unfinished (sv_gw s)) xs n"
    using assms(1) by (auto simp: seq_ok_def)
  have act: "active (s\<lparr>sv_gw := g\<rparr>) p" using ok(1) by simp
  have "job_known (sv_gw s)" using assms(3) False by (elim disjE) simp_all
  then show ?thesis
  proof (cases rule: runner_step_cases [where i = i])
    case (finish th th')
    then have "unfinished (sv_gw s) = 1" "unfinished g = 0" using assms(2) by (auto simp: unfinished_def)
    moreover have "executed (xs @ [OpFinish]) n (gw_disp g)"
      using finish assms(2) executed_submit [OF ok(2), of OpFinish] by auto
    ultimately show ?thesis
      using act agrees_finish [of p xs n] ok(3) executed_length(1) [OF ok(2)] by (auto simp: seq_ok_def)
  qed (use ok act assms(2) in \<open>auto simp: seq_ok_def unfinished_def split: if_splits\<close>)
qed

lemma seq_ok_arrive:
  assumes "seq_ok s" and "polite s (SvArrive t pc)" and "sv_req s t = None" and "entry_point pc"
    and s': "s' = s\<lparr>sv_req := (sv_req s)(t \<mapsto> pc)\<rparr>"
  shows "seq_ok s'"
proof -
  obtain p xs n where ok: "active s p" "executed xs n (gw_disp (sv_gw s))" "agrees p (unfinished (sv_gw s)) xs n"
    using assms(1) by (auto simp: seq_ok_def)
  show ?thesis
  proof (cases "busy pc")
    case True
    then have idle: "idle s" "command_upper pc" using assms(2) by (simp_all add: polite_def)
    have "p = None" using ok(1) idle(1) by (auto simp: active_def idle_def split: option.splits)
    then have "agrees (Some pc) (unfinished (sv_gw s')) xs n"
      using agrees_arrive [of "unfinished (sv_gw s)" xs n pc] ok(3) s' assms(4) idle True by simp
    moreover have "active s' (Some pc)"
      using active_own [of s t s' pc] idle True s' by (auto simp: idle_def if_busy_def)
    ultimately show ?thesis using ok(2) s' by (auto simp: seq_ok_def)
  next
    case False
    then have "active s' p" using active_free [OF ok(1), of t s' pc] s' assms(3) by simp
    then show ?thesis using ok s' by (auto simp: seq_ok_def)
  qed
qed

lemma seq_ok_request:
  assumes "seq_ok s" and req: "sv_req s t = Some pc" "req_step (sv_gw s) pc = Moves g pc'"
    and s': "s' = \<lparr>sv_gw = g, sv_req = (sv_req s)(t \<mapsto> pc')\<rparr>"
  shows "seq_ok s'"
proof -
  obtain p xs n where ok: "active s p" "executed xs n (gw_disp (sv_gw s))" "agrees p (unfinished (sv_gw s)) xs n"
    using assms(1) by (auto simp: seq_ok_def)
  show ?thesis
  proof (cases "busy pc")
    case True
    have p: "p = Some pc" using active_busy [OF ok(1) req(1) True] .
    obtain xs' where "executed xs' n (gw_disp g)" "agrees (if_busy pc') (unfinished g) xs' n"
      using req_step_agrees [OF ok(2) _ req(2) True] ok(3) p by blast
    moreover have "active s' (if_busy pc')"
      using active_own [of s t s' pc'] active_unique [OF ok(1) req(1) True] s' by simp
    ultimately show ?thesis using s' by (auto simp: seq_ok_def)
  next
    case False
    then have "g = sv_gw s" "\<not> busy pc'" using req_step_quiet [OF req(2)] by blast+
    moreover then have "active s' p" using active_free [OF ok(1), of t s' pc'] s' req(1) False by simp
    ultimately show ?thesis using ok s' by (auto simp: seq_ok_def)
  qed
qed

lemma seq_ok_step:
  assumes "seq_ok s" and "polite s e" and "sv_step no_throw s e s'"
    and "job_known (sv_gw s) \<or> r_worker (gw_jobs (sv_gw s)) = None"
  shows "seq_ok s'"
  using assms(3)
proof (cases rule: sv_step.cases)
  case (Arrive t pc)
  then show ?thesis using seq_ok_arrive [OF assms(1)] assms(2) by simp
next
  case (Step t pc g pc')
  then show ?thesis using seq_ok_request [OF assms(1) Step(3,4)] by simp
next
  case (Timeout t pc pc')
  then show ?thesis using assms(2) by (simp add: polite_def)
next
  case Worker
  obtain p xs n where ok: "active s p" "executed xs n (gw_disp (sv_gw s))" "agrees p (unfinished (sv_gw s)) xs n"
    using assms(1) by (auto simp: seq_ok_def)
  have "active s' p" using ok(1) Worker by simp
  moreover have "\<exists>m. executed xs m (gw_disp (sv_gw s')) \<and> agrees p (unfinished (sv_gw s')) xs m"
    using executed_worker [OF ok(2)] ok(3) agrees_worker Worker by auto
  ultimately show ?thesis by (auto simp: seq_ok_def)
next
  case (Job i g)
  then show ?thesis using seq_ok_job [OF assms(1)] assms(4) by simp
qed

lemma seq_ok_new: "seq_ok (new_server port)"
proof -
  have "active (new_server port) None" by (simp add: active_def idle_def new_server_def)
  moreover have "executed [] 0 (gw_disp (sv_gw (new_server port)))"
    using executed_new by (simp add: new_server_def new_Gateway_def)
  moreover have "agrees None (unfinished (sv_gw (new_server port))) [] 0"
    by (simp add: agrees_defs unfinished_def new_server_def new_Gateway_def new_JobRunner_def new_Core_def)
  ultimately show ?thesis unfolding seq_ok_def by blast
qed

lemma seq_steps_ok:
  "seq_steps s es s' \<Longrightarrow> s = new_server port \<Longrightarrow> seq_ok s' \<and> sv_steps no_throw exclusive s es s'"
proof (induction rule: seq_steps.induct)
  case (seq_none s)
  then show ?case using seq_ok_new sv_sim_new sv_steps.no_step [of exclusive] by (auto simp: sv_sim_def)
next
  case (seq_more s es s1 e s2)
  then have run: "seq_ok s1" "sv_steps no_throw exclusive s es s1" by simp_all
  obtain a where a: "live no_throw a" "sv_sim s1 a" using run_simulated run(2) seq_more.prems by blast
  have "job_known (sv_gw s1) \<or> r_worker (gw_jobs (sv_gw s1)) = None" using sim_known [OF a(2) live_ok [OF a(1)]] .
  then have "seq_ok s2" using seq_ok_step [OF run(1) seq_more(2,3)] by blast
  moreover then have "exclusive s2" using active_exclusive by (auto simp: seq_ok_def)
  ultimately show ?case using sv_steps.one_more [OF run(2) seq_more(3)] by blast
qed

lemma executed_at_rest: "executed xs n d \<Longrightarrow> at_rest d \<Longrightarrow> n = length xs"
  using serial_at_all_answered by (fastforce simp: executed_def at_rest_def work_left_def)

lemma active_idle: "active s p \<Longrightarrow> idle s \<Longrightarrow> p = None"
  by (cases p) (auto simp: active_def idle_def)

section \<open>Running sequential clients\<close>

fun free_of :: "server \<Rightarrow> nat \<Rightarrow> bool" where
  "free_of s t = (case sv_req s t of None \<Rightarrow> True | Some pc \<Rightarrow> \<not> busy pc)"

definition polite_on :: "nat list \<Rightarrow> server \<Rightarrow> sv_event \<Rightarrow> bool" where
  "polite_on ts s e =
     (case e of
        SvArrive t pc \<Rightarrow> t \<in> set ts \<and> command_upper pc \<and> (busy pc \<longrightarrow> list_all (free_of s) ts)
      | SvTimeout t \<Rightarrow> False
      | _ \<Rightarrow> True)"

fun seq_run :: "nat list \<Rightarrow> sv_event list \<Rightarrow> server \<Rightarrow> server option" where
  "seq_run ts [] s = Some s"
| "seq_run ts (e # es) s =
     (if polite_on ts s e
      then (case sv_exec no_throw e s of None \<Rightarrow> None | Some s' \<Rightarrow> seq_run ts es s') else None)"

lemma polite_on_sound:
  assumes "polite_on ts s e" and "dom (sv_req s) \<subseteq> set ts"
  shows "polite s e"
proof -
  have "idle s" if "list_all (free_of s) ts"
    using that assms(2) by (fastforce simp: idle_def list_all_iff split: option.splits)
  then show ?thesis using assms(1) by (auto simp: polite_def polite_on_def split: sv_event.splits)
qed

lemma seq_steps_Cons:
  "seq_steps s1 es s2 \<Longrightarrow> polite s e \<Longrightarrow> sv_step no_throw s e s1 \<Longrightarrow> seq_steps s (e # es) s2"
proof (induction rule: seq_steps.induct)
  case (seq_none s1)
  then show ?case using seq_steps.seq_more [OF seq_steps.seq_none] by fastforce
next
  case (seq_more s1 es s2 e' s3)
  then show ?case using seq_steps.seq_more [of s "e # es" s2 e' s3] by simp
qed

lemma seq_run_steps:
  "seq_run ts es s = Some s' \<Longrightarrow> dom (sv_req s) \<subseteq> set ts \<Longrightarrow> seq_steps s es s'"
proof (induction es arbitrary: s)
  case Nil
  then show ?case using seq_steps.seq_none by simp
next
  case (Cons e es)
  then obtain s1 where s1: "polite_on ts s e" "sv_exec no_throw e s = Some s1" "seq_run ts es s1 = Some s'"
    by (auto split: if_splits option.splits)
  have "case e of SvArrive t pc \<Rightarrow> t \<in> set ts | _ \<Rightarrow> True" using s1(1) by (auto simp: polite_on_def split: sv_event.splits)
  then have "seq_steps s1 es s'" using Cons.IH [OF s1(3)] sv_exec_dom [OF s1(2) Cons.prems(2)] by blast
  then show ?case using seq_steps_Cons polite_on_sound [OF s1(1) Cons.prems(2)] sv_step_exec [OF s1(2)] by blast
qed

text \<open>INIT and \<^verbatim>\<open>/start\<close> one after the other, and a \<^verbatim>\<open>/status\<close> in the middle of the latter.\<close>

definition seq_events :: "sv_event list" where
  "seq_events = command_run 0 ''INIT'' @ accept_run 1 ''0badcafe'' @
     [SvStep 1, SvArrive 2 QStatus, SvStep 1, SvStep 2] @ replicate 5 (SvStep 1) @ [SvJob (quiet_in 0)]"

lemma seq_events_run:
  "\<exists>s. seq_steps (new_server ''/dev/ttyS1'') seq_events s \<and> working_on (sv_gw s) ''0badcafe''"
proof -
  have "case seq_run [0, 1, 2] seq_events (new_server ''/dev/ttyS1'') of None \<Rightarrow> False
    | Some s \<Rightarrow> working_on (sv_gw s) ''0badcafe''" by code_simp
  moreover have "dom (sv_req (new_server port)) \<subseteq> set ts" for port ts by (simp add: new_server_def)
  ultimately show ?thesis using seq_run_steps by (fastforce split: option.splits)
qed

section \<open>Properties\<close>



end
