(* ===== verification/Service_Recovery.thy ===== *)
theory Service_Recovery
  imports Sequential_Clients
begin

text \<open>
  What happens to the service when a job is not stopped and finds no code: whoever asks meanwhile, the
  job ends at its deadline, the core is told, and the next scan can be started.
\<close>

section \<open>A dispatcher at work\<close>

definition serving :: "Dispatcher \<Rightarrow> bool" where
  "serving d \<longleftrightarrow> \<not> d_stopping d \<and> d_worker d \<noteq> Exited"

lemma serving_step:
  assumes "serving d"
  shows "serving (worker_step thr d)" "serving (snd (submit x d))"
    "work_left (worker_step thr d) = work_left d - 1"
proof -
  show "serving (worker_step thr d)" "serving (snd (submit x d))"
    using assms by (auto simp: serving_def submit_eq worker_step_def split: worker_pc.splits list.splits prod.splits)
  show "work_left (worker_step thr d) = work_left d - 1" using assms by (simp add: serving_def work_left_step)
qed

lemma serving_at_rest: "serving d \<Longrightarrow> work_left d = 0 \<Longrightarrow> at_rest d"
  by (auto simp: serving_def work_left_def at_rest_def split: worker_pc.splits)

lemma runner_step_tells:
  assumes "runner_step i g = Inr g'" and "job_known g"
  shows "gw_disp g' = gw_disp g \<or>
    unfinished g = 1 \<and> unfinished g' = 0 \<and> gw_disp g' = snd (submit OpFinish (gw_disp g))"
  using assms(2)
proof (cases rule: runner_step_cases [where i = i])
  case (finish th th')
  then show ?thesis using assms(1) by (auto simp: unfinished_def)
qed (use assms(1) in auto)

lemma serving_req: "req_step g pc = Moves g' pc' \<Longrightarrow> serving (gw_disp g) \<Longrightarrow> serving (gw_disp g')"
  by (cases pc)
    (auto simp: clear_running_def join_def submit_eq serving_def split: option.splits if_splits sum.splits)

section \<open>Clients that only ask\<close>

definition only_asks :: "sv_event \<Rightarrow> bool" where
  "only_asks e = (case e of SvArrive t pc \<Rightarrow> \<not> busy pc | SvTimeout t \<Rightarrow> False | _ \<Rightarrow> True)"

lemma only_asks_polite: "only_asks e \<Longrightarrow> polite s e"
  by (cases e) (auto simp: only_asks_def polite_def command_upper_def split: req_pc.splits)

text \<open>Then only the worker and the job thread change something.\<close>

lemma only_asks_step:
  assumes "sv_step thr s e s'" and "only_asks e" and "idle s"
  shows "idle s' \<and> (case e of
      SvWorker \<Rightarrow> sv_gw s' = (sv_gw s)\<lparr>gw_disp := worker_step thr (gw_disp (sv_gw s))\<rparr>
    | SvJob i \<Rightarrow> runner_step i (sv_gw s) = Inr (sv_gw s')
    | _ \<Rightarrow> sv_gw s' = sv_gw s)"
  using assms
proof (cases rule: sv_step.cases)
  case (Step t pc g pc')
  then show ?thesis using assms(3) req_step_quiet [OF Step(4)] by (auto simp: idle_def split: if_splits)
qed (auto simp: idle_def only_asks_def split: if_splits)

text \<open>The job thread of a server that recovers has at most \<open>n\<close> late steps to take.\<close>

definition recovering :: "job_id \<Rightarrow> int \<Rightarrow> nat \<Rightarrow> server \<Rightarrow> bool" where
  "recovering jid due n s \<longleftrightarrow> seq_ok s \<and> idle s \<and> gw_ok (sv_gw s) \<and> serving (gw_disp (sv_gw s)) \<and>
     (gw_state (sv_gw s) = RUNNING \<or> gw_state (sv_gw s) = INIT) \<and>
     (\<exists>th. r_worker (gw_jobs (sv_gw s)) = Some th \<and> jt_id th = jid \<and> jt_deadline th = due \<and> started th \<and>
        late_fuel (jt_pc th) \<le> n)"

fun late_job :: "int \<Rightarrow> sv_event \<Rightarrow> bool" where
  "late_job due (SvJob i) \<longleftrightarrow> due \<le> ji_now i \<and> \<not> pass_interrupted i"
| "late_job due _ \<longleftrightarrow> True"

fun is_job :: "sv_event \<Rightarrow> bool" where
  "is_job (SvJob i) = True" | "is_job _ = False"

fun is_worker :: "sv_event \<Rightarrow> bool" where
  "is_worker SvWorker = True" | "is_worker _ = False"

lemma seq_ok_idle:
  assumes "seq_ok s" and "idle s"
  obtains xs n where "executed xs n (gw_disp (sv_gw s))" "agrees None (unfinished (sv_gw s)) xs n"
    "d_core (gw_disp (sv_gw s)) = core_at xs n" "n \<le> length xs"
  using assms active_idle executed_core executed_length(1) unfolding seq_ok_def by metis

text \<open>Nothing but ends of jobs is in line, so a core that is RUNNING or INIT stays so.\<close>

lemma idle_worker_state:
  assumes "seq_ok s" and "idle s" and "gw_state (sv_gw s) = RUNNING \<or> gw_state (sv_gw s) = INIT"
  shows "core_st (d_core (worker_step no_throw (gw_disp (sv_gw s)))) \<in> {RUNNING, INIT}"
proof -
  obtain xs n where x: "executed xs n (gw_disp (sv_gw s))" "agrees None (unfinished (sv_gw s)) xs n"
    "d_core (gw_disp (sv_gw s)) = core_at xs n" using seq_ok_idle [OF assms(1,2)] by metis
  have "core_st (core_at xs (Suc n)) \<in> {RUNNING, INIT}" if "n < length xs"
  proof -
    have "xs ! n = OpFinish" using x(2) that by (simp add: agrees_def in_line_def)
    then show ?thesis using assms(3) x(3) by (auto simp: core_at_Suc finish_job_def Let_def simp del: serial_core.simps)
  qed
  then show ?thesis using executed_worker [OF x(1)] executed_core x(3) assms(3) by auto
qed

lemma recovering_step:
  assumes "recovering jid due n s" and "sv_step no_throw s e s'" and "only_asks e" and "late_job due e"
  shows "recovering jid due (n - of_bool (is_job e)) s'"
proof -
  note r = assms(1) [unfolded recovering_def]
  have known: "job_known (sv_gw s)" using r by (simp add: gw_ok_def)
  then have ok: "seq_ok s'" "idle s'"
    using seq_ok_step [OF _ only_asks_polite [OF assms(3)] assms(2)] only_asks_step [OF assms(2,3)] r by blast+
  show ?thesis
  proof (cases "\<exists>i. e = SvJob i")
    case True
    then obtain i where i: "e = SvJob i" "runner_step i (sv_gw s) = Inr (sv_gw s')"
      using only_asks_step [OF assms(2,3)] r by auto
    obtain th where th: "r_worker (gw_jobs (sv_gw s)) = Some th" "jt_id th = jid" "jt_deadline th = due" "started th"
      "late_fuel (jt_pc th) \<le> n" using r by blast
    let ?th = "snd (job_step (r_running (gw_jobs (sv_gw s))) (r_baudrate (gw_jobs (sv_gw s))) i th)"
    have w: "r_worker (gw_jobs (sv_gw s')) = Some ?th" using runner_step_worker [OF i(2)] th(1) by simp
    have "gw_ok (sv_gw s')" using gw_ok_step [OF gw_step.Job [OF i(2)]] r by blast
    moreover have "serving (gw_disp (sv_gw s'))" "gw_state (sv_gw s') = gw_state (sv_gw s)"
      using runner_step_tells [OF i(2) known] r serving_step(2) by (auto simp del: submit.simps)
    moreover have "late_fuel (jt_pc ?th) \<le> n - 1"
      using late_fuel_step [OF th(4), of i] th(3,5) assms(4) i(1) by (meson diff_le_mono late_job.simps(1) order_trans)
    ultimately show ?thesis using r ok w th job_step_started [OF th(4)] job_step_id i(1)
      by (auto simp: recovering_def)
  next
    case False
    moreover have "gw_state (sv_gw s) = RUNNING \<or> gw_state (sv_gw s) = INIT" "seq_ok s" "idle s" using r by blast+
    note idle_worker_state [OF this(2,3,1)]
    moreover have "sv_gw s' = sv_gw s \<or>
        sv_gw s' = (sv_gw s)\<lparr>gw_disp := worker_step no_throw (gw_disp (sv_gw s))\<rparr>" "is_job e = False"
      using only_asks_step [OF assms(2,3)] r False by (cases e; auto)+
    ultimately show ?thesis
      using r ok serving_step(1) gw_ok_step [OF gw_step.Worker] by (auto simp: recovering_def)
  qed
qed


lemma recovering_steps:
  "seq_steps s es s' \<Longrightarrow> recovering jid due n s \<Longrightarrow> list_all only_asks es \<Longrightarrow> list_all (late_job due) es \<Longrightarrow>
     recovering jid due (n - length (filter is_job es)) s'"
proof (induction rule: seq_steps.induct)
  case (seq_more s es s1 e s2)
  then show ?case using recovering_step [of jid due "n - length (filter is_job es)" s1 e s2]
    by (cases "is_job e") (simp_all add: diff_diff_eq)
qed simp

text \<open>The thread has returned: only the worker has something left to do.\<close>

lemma recovered_thread: "recovering jid due 0 s \<Longrightarrow> unfinished (sv_gw s) = 0 \<and> job_over jid (sv_gw s)"
  using late_fuel_0 exited_over by (auto simp: recovering_def unfinished_def)

lemma settling_steps:
  "seq_steps s es s' \<Longrightarrow> recovering jid due 0 s \<Longrightarrow> list_all only_asks es \<Longrightarrow> list_all (late_job due) es \<Longrightarrow>
     work_left (gw_disp (sv_gw s')) \<le> work_left (gw_disp (sv_gw s)) - length (filter is_worker es)"
proof (induction rule: seq_steps.induct)
  case (seq_more s es s1 e s2)
  let ?w = "\<lambda>s. work_left (gw_disp (sv_gw s))"
  have r: "recovering jid due 0 s1" using recovering_steps [OF seq_more(1,5)] seq_more(6,7) by simp
  then have k: "idle s1" "job_known (sv_gw s1)" "serving (gw_disp (sv_gw s1))"
    by (auto simp: recovering_def gw_ok_def)
  have "?w s2 = ?w s1 - of_bool (is_worker e)"
    using only_asks_step [OF seq_more(3) _ k(1)] seq_more(6) serving_step(3) [OF k(3)]
      runner_step_tells [OF _ k(2)] recovered_thread [OF r] by (cases e) (auto simp del: submit.simps)
  then show ?case using seq_more by (cases "is_worker e") auto
qed simp

lemma count_list_all: "\<forall>y \<in> set ys. y = x \<Longrightarrow> count_list ys x = length ys"
  by (induction ys) auto

lemma idle_work_left:
  assumes "seq_ok s" and "idle s"
  shows "work_left (gw_disp (sv_gw s)) \<le> 4"
proof -
  let ?d = "gw_disp (sv_gw s)"
  obtain xs n where x: "executed xs n ?d" "agrees None (unfinished (sv_gw s)) xs n" "n \<le> length xs"
    using seq_ok_idle [OF assms] by metis
  obtain k where k: "serial_at no_throw xs new_Core k ?d" "n = (case d_worker ?d of Ran t r \<Rightarrow> Suc k | _ \<Rightarrow> k)"
    using x(1) by (auto simp: executed_def)
  have "\<forall>y \<in> set (drop n xs). y = OpFinish" using x(2) by (auto simp: agrees_def in_line_def in_set_conv_nth)
  then have "count_list (drop n xs) OpFinish = length xs - n" by (simp add: count_list_all)
  then have "length xs - n \<le> 1" using x(2) by (simp add: agrees_def jobs_open_def)
  moreover have "length (in_hand (d_worker ?d) @ d_q ?d) = length xs - k" using k(1) by (simp add: serial_at_def)
  ultimately show ?thesis using k(2) by (cases "d_worker ?d") (auto simp: work_left_def)
qed

lemma seq_serving: "seq_steps s es s' \<Longrightarrow> s = new_server port \<Longrightarrow> serving (gw_disp (sv_gw s'))"
proof (induction rule: seq_steps.induct)
  case (seq_none s)
  then show ?case by (simp add: serving_def new_server_def new_Gateway_def new_Dispatcher_def)
next
  case (seq_more s es s1 e s2)
  then have run: "seq_steps s es s1" "serving (gw_disp (sv_gw s1))" by simp_all
  then obtain a where a: "live no_throw a" "sv_sim s1 a" using seq_steps_ok run_simulated seq_more.prems by metis
  from seq_more(3) show ?case
  proof (cases rule: sv_step.cases)
    case (Job i g)
    have "job_known (sv_gw s1) \<or> r_worker (gw_jobs (sv_gw s1)) = None" using sim_known [OF a(2) live_ok [OF a(1)]] .
    then have "job_known (sv_gw s1)" by (auto simp: job_known_def)
    then show ?thesis using runner_step_tells [OF Job(3)] run(2) serving_step(2) Job by (auto simp del: submit.simps)
  qed (use run(2) serving_step(1) serving_req in auto)
qed

lemma recovering_start:
  assumes "seq_steps (new_server port) es s" and "idle s" and "r_worker (gw_jobs (sv_gw s)) = Some th"
    and "started th" and "jt_pc th \<noteq> JExited"
  shows "recovering (jt_id th) (jt_deadline th) (late_fuel (jt_pc th)) s"
proof -
  have run: "seq_ok s" "sv_steps no_throw exclusive (new_server port) es s"
    using seq_steps_ok [OF assms(1)] by simp_all
  obtain a where a: "live no_throw a" "sv_sim s a" using run_simulated [OF run(2)] by blast
  have "\<not> launching s t tmo jid" for t tmo jid using assms(2) by (fastforce simp: idle_def launching_def)
  then have "gw_ok (sv_gw s)" using a live_ok by (auto simp: sv_sim_def)
  moreover have "gw_state (sv_gw s) = RUNNING"
  proof -
    obtain xs n where "agrees None (unfinished (sv_gw s)) xs n" "d_core (gw_disp (sv_gw s)) = core_at xs n"
      using seq_ok_idle [OF run(1) assms(2)] by metis
    moreover have "unfinished (sv_gw s) = 1" using assms(3,5) by (simp add: unfinished_def)
    ultimately show ?thesis by (auto simp: agrees_def jobs_open_def simp del: serial_core.simps)
  qed
  ultimately show ?thesis using run(1) seq_serving [OF assms(1)] assms by (auto simp: recovering_def)
qed

section \<open>Properties\<close>



text \<open>A scan of 100 ms that times out while a client asks for the status and for the result.\<close>

abbreviation recovery_threads :: "nat list" where
  "recovery_threads \<equiv> [0, 1, 2, 3, 4]"

definition scan_server :: server where
  "scan_server = the (seq_run recovery_threads seq_events (new_server ''/dev/ttyS1''))"

definition late_run :: "sv_event list" where
  "late_run = [SvJob (quiet_in 100000000), SvArrive 3 QStatus, SvStep 3] @ replicate 3 (SvJob (quiet_in 100000001))"

definition late_server :: server where
  "late_server = the (seq_run recovery_threads late_run scan_server)"

definition settle_run :: "sv_event list" where
  "settle_run = [SvWorker, SvWorker, SvArrive 4 (QExists ''0badcafe''), SvStep 4, SvWorker, SvWorker]"

definition settled_server :: server where
  "settled_server = the (seq_run recovery_threads settle_run late_server)"

lemma seq_run_dom:
  "seq_run ts es s = Some s' \<Longrightarrow> dom (sv_req s) \<subseteq> set ts \<Longrightarrow> dom (sv_req s') \<subseteq> set ts"
proof (induction ts es s rule: seq_run.induct)
  case (2 ts e es s)
  then obtain s1 where s1: "polite_on ts s e" "sv_exec no_throw e s = Some s1" "seq_run ts es s1 = Some s'"
    by (auto split: if_splits option.splits)
  have "case e of SvArrive t pc \<Rightarrow> t \<in> set ts | _ \<Rightarrow> True" using s1(1) by (auto simp: polite_on_def split: sv_event.splits)
  then show ?case using 2 s1 sv_exec_dom [OF s1(2)] by blast
qed simp

lemma idle_on: "list_all (free_of s) ts \<Longrightarrow> dom (sv_req s) \<subseteq> set ts \<Longrightarrow> idle s"
  by (fastforce simp: idle_def list_all_iff split: option.splits)

lemma recovery_run:
  "seq_steps (new_server ''/dev/ttyS1'') seq_events scan_server" "idle scan_server"
  "seq_steps scan_server late_run late_server" "seq_steps late_server settle_run settled_server"
proof -
  have "seq_run recovery_threads seq_events (new_server ''/dev/ttyS1'') \<noteq> None"
    "seq_run recovery_threads late_run scan_server \<noteq> None" "seq_run recovery_threads settle_run late_server \<noteq> None"
    by code_simp+
  then have r: "seq_run recovery_threads seq_events (new_server ''/dev/ttyS1'') = Some scan_server"
    "seq_run recovery_threads late_run scan_server = Some late_server"
    "seq_run recovery_threads settle_run late_server = Some settled_server"
    unfolding scan_server_def late_server_def settled_server_def by simp_all
  have d0: "dom (sv_req (new_server ''/dev/ttyS1'')) \<subseteq> set recovery_threads" by (simp add: new_server_def)
  note d1 = seq_run_dom [OF r(1) d0]
  note d2 = seq_run_dom [OF r(2) d1]
  show "seq_steps (new_server ''/dev/ttyS1'') seq_events scan_server" by (rule seq_run_steps [OF r(1) d0])
  show "seq_steps scan_server late_run late_server" by (rule seq_run_steps [OF r(2) d1])
  show "seq_steps late_server settle_run settled_server" by (rule seq_run_steps [OF r(3) d2])
  have "list_all (free_of scan_server) recovery_threads" by code_simp
  then show "idle scan_server" using d1 by (rule idle_on)
qed


end
