(* ===== verification/Data_Races.thy ===== *)
theory Data_Races
  imports Sequential_Clients
begin

text \<open>
  The memory the threads of the process share, and what protects it: atomics and mutexes in
  \<^verbatim>\<open>app/JobRunner.hpp\<close>, \<^verbatim>\<open>app/JobStore.hpp\<close> and \<^verbatim>\<open>app/Dispatcher.hpp\<close>, and nothing for the state
  of \<^verbatim>\<open>core/Core.hpp\<close> and the thread object of the runner. Every step of the server is given the list of
  its accesses. The lists are shown to be right, in the sense of the locale \<open>shared_memory\<close>: a step
  changes only what it writes, and what it does depends only on what it accesses. From this follow
  that steps without a conflict commute, and which data races the process has.
\<close>

section \<open>Memory\<close>

text \<open>
  The locations: the state of the core; queue and stop flag of the dispatcher; the shared state of
  one promise; the local variables of the worker; the map of the job store; the members of the job
  runner; the object \<^verbatim>\<open>worker_\<close> of the runner, which is there or empty; the job thread behind it,
  with its local variables; and the local variables of a request thread.
\<close>

datatype loc =
    LState | LQueue | LPromise nat | LLoop | LStore | LRunning | LBaudrate | LPort
  | LObject | LThread | LRequest nat

text \<open>
  How the sources protect them. \<open>Handover\<close> is the order the standard library gives: \<^verbatim>\<open>set_value\<close>
  comes before \<^verbatim>\<open>get\<close>, the constructor of a thread before its function, and that before the return of
  \<^verbatim>\<open>join\<close>. \<open>Private\<close> is what only one thread uses; \<open>Constant\<close> what nobody writes.
\<close>

datatype protection = Atomic | Mutex | Handover | Private | Constant | Unprotected

fun protection_of :: "loc \<Rightarrow> protection" where
  "protection_of LState = Unprotected"
| "protection_of LQueue = Mutex"
| "protection_of (LPromise fut) = Handover"
| "protection_of LLoop = Private"
| "protection_of LStore = Mutex"
| "protection_of LRunning = Atomic"
| "protection_of LBaudrate = Atomic"
| "protection_of LPort = Constant"
| "protection_of LObject = Unprotected"
| "protection_of LThread = Handover"
| "protection_of (LRequest t) = Private"

text \<open>Accesses to such a location never race, whoever makes them.\<close>

definition ordered :: "loc \<Rightarrow> bool" where
  "ordered l \<longleftrightarrow> protection_of l \<in> {Atomic, Mutex, Handover}"

datatype access = is_Load: Load (acc_loc: loc) | is_Store: Store (acc_loc: loc)

section \<open>What a step accesses\<close>

text \<open>The branches of \<^verbatim>\<open>Core.cpp\<close> that assign \<^verbatim>\<open>st_\<close>; all of them read it.\<close>

definition task_assigns :: "bool \<Rightarrow> Task \<Rightarrow> State \<Rightarrow> bool" where
  "task_assigns throws t st \<longleftrightarrow> \<not> throws \<and>
     (case task_kind t of
        SYNC_COMMAND \<Rightarrow> upper (task_command t) = ''INIT'' \<and> st \<noteq> RUNNING
                        \<or> upper (task_command t) = ''STOP''
      | START_JOB \<Rightarrow> st = INIT
      | FINISH_JOB \<Rightarrow> st = RUNNING
      | STOP \<Rightarrow> True)"

text \<open>
  The worker's loop. Where a list has both, a read-modify-write is listed as the write; the accesses
  to variables of the thread itself are part of every step.
\<close>

definition worker_accesses :: "(nat \<Rightarrow> bool) \<Rightarrow> Dispatcher \<Rightarrow> access list" where
  "worker_accesses thr d =
     (case d_worker d of
        Waiting \<Rightarrow> [Store LLoop, Store LQueue]
      | GotTask t \<Rightarrow>
          [Store LLoop, if task_assigns (thr (task_prom t)) t (core_st (d_core d))
                        then Store LState else Load LState]
      | Ran t r \<Rightarrow> [Store LLoop, Store (LPromise (task_prom t))]
      | Exited \<Rightarrow> [Load LLoop])"

text \<open>The job thread: its loads of the atomics by program point, and its calls.\<close>

fun act_accesses :: "job_act \<Rightarrow> access list" where
  "act_accesses ASetTimeout = [Store LStore]"
| "act_accesses ASetCancelled = [Store LStore]"
| "act_accesses (ASetDone q) = [Store LStore]"
| "act_accesses AClearFlag = [Store LRunning]"
| "act_accesses ASubmitFinish = [Store LQueue]"
| "act_accesses _ = []"

fun job_loads :: "job_pc \<Rightarrow> access list" where
  "job_loads JLoop = [Load LRunning]"
| "job_loads (JOpen remaining) = [Load LPort, Load LBaudrate]"
| "job_loads (JRead remaining) = [Load LRunning]"
| "job_loads (JPoll remaining) = [Load LRunning]"
| "job_loads (JGot got) = [Load LRunning]"
| "job_loads _ = []"

definition job_accesses :: "job_in \<Rightarrow> JobRunner \<Rightarrow> access list" where
  "job_accesses i r =
     (case r_worker r of
        None \<Rightarrow> [Load LThread]
      | Some th \<Rightarrow> Store LThread # job_loads (jt_pc th) @
          concat (map act_accesses (fst (job_step (r_running r) (r_baudrate r) i th))))"

text \<open>
  The handlers. \<^verbatim>\<open>JobRunner::stop\<close> only asks whether the thread object is joinable when it is empty.
\<close>

fun req_accesses :: "JobRunner \<Rightarrow> req_pc \<Rightarrow> access list" where
  "req_accesses r (QBaud cmd baud) = (if baud > 0 then [Store LBaudrate] else [])"
| "req_accesses r (QClear k) = [Store LRunning]"
| "req_accesses r (QJoin k) =
     (if r_worker r = None then [Load LObject] else [Store LObject, Store LThread])"
| "req_accesses r (QSubmit k) = [Store LQueue]"
| "req_accesses r (QWait k fut) = [Load (LPromise fut)]"
| "req_accesses r (QCreate tmo jid) = [Store LStore]"
| "req_accesses r (QFlag tmo jid) = [Store LRunning]"
| "req_accesses r (QLaunch tmo jid) = [Store LObject, Store LThread]"
| "req_accesses r (QStarted jid) = [Load LState]"
| "req_accesses r QStatus = [Load LState]"
| "req_accesses r (QExists jid) = [Load LStore]"
| "req_accesses r (QGet jid) = [Load LStore]"
| "req_accesses r (QGot jid res) = [Load LState]"
| "req_accesses r (QDone resp) = []"

fun accesses :: "(nat \<Rightarrow> bool) \<Rightarrow> server \<Rightarrow> sv_event \<Rightarrow> access list" where
  "accesses thr s (SvArrive t pc) = [Store (LRequest t)]"
| "accesses thr s (SvStep t) =
     Store (LRequest t) #
       (case sv_req s t of None \<Rightarrow> [] | Some pc \<Rightarrow> req_accesses (gw_jobs (sv_gw s)) pc)"
| "accesses thr s (SvTimeout t) =
     Store (LRequest t) #
       (case sv_req s t of Some (QWait k fut) \<Rightarrow> [Load (LPromise fut)] | _ \<Rightarrow> [])"
| "accesses thr s SvWorker = worker_accesses thr (gw_disp (sv_gw s))"
| "accesses thr s (SvJob i) = job_accesses i (gw_jobs (sv_gw s))"

text \<open>The locations a step accesses, and those it may change.\<close>

definition touched :: "(nat \<Rightarrow> bool) \<Rightarrow> server \<Rightarrow> sv_event \<Rightarrow> loc set" where
  "touched thr s e = acc_loc ` set (accesses thr s e)"

definition written :: "(nat \<Rightarrow> bool) \<Rightarrow> server \<Rightarrow> sv_event \<Rightarrow> loc set" where
  "written thr s e = {l. Store l \<in> set (accesses thr s e)}"

lemma written_code [code]: "written thr s e = set (map acc_loc (filter is_Store (accesses thr s e)))"
  by (force simp: written_def image_iff is_Store_def)

text \<open>Two states of the server agree at a location.\<close>

fun same_at :: "loc \<Rightarrow> server \<Rightarrow> server \<Rightarrow> bool" where
  "same_at LState s s' = (d_core (gw_disp (sv_gw s)) = d_core (gw_disp (sv_gw s')))"
| "same_at LQueue s s' =
     (d_q (gw_disp (sv_gw s)) = d_q (gw_disp (sv_gw s')) \<and>
      d_stopping (gw_disp (sv_gw s)) = d_stopping (gw_disp (sv_gw s')) \<and>
      d_next (gw_disp (sv_gw s)) = d_next (gw_disp (sv_gw s')))"
| "same_at (LPromise fut) s s' =
     (d_proms (gw_disp (sv_gw s)) fut = d_proms (gw_disp (sv_gw s')) fut)"
| "same_at LLoop s s' = (d_worker (gw_disp (sv_gw s)) = d_worker (gw_disp (sv_gw s')))"
| "same_at LStore s s' = (gw_store (sv_gw s) = gw_store (sv_gw s'))"
| "same_at LRunning s s' = (r_running (gw_jobs (sv_gw s)) = r_running (gw_jobs (sv_gw s')))"
| "same_at LBaudrate s s' = (r_baudrate (gw_jobs (sv_gw s)) = r_baudrate (gw_jobs (sv_gw s')))"
| "same_at LPort s s' = (r_serial_port (gw_jobs (sv_gw s)) = r_serial_port (gw_jobs (sv_gw s')))"
| "same_at LObject s s' =
     ((r_worker (gw_jobs (sv_gw s)) = None) = (r_worker (gw_jobs (sv_gw s')) = None))"
| "same_at LThread s s' = (r_worker (gw_jobs (sv_gw s)) = r_worker (gw_jobs (sv_gw s')))"
| "same_at (LRequest t) s s' = (sv_req s t = sv_req s' t)"

section \<open>Independent steps\<close>

text \<open>
  What a footprint promises, for any memory and any steps: the memory is its locations; a step keeps what
  it does not write; and in a state that agrees on what it accesses, it can be taken too, accesses the
  same and writes the same.
\<close>

locale shared_memory =
  fixes same :: "'l \<Rightarrow> 's \<Rightarrow> 's \<Rightarrow> bool" and step :: "'e \<Rightarrow> 's \<Rightarrow> 's option"
    and touches :: "'s \<Rightarrow> 'e \<Rightarrow> 'l set" and writes :: "'s \<Rightarrow> 'e \<Rightarrow> 'l set"
  assumes same_sym: "same l s s' \<Longrightarrow> same l s' s"
    and same_trans: "same l s s' \<Longrightarrow> same l s' s'' \<Longrightarrow> same l s s''"
    and same_all: "(\<And>l. same l s s') \<Longrightarrow> s = s'"
    and writes_touched: "writes s e \<subseteq> touches s e"
    and keeps: "step e s = Some t \<Longrightarrow> l \<notin> writes s e \<Longrightarrow> same l s t"
    and determined: "step e s = Some t \<Longrightarrow> (\<And>l. l \<in> touches s e \<Longrightarrow> same l s s') \<Longrightarrow>
      touches s' e = touches s e \<and> writes s' e = writes s e \<and>
      (\<exists>t'. step e s' = Some t' \<and> (\<forall>l \<in> writes s e. same l t t'))"
begin

text \<open>A step without conflict does not notice the other one.\<close>

lemma unseen:
  assumes "step e s = Some t" and "step f s = Some u" and "writes s e \<inter> touches s f = {}" and "writes s f \<inter> touches s e = {}"
  shows "\<exists>v. step f t = Some v \<and> writes t f = writes s f \<and> (\<forall>l \<in> writes s f. same l u v)"
proof -
  have "same l s t" if "l \<in> touches s f" for l
    using keeps [OF assms(1)] assms(3) that by blast
  from determined [OF assms(2) this] show ?thesis by blast
qed

lemma diamond:
  assumes "step e s = Some t" and "step f s = Some u" and "writes s e \<inter> touches s f = {}" and "writes s f \<inter> touches s e = {}"
  shows "\<exists>v. step f t = Some v \<and> step e u = Some v"
proof -
  obtain v where v: "step f t = Some v" "writes t f = writes s f" "\<forall>l \<in> writes s f. same l u v"
    using unseen [OF assms] by blast
  obtain w where w: "step e u = Some w" "writes u e = writes s e" "\<forall>l \<in> writes s e. same l t w"
    using unseen [OF assms(2,1,4,3)] by blast
  have "same l v w" for l
  proof -
    consider "l \<in> writes s f" "l \<notin> writes s e" | "l \<in> writes s e" "l \<notin> writes s f"
      | "l \<notin> writes s e" "l \<notin> writes s f"
      using assms(3) writes_touched [of s f] by blast
    then show ?thesis
    proof cases
      case 1
      then have "same l u v" "same l u w" using v(3) keeps [OF w(1)] w(2) by auto
      then show ?thesis using same_sym same_trans by blast
    next
      case 2
      then have "same l t v" "same l t w" using w(3) keeps [OF v(1)] v(2) by auto
      then show ?thesis using same_sym same_trans by blast
    next
      case 3
      then have "same l s t" "same l t v" "same l s u" "same l u w"
        using keeps [OF assms(1)] keeps [OF assms(2)] keeps [OF v(1)] keeps [OF w(1)] v(2) w(2) by auto
      then show ?thesis using same_sym same_trans by blast
    qed
  qed
  then have "v = w" by (rule same_all)
  then show ?thesis using v(1) w(1) by blast
qed

text \<open>Steps taken one after the other.\<close>

lemma swap:
  assumes "step e s = Some t" and "step f t = Some v"
    and "writes s e \<inter> touches t f = {}" and "writes t f \<inter> touches s e = {}"
  shows "\<exists>u. step f s = Some u \<and> step e u = Some v"
proof -
  have "same l t s" if "l \<in> touches t f" for l
    using keeps [OF assms(1)] same_sym assms(3) that by blast
  from determined [OF assms(2) this] obtain u where u: "step f s = Some u" "touches s f = touches t f" "writes s f = writes t f"
    by blast
  from diamond [OF assms(1) u(1)] show ?thesis using assms(2-4) u by auto
qed

end


section \<open>The footprints are right\<close>

lemmas footprint_defs = touched_def written_def

lemma same_at_eq:
  assumes "\<And>l. same_at l s s'"
  shows "s = s'"
proof -
  have "d_proms (gw_disp (sv_gw s)) = d_proms (gw_disp (sv_gw s'))" "sv_req s = sv_req s'"
    using assms [of "LPromise _"] assms [of "LRequest _"] by (simp_all add: fun_eq_iff)
  moreover note assms [of LState] assms [of LQueue] assms [of LLoop] assms [of LStore] assms [of LRunning]
    assms [of LBaudrate] assms [of LPort] assms [of LThread]
  ultimately show ?thesis by (intro server.equality Gateway.equality JobRunner.equality Dispatcher.equality) auto
qed

lemma task_no_assign:
  "\<not> task_assigns throws t (core_st c) \<Longrightarrow> snd (run_task throws t c) = c"
  by (cases "core_st c") (auto simp: task_assigns_def run_task_def gw_defs Let_def split: Kind.splits)

text \<open>The worker.\<close>

lemma worker_frame:
  "l \<notin> written thr s SvWorker \<Longrightarrow> sv_exec thr SvWorker s = Some t \<Longrightarrow> same_at l s t"
  by (cases l; cases "d_worker (gw_disp (sv_gw s))")
    (auto simp: written_def worker_accesses_def worker_step_def Let_def split: prod.splits list.splits if_splits
      dest: task_no_assign)

lemma worker_determined:
  assumes "\<And>l. l \<in> touched thr s SvWorker \<Longrightarrow> same_at l s s'"
  shows "accesses thr s' SvWorker = accesses thr s SvWorker"
    and "sv_exec thr SvWorker s = Some t \<Longrightarrow>
      \<exists>t'. sv_exec thr SvWorker s' = Some t' \<and> (\<forall>l \<in> written thr s SvWorker. same_at l t t')"
proof -
  let ?d = "gw_disp (sv_gw s)" and ?e = "gw_disp (sv_gw s')"
  have w: "d_worker ?e = d_worker ?d"
    using assms [of LLoop] by (cases "d_worker ?d") (auto simp: touched_def worker_accesses_def)
  have q: "d_q ?e = d_q ?d" "d_stopping ?e = d_stopping ?d" "d_next ?e = d_next ?d" if "d_worker ?d = Waiting"
    using assms [of LQueue] that by (auto simp: touched_def worker_accesses_def)
  have c: "d_core ?e = d_core ?d" if "d_worker ?d = GotTask tk" for tk
    using assms [of LState] that by (auto simp: touched_def worker_accesses_def)
  show "accesses thr s' SvWorker = accesses thr s SvWorker"
    using w c by (simp add: worker_accesses_def split: worker_pc.split)
  show "\<exists>t'. sv_exec thr SvWorker s' = Some t' \<and> (\<forall>l \<in> written thr s SvWorker. same_at l t t')"
    if "sv_exec thr SvWorker s = Some t"
    using that w q c
    by (cases "d_worker ?d")
      (auto simp: written_def worker_accesses_def worker_step_def split: prod.splits list.splits)
qed


text \<open>The request threads.\<close>

lemma req_frame:
  assumes "sv_exec thr (SvStep t) s = Some s'" and "l \<notin> written thr s (SvStep t)"
  shows "same_at l s s'"
proof -
  obtain pc where pc: "sv_req s t = Some pc" using assms(1) by (cases "sv_req s t") auto
  then show ?thesis using assms
    by (cases pc; cases l)
      (auto simp: written_def clear_running_def join_def set_baudrate_def submit_eq
        split: option.splits if_splits sum.splits)
qed

lemma req_determined:
  assumes "\<And>l. l \<in> touched thr s (SvStep t) \<Longrightarrow> same_at l s u"
  shows "accesses thr u (SvStep t) = accesses thr s (SvStep t)"
    and "sv_exec thr (SvStep t) s = Some s' \<Longrightarrow>
      \<exists>u'. sv_exec thr (SvStep t) u = Some u' \<and> (\<forall>l \<in> written thr s (SvStep t). same_at l s' u')"
proof -
  have q: "sv_req u t = sv_req s t" using assms [of "LRequest t"] by (simp add: touched_def)
  have ag: "same_at l s u" if "sv_req s t = Some pc" "l \<in> acc_loc ` set (req_accesses (gw_jobs (sv_gw s)) pc)" for l pc
    using assms [of l] that by (auto simp: touched_def)
  show "accesses thr u (SvStep t) = accesses thr s (SvStep t)"
  proof (cases "sv_req s t")
    case (Some pc)
    then show ?thesis using q ag [OF Some, of LObject] by (cases pc) (auto split: if_splits)
  qed (simp add: q)
  show "\<exists>u'. sv_exec thr (SvStep t) u = Some u' \<and> (\<forall>l \<in> written thr s (SvStep t). same_at l s' u')"
    if "sv_exec thr (SvStep t) s = Some s'"
  proof -
    note ex = that
    obtain pc where pc: "sv_req s t = Some pc" using ex by (cases "sv_req s t") auto
    show ?thesis
      using ex pc q ag [OF pc, of LState] ag [OF pc, of LQueue] ag [OF pc, of LStore] ag [OF pc, of LObject]
        ag [OF pc, of LThread] ag [OF pc, of "LPromise _"]
      by (cases pc)
        (auto simp: written_def clear_running_def join_def set_baudrate_def submit_eq handle_status_def
          split: option.splits if_splits sum.splits)
  qed
qed

text \<open>The job thread.\<close>

lemma act_keeps:
  assumes "apply_act jid a g = Inr g'" and "Store l \<notin> set (act_accesses a)"
  shows "same_at l (s\<lparr>sv_gw := g\<rparr>) (s\<lparr>sv_gw := g'\<rparr>)"
  using assms
  by (cases a; cases l) (auto simp: upd_store_def submit_finish_job_def get_future_def push_def split: sum.splits)

lemma act_agrees:
  assumes "apply_act jid a g = Inr g'"
    and "\<And>l. l \<in> acc_loc ` set (act_accesses a) \<Longrightarrow> same_at l (s\<lparr>sv_gw := g\<rparr>) (u\<lparr>sv_gw := h\<rparr>)"
  shows "\<exists>h'. apply_act jid a h = Inr h' \<and>
    (\<forall>l. same_at l (s\<lparr>sv_gw := g\<rparr>) (u\<lparr>sv_gw := h\<rparr>) \<longrightarrow> same_at l (s\<lparr>sv_gw := g'\<rparr>) (u\<lparr>sv_gw := h'\<rparr>))"
proof -
  obtain h' where h: "apply_act jid a h = Inr h'"
    using assms by (cases a) (auto simp: upd_store_def split: sum.splits)
  have "same_at l (s\<lparr>sv_gw := g'\<rparr>) (u\<lparr>sv_gw := h'\<rparr>)" if "same_at l (s\<lparr>sv_gw := g\<rparr>) (u\<lparr>sv_gw := h\<rparr>)" for l
    using assms h that
    by (cases a; cases l)
      (auto simp: upd_store_def submit_finish_job_def get_future_def push_def split: sum.splits)
  with h show ?thesis by blast
qed

lemma acts_keep:
  assumes "apply_acts jid as g = Inr g'" and "Store l \<notin> set (concat (map act_accesses as))"
  shows "same_at l (s\<lparr>sv_gw := g\<rparr>) (s\<lparr>sv_gw := g'\<rparr>)"
  using assms
proof (induction jid as g rule: apply_acts.induct)
  case (1 jid g)
  then show ?case by (cases l) auto
next
  case (2 jid a as g)
  then obtain g1 where g1: "apply_act jid a g = Inr g1" by (auto split: sum.splits)
  then have "same_at l (s\<lparr>sv_gw := g\<rparr>) (s\<lparr>sv_gw := g1\<rparr>)" "same_at l (s\<lparr>sv_gw := g1\<rparr>) (s\<lparr>sv_gw := g'\<rparr>)"
    using 2 act_keeps by auto
  then show ?case by (cases l) auto
qed

lemma acts_agree:
  assumes "apply_acts jid as g = Inr g'"
    and "\<And>l. l \<in> acc_loc ` set (concat (map act_accesses as)) \<Longrightarrow> same_at l (s\<lparr>sv_gw := g\<rparr>) (u\<lparr>sv_gw := h\<rparr>)"
  shows "\<exists>h'. apply_acts jid as h = Inr h' \<and>
    (\<forall>l. same_at l (s\<lparr>sv_gw := g\<rparr>) (u\<lparr>sv_gw := h\<rparr>) \<longrightarrow> same_at l (s\<lparr>sv_gw := g'\<rparr>) (u\<lparr>sv_gw := h'\<rparr>))"
  using assms
proof (induction jid as g arbitrary: h rule: apply_acts.induct)
  case (2 jid a as g)
  then obtain g1 where g1: "apply_act jid a g = Inr g1" "apply_acts jid as g1 = Inr g'" by (auto split: sum.splits)
  obtain h1 where h1: "apply_act jid a h = Inr h1"
    "\<And>l. same_at l (s\<lparr>sv_gw := g\<rparr>) (u\<lparr>sv_gw := h\<rparr>) \<Longrightarrow> same_at l (s\<lparr>sv_gw := g1\<rparr>) (u\<lparr>sv_gw := h1\<rparr>)"
    using act_agrees [OF g1(1), where s = s and u = u and h = h] 2(3) by auto
  have "same_at l (s\<lparr>sv_gw := g1\<rparr>) (u\<lparr>sv_gw := h1\<rparr>)"
    if "l \<in> acc_loc ` set (concat (map act_accesses as))" for l
    using 2(3) [of l] h1(2) that by auto
  from 2(1) [OF g1(1,2) this] show ?case using h1 by auto
qed simp

lemma job_step_loads:
  assumes "Load LRunning \<in> set (job_loads (jt_pc th)) \<Longrightarrow> r = r'"
    and "Load LBaudrate \<in> set (job_loads (jt_pc th)) \<Longrightarrow> b = b'"
  shows "job_step r b i th = job_step r' b' i th"
  using assms by (cases "jt_pc th") (simp_all add: job_step_def)

lemma job_frame:
  assumes "sv_exec thr (SvJob i) s = Some s'" and "l \<notin> written thr s (SvJob i)"
  shows "same_at l s s'"
proof (cases "r_worker (gw_jobs (sv_gw s))")
  case None
  then show ?thesis using assms by (cases l) (auto simp: runner_step_def)
next
  case (Some th)
  let ?r = "gw_jobs (sv_gw s)"
  let ?st = "job_step (r_running ?r) (r_baudrate ?r) i th"
  let ?g = "(sv_gw s)\<lparr>gw_jobs := ?r\<lparr>r_worker := Some (snd ?st)\<rparr>\<rparr>"
  obtain g where g: "apply_acts (jt_id th) (fst ?st) ?g = Inr g" "s' = s\<lparr>sv_gw := g\<rparr>"
    using assms(1) Some by (auto simp: runner_step_def split: sum.splits prod.splits)
  have l: "l \<noteq> LThread" "Store l \<notin> set (concat (map act_accesses (fst ?st)))"
    using assms(2) Some by (auto simp: written_def job_accesses_def)
  have "same_at l s (s\<lparr>sv_gw := ?g\<rparr>)" using l(1) Some by (cases l) auto
  moreover have "same_at l (s\<lparr>sv_gw := ?g\<rparr>) s'" using acts_keep [OF g(1) l(2)] g(2) by simp
  ultimately show ?thesis by (cases l) auto
qed

lemma job_determined:
  assumes "\<And>l. l \<in> touched thr s (SvJob i) \<Longrightarrow> same_at l s u"
  shows "accesses thr u (SvJob i) = accesses thr s (SvJob i)"
    and "sv_exec thr (SvJob i) s = Some s' \<Longrightarrow>
      \<exists>u'. sv_exec thr (SvJob i) u = Some u' \<and> (\<forall>l \<in> written thr s (SvJob i). same_at l s' u')"
proof -
  let ?r = "gw_jobs (sv_gw s)" and ?q = "gw_jobs (sv_gw u)"
  have w: "r_worker ?q = r_worker ?r"
    using assms [of LThread] by (auto simp: touched_def job_accesses_def split: option.splits)
  have st: "job_step (r_running ?q) (r_baudrate ?q) i th = job_step (r_running ?r) (r_baudrate ?r) i th"
    if "r_worker ?r = Some th" for th
    using assms [of LRunning] assms [of LBaudrate] that
    by (intro job_step_loads) (force simp: touched_def job_accesses_def)+
  show "accesses thr u (SvJob i) = accesses thr s (SvJob i)"
    using w st by (simp add: job_accesses_def split: option.split)
  show "\<exists>u'. sv_exec thr (SvJob i) u = Some u' \<and> (\<forall>l \<in> written thr s (SvJob i). same_at l s' u')"
    if ex: "sv_exec thr (SvJob i) s = Some s'"
  proof (cases "r_worker ?r")
    case None
    then show ?thesis using ex w by (auto simp: runner_step_def written_def job_accesses_def)
  next
    case (Some th)
    let ?st = "job_step (r_running ?r) (r_baudrate ?r) i th"
    let ?g = "(sv_gw s)\<lparr>gw_jobs := ?r\<lparr>r_worker := Some (snd ?st)\<rparr>\<rparr>"
    let ?h = "(sv_gw u)\<lparr>gw_jobs := ?q\<lparr>r_worker := Some (snd ?st)\<rparr>\<rparr>"
    obtain g where g: "apply_acts (jt_id th) (fst ?st) ?g = Inr g" "s' = s\<lparr>sv_gw := g\<rparr>"
      using ex Some by (auto simp: runner_step_def split: sum.splits prod.splits)
    have ag: "same_at l (s\<lparr>sv_gw := ?g\<rparr>) (u\<lparr>sv_gw := ?h\<rparr>)" if "l \<in> touched thr s (SvJob i)" for l
      using assms [OF that] by (cases l) auto
    obtain h where h: "apply_acts (jt_id th) (fst ?st) ?h = Inr h"
      "\<And>l. same_at l (s\<lparr>sv_gw := ?g\<rparr>) (u\<lparr>sv_gw := ?h\<rparr>) \<Longrightarrow> same_at l s' (u\<lparr>sv_gw := h\<rparr>)"
      using acts_agree [OF g(1), where s = s and u = u and h = ?h] ag g(2) Some by (force simp: touched_def job_accesses_def)
    have "sv_exec thr (SvJob i) u = Some (u\<lparr>sv_gw := h\<rparr>)"
      using h(1) w st [OF Some] Some by (simp add: runner_step_def split_def)
    then show ?thesis using h(2) ag by (force simp: footprint_defs)
  qed
qed


text \<open>Arrivals and timeouts.\<close>

lemma sv_frame:
  assumes "sv_exec thr e s = Some s'" and "l \<notin> written thr s e"
  shows "same_at l s s'"
proof (cases e)
  case (SvArrive t pc)
  then show ?thesis using assms by (cases l) (auto simp: written_def split: if_splits)
next
  case (SvTimeout t)
  then show ?thesis using assms by (cases l) (auto simp: written_def split: option.splits)
qed (use assms req_frame worker_frame job_frame in blast)+

lemma sv_determined:
  assumes "\<And>l. l \<in> touched thr s e \<Longrightarrow> same_at l s u"
  shows "accesses thr u e = accesses thr s e"
    and "sv_exec thr e s = Some s' \<Longrightarrow>
      \<exists>u'. sv_exec thr e u = Some u' \<and> (\<forall>l \<in> written thr s e. same_at l s' u')"
proof -
  have own: "sv_req u t = sv_req s t" if "e = SvArrive t pc \<or> e = SvTimeout t" for t pc
    using assms [of "LRequest t"] that by (auto simp: touched_def)
  have fut: "d_proms (gw_disp (sv_gw u)) fut = d_proms (gw_disp (sv_gw s)) fut"
    if "e = SvTimeout t" "sv_req s t = Some (QWait k fut)" for t k fut
    using assms [of "LPromise fut"] that by (auto simp: touched_def)
  show "accesses thr u e = accesses thr s e"
  proof (cases e)
    case (SvTimeout t)
    then show ?thesis using own by simp
  qed (simp, (use assms req_determined(1) worker_determined(1) job_determined(1) in blast)+)
  show "\<exists>u'. sv_exec thr e u = Some u' \<and> (\<forall>l \<in> written thr s e. same_at l s' u')"
    if ex: "sv_exec thr e s = Some s'"
  proof (cases e)
    case (SvArrive t pc)
    then show ?thesis using ex own by (auto simp: written_def split: if_splits)
  next
    case (SvTimeout t)
    then obtain k fut where "sv_req s t = Some (QWait k fut)"
      using ex by (auto split: option.splits elim: req_timeout.elims)
    then show ?thesis using ex own fut SvTimeout by (auto simp: written_def split: if_splits)
  qed (use ex assms req_determined(2) worker_determined(2) job_determined(2) in blast)+
qed

text \<open>So the accesses listed for the server are a footprint in the sense of the locale.\<close>

interpretation mem: shared_memory same_at "sv_exec thr" "touched thr" "written thr" for thr
proof unfold_locales
  show "same_at l s s' \<Longrightarrow> same_at l s' s" for l s s' by (cases l) auto
  show "same_at l s s' \<Longrightarrow> same_at l s' s'' \<Longrightarrow> same_at l s s''" for l s s' s'' by (cases l) auto
  show "written thr s e \<subseteq> touched thr s e" for s e by (force simp: footprint_defs)
  show "touched thr s' e = touched thr s e \<and> written thr s' e = written thr s e \<and>
      (\<exists>t'. sv_exec thr e s' = Some t' \<and> (\<forall>l \<in> written thr s e. same_at l t t'))"
    if "sv_exec thr e s = Some t" "\<And>l. l \<in> touched thr s e \<Longrightarrow> same_at l s s'" for e s t s'
    using sv_determined [OF that(2)] that(1) by (simp add: footprint_defs)
qed (use same_at_eq sv_frame in blast)+

section \<open>Races\<close>

text \<open>
  A race is a pair of steps of different threads, both the next one of their thread, which access the same
  location that nothing orders, at least one of them to write it.
\<close>

datatype gw_thread = RequestThread nat | WorkerThread | JobThread

fun thread_of :: "sv_event \<Rightarrow> gw_thread" where
  "thread_of (SvArrive t pc) = RequestThread t"
| "thread_of (SvStep t) = RequestThread t"
| "thread_of (SvTimeout t) = RequestThread t"
| "thread_of SvWorker = WorkerThread"
| "thread_of (SvJob i) = JobThread"

definition race :: "(nat \<Rightarrow> bool) \<Rightarrow> server \<Rightarrow> sv_event \<Rightarrow> sv_event \<Rightarrow> loc \<Rightarrow> bool" where
  "race thr s e f l \<longleftrightarrow> thread_of e \<noteq> thread_of f \<and> \<not> ordered l \<and>
     l \<in> touched thr s e \<inter> touched thr s f \<and> l \<in> written thr s e \<union> written thr s f"


definition racy :: "(nat \<Rightarrow> bool) \<Rightarrow> server \<Rightarrow> loc \<Rightarrow> bool" where
  "racy thr s l \<longleftrightarrow> (\<exists>e f. race thr s e f l)"

text \<open>The handlers at \<^verbatim>\<open>core_.state()\<close>, and the worker before an assignment to the state.\<close>

fun reads_state :: "req_pc \<Rightarrow> bool" where
  "reads_state QStatus = True" | "reads_state (QStarted jid) = True"
| "reads_state (QGot jid res) = True" | "reads_state _ = False"

definition assigning :: "(nat \<Rightarrow> bool) \<Rightarrow> server \<Rightarrow> bool" where
  "assigning thr s \<longleftrightarrow> (\<exists>tk. d_worker (gw_disp (sv_gw s)) = GotTask tk \<and>
     task_assigns (thr (task_prom tk)) tk (gw_state (sv_gw s)))"

lemma job_accesses_locs:
  "acc_loc ` set (job_accesses i r) \<subseteq> {LThread, LRunning, LPort, LBaudrate, LStore, LQueue}"
proof -
  have "acc_loc ` set (job_loads pc) \<subseteq> {LRunning, LPort, LBaudrate}" for pc by (cases pc) auto
  moreover have "acc_loc ` set (act_accesses a) \<subseteq> {LRunning, LStore, LQueue}" for a by (cases a) auto
  ultimately show ?thesis by (auto simp: job_accesses_def split: option.split) blast+
qed

lemma req_accesses_shared:
  "LState \<in> acc_loc ` set (req_accesses r pc) \<longleftrightarrow> reads_state pc"
  "Store LState \<notin> set (req_accesses r pc)"
  "LObject \<in> acc_loc ` set (req_accesses r pc) \<longleftrightarrow> at_thread_object pc"
  "Store LObject \<in> set (req_accesses r pc) \<longleftrightarrow>
     at_thread_object pc \<and> (r_worker r = None \<longrightarrow> (\<exists>tmo jid. pc = QLaunch tmo jid))"
  by (cases pc; auto)+

text \<open>Who accesses the locations nothing protects.\<close>

lemma touched_shared:
  assumes "l = LState \<or> l = LObject"
  shows "l \<in> touched thr s e \<longleftrightarrow>
     (e = SvWorker \<and> l = LState \<and> (\<exists>tk. d_worker (gw_disp (sv_gw s)) = GotTask tk)) \<or>
     (\<exists>t pc. e = SvStep t \<and> sv_req s t = Some pc \<and> l \<in> acc_loc ` set (req_accesses (gw_jobs (sv_gw s)) pc))"
proof (cases e)
  case (SvStep t)
  then show ?thesis using assms by (cases "sv_req s t") (auto simp: touched_def)
next
  case (SvTimeout t)
  then show ?thesis using assms by (auto simp: touched_def split: option.split req_pc.split)
next
  case (SvJob i)
  then show ?thesis using assms job_accesses_locs by (fastforce simp: touched_def)
qed (use assms in \<open>auto simp: touched_def worker_accesses_def split: worker_pc.split\<close>)

lemma written_shared:
  assumes "l = LState \<or> l = LObject"
  shows "l \<in> written thr s e \<longleftrightarrow> (e = SvWorker \<and> l = LState \<and> assigning thr s) \<or>
     (\<exists>t pc. e = SvStep t \<and> sv_req s t = Some pc \<and> Store l \<in> set (req_accesses (gw_jobs (sv_gw s)) pc))"
proof (cases e)
  case (SvStep t)
  then show ?thesis using assms by (cases "sv_req s t") (auto simp: written_def)
next
  case (SvTimeout t)
  then show ?thesis using assms by (auto simp: written_def split: option.split req_pc.split)
next
  case (SvJob i)
  then show ?thesis using assms job_accesses_locs by (force simp: written_def)
qed (use assms in \<open>auto simp: written_def worker_accesses_def assigning_def split: worker_pc.split\<close>)

text \<open>What belongs to one thread stays with it, and nobody writes the name of the port.\<close>

fun thread_locs :: "gw_thread \<Rightarrow> loc set" where
  "thread_locs (RequestThread t) =
     {LRequest t, LState, LQueue, LStore, LRunning, LBaudrate, LObject, LThread} \<union> range LPromise"
| "thread_locs WorkerThread = {LLoop, LState, LQueue} \<union> range LPromise"
| "thread_locs JobThread = {LThread, LRunning, LPort, LBaudrate, LStore, LQueue}"

lemma touched_thread_locs: "touched thr s e \<subseteq> thread_locs (thread_of e)"
proof (cases e)
  case (SvStep t)
  have "acc_loc ` set (req_accesses r pc) \<subseteq> thread_locs (RequestThread t)" for r pc by (cases pc) auto
  then show ?thesis using SvStep by (auto simp: touched_def split: option.split)
next
  case (SvTimeout t)
  then show ?thesis by (auto simp: touched_def split: option.split req_pc.split)
next
  case (SvJob i)
  then show ?thesis using job_accesses_locs by (fastforce simp: touched_def)
qed (auto simp: touched_def worker_accesses_def split: worker_pc.split)

lemma port_constant: "LPort \<notin> written thr s e"
proof -
  have "Store LPort \<notin> set (job_loads pc)" "Store LPort \<notin> set (act_accesses a)" for pc a
    by (cases pc; simp) (cases a; simp)
  then have "LPort \<notin> written thr s (SvJob i)" for i
    by (auto simp: written_def job_accesses_def split: option.split)
  moreover have "LPort \<in> thread_locs (thread_of e)" if "LPort \<in> written thr s e"
    using that mem.writes_touched [of thr s e] touched_thread_locs by blast
  ultimately show ?thesis by (cases e) auto
qed

text \<open>The two races there are.\<close>

definition state_race :: "(nat \<Rightarrow> bool) \<Rightarrow> server \<Rightarrow> bool" where
  "state_race thr s \<longleftrightarrow> assigning thr s \<and> (\<exists>t pc. sv_req s t = Some pc \<and> reads_state pc)"

definition object_race :: "server \<Rightarrow> bool" where
  "object_race s \<longleftrightarrow> (\<exists>t u pc qc. t \<noteq> u \<and> sv_req s t = Some pc \<and> sv_req s u = Some qc \<and>
     at_thread_object pc \<and> at_thread_object qc \<and>
     (runner_free s \<longrightarrow> (\<exists>tmo jid. pc = QLaunch tmo jid)))"

lemma race_locs: "race thr s e f l \<Longrightarrow> l = LState \<or> l = LObject"
  using touched_thread_locs [of thr s e] touched_thread_locs [of thr s f] port_constant [of thr s]
  by (cases l; cases "thread_of e"; cases "thread_of f") (auto simp: race_def ordered_def)

lemma racy_state: "racy thr s LState \<longleftrightarrow> state_race thr s"
proof
  assume "racy thr s LState"
  then show "state_race thr s"
    unfolding racy_def race_def state_race_def
    by (auto simp: touched_shared written_shared req_accesses_shared)
next
  assume "state_race thr s"
  then obtain t pc where "assigning thr s" "sv_req s t = Some pc" "reads_state pc" unfolding state_race_def by blast
  then have "race thr s SvWorker (SvStep t) LState"
    by (auto simp: race_def ordered_def touched_shared written_shared req_accesses_shared assigning_def)
  then show "racy thr s LState" unfolding racy_def by blast
qed

lemma racy_object: "racy thr s LObject \<longleftrightarrow> object_race s"
proof
  assume "racy thr s LObject"
  then obtain e f where r: "race thr s e f LObject" unfolding racy_def by blast
  then obtain t u pc qc where o: "t \<noteq> u" "e = SvStep t" "f = SvStep u" "sv_req s t = Some pc"
    "sv_req s u = Some qc" "at_thread_object pc" "at_thread_object qc"
    by (auto simp: race_def touched_shared req_accesses_shared)
  then have "(runner_free s \<longrightarrow> (\<exists>tmo jid. pc = QLaunch tmo jid)) \<or> (runner_free s \<longrightarrow> (\<exists>tmo jid. qc = QLaunch tmo jid))"
    using r by (auto simp: race_def written_shared req_accesses_shared runner_free_def)
  then show "object_race s" unfolding object_race_def using o by metis
next
  assume "object_race s"
  then obtain t u pc qc where o: "t \<noteq> u" "sv_req s t = Some pc" "sv_req s u = Some qc" "at_thread_object pc"
    "at_thread_object qc" "runner_free s \<longrightarrow> (\<exists>tmo jid. pc = QLaunch tmo jid)" unfolding object_race_def by blast
  then have "race thr s (SvStep t) (SvStep u) LObject"
    by (auto simp: race_def ordered_def touched_shared written_shared req_accesses_shared runner_free_def)
  then show "racy thr s LObject" unfolding racy_def by blast
qed

lemma exclusive_no_object_race: "exclusive s \<Longrightarrow> \<not> object_race s"
proof -
  have "in_runner pc" if "at_thread_object pc" for pc using that by (cases pc) auto
  then show "exclusive s \<Longrightarrow> \<not> object_race s" unfolding exclusive_def object_race_def by blast
qed


text \<open>Clients that send one request at a time leave only the state.\<close>

lemma sequential_races:
  assumes "seq_steps (new_server port) es s" and "racy no_throw s l"
  shows "l = LState \<and> state_race no_throw s"
proof -
  have "sv_steps no_throw exclusive (new_server port) es s" using seq_steps_ok [OF assms(1)] by simp
  then have "exclusive s" by (auto elim: sv_steps.cases)
  then show ?thesis using assms(2) exclusive_no_object_race race_locs racy_state racy_object
    unfolding racy_def by metis
qed

text \<open>
  A client that starts a scan and asks for the status while the job comes to its end.
\<close>

definition poll_events :: "sv_event list" where
  "poll_events = seq_events @ replicate 4 (SvJob (quiet_in 100000000)) @
     [SvWorker, SvArrive 3 QStatus]"

definition poll_state :: "server" where
  "poll_state = (case seq_run [0, 1, 2, 3] poll_events (new_server ''/dev/ttyS1'') of Some s \<Rightarrow> s
     | None \<Rightarrow> new_server [])"

lemma poll_run: "seq_run [0, 1, 2, 3] poll_events (new_server ''/dev/ttyS1'') \<noteq> None"
  by code_simp

lemma poll_reached: "seq_steps (new_server ''/dev/ttyS1'') poll_events poll_state"
  using poll_run by (intro seq_run_steps [of "[0, 1, 2, 3]"]) (auto simp: poll_state_def new_server_def)

text \<open>The handler of \<^verbatim>\<open>/status\<close> and the worker, in either order.\<close>

lemma status_poll_races:
  "\<exists>es s s1 s2. seq_steps (new_server ''/dev/ttyS1'') es s \<and> race no_throw s SvWorker (SvStep 3) LState \<and>
     sv_run no_throw [SvStep 3, SvWorker] s = Some s1 \<and> sv_run no_throw [SvWorker, SvStep 3] s = Some s2 \<and>
     sv_gw s1 = sv_gw s2 \<and>
     sv_req s1 3 = Some (QDone (json_response 200 (WObj [(''ok'', WBool True), (''state'', WStr ''RUNNING'')]))) \<and>
     sv_req s2 3 = Some (QDone (json_response 200 (WObj [(''ok'', WBool True), (''state'', WStr ''INIT'')])))"
proof -
  let ?g = "(sv_gw poll_state)\<lparr>gw_disp := worker_step no_throw (gw_disp (sv_gw poll_state))\<rparr>"
  let ?a = "sv_run no_throw [SvStep 3, SvWorker] poll_state" and ?b = "sv_run no_throw [SvWorker, SvStep 3] poll_state"
  let ?r = "\<lambda>st. json_response 200 (WObj [(''ok'', WBool True), (''state'', WStr st)])"
  have r: "race no_throw poll_state SvWorker (SvStep 3) LState" by code_simp
  have q: "sv_req poll_state 3 = Some QStatus" by code_simp
  have "handle_status (sv_gw poll_state) = ?r ''RUNNING''" "handle_status ?g = ?r ''INIT''" by code_simp+
  moreover have a: "?a = Some \<lparr>sv_gw = ?g, sv_req = (sv_req poll_state)(3 \<mapsto> QDone (handle_status (sv_gw poll_state)))\<rparr>"
    and b: "?b = Some \<lparr>sv_gw = ?g, sv_req = (sv_req poll_state)(3 \<mapsto> QDone (handle_status ?g))\<rparr>" using q by simp_all
  ultimately show ?thesis using poll_reached r
    by (intro exI [of _ poll_events] exI [of _ poll_state] exI [of _ "the ?a"] exI [of _ "the ?b"] conjI)
      (simp_all only: a b, simp_all)
qed

section \<open>Properties\<close>



text \<open>
  C6: the data races of the process, and no others. In no state of the server do two threads stand before
  conflicting accesses to a location without synchronisation, except these: the worker is about to
  assign the state of the core while a request thread is about to read it for its answer
  (\<^verbatim>\<open>/status\<close>, \<^verbatim>\<open>/result\<close> or the end of \<^verbatim>\<open>/start\<close>); or two request threads are about to access the thread
  object of the job runner, at least one of them to change it. The first race is real and needs no
  overlapping commands: a single client that starts a scan and then polls \<^verbatim>\<open>/status\<close> reaches a state in
  which the worker, running the FINISH task of the job thread, is about to assign the state and the
  handler is about to read it, and the answer depends on which of them is first. The comment in
  \<^verbatim>\<open>Dispatcher.hpp\<close> says that the core is accessed only by the worker thread.
\<close>

theorem data_race_report:
  "(\<forall>thr s l. racy thr s l \<longleftrightarrow> l = LState \<and> state_race thr s \<or> l = LObject \<and> object_race s) \<and>
   (\<exists>es s s1 s2. seq_steps (new_server ''/dev/ttyS1'') es s \<and> race no_throw s SvWorker (SvStep 3) LState \<and>
     sv_run no_throw [SvStep 3, SvWorker] s = Some s1 \<and> sv_run no_throw [SvWorker, SvStep 3] s = Some s2 \<and>
     sv_gw s1 = sv_gw s2 \<and>
     sv_req s1 3 = Some (QDone (json_response 200 (WObj [(''ok'', WBool True), (''state'', WStr ''RUNNING'')]))) \<and>
     sv_req s2 3 = Some (QDone (json_response 200 (WObj [(''ok'', WBool True), (''state'', WStr ''INIT'')]))))"
proof (intro conjI allI)
  show "racy thr s l \<longleftrightarrow> l = LState \<and> state_race thr s \<or> l = LObject \<and> object_race s" for thr s l
    using racy_state racy_object race_locs unfolding racy_def by metis
qed (rule status_poll_races)

end
