(* ===== verification/Response_Schema.thy ===== *)
theory Response_Schema
  imports Request_Threads
begin

text \<open>
  The response schemas of \<^verbatim>\<open>docs/openapi.yaml\<close> as types of JSON values, and type soundness of the
  request threads: a program point carries only values from which the documented response of its
  route can be built, every step keeps that, and so every finished request answers with a body of
  its schema.
\<close>

section \<open>Schemas\<close>

datatype schema = SBool | SString | SEnum "string list" | SObject "(string \<times> schema) list"

text \<open>An object must have the listed members; others are allowed.\<close>

fun has_schema :: "schema \<Rightarrow> wvalue \<Rightarrow> bool" where
  "has_schema SBool w = (case w of WBool b \<Rightarrow> True | _ \<Rightarrow> False)"
| "has_schema SString w = (case w of WStr s \<Rightarrow> True | _ \<Rightarrow> False)"
| "has_schema (SEnum xs) w = (case w of WStr s \<Rightarrow> s \<in> set xs | _ \<Rightarrow> False)"
| "has_schema (SObject ms) w =
     ((case w of WObj kvs \<Rightarrow> True | _ \<Rightarrow> False) \<and> list_all (\<lambda>(k, sc). has_schema sc (wget k w)) ms)"

definition state_schema :: schema where
  "state_schema = SEnum [''NOT_INIT'', ''INIT'', ''RUNNING'', ''STOPPED'']"

definition HealthResponse :: schema where
  "HealthResponse = SObject [(''ok'', SBool), (''message'', SString)]"

definition ErrorResponse :: schema where
  "ErrorResponse = SObject [(''ok'', SBool), (''message'', SString)]"

definition StatusResponse :: schema where
  "StatusResponse = SObject [(''ok'', SBool), (''state'', state_schema)]"

definition CommandResponse :: schema where
  "CommandResponse = SObject [(''ok'', SBool), (''command'', SString), (''state'', state_schema),
     (''message'', SString), (''data'', SObject [])]"

definition StartResponse :: schema where
  "StartResponse = SObject [(''ok'', SBool), (''jobId'', SString), (''state'', state_schema),
     (''message'', SEnum [''ACCEPTED''])]"

definition ResultResponse :: schema where
  "ResultResponse = SObject [(''ok'', SBool), (''jobId'', SString),
     (''status'', SEnum [''PENDING'', ''DONE'', ''TIMEOUT'', ''CANCELLED'']), (''state'', state_schema),
     (''message'', SString), (''data'', SObject [])]"

definition StopResponse :: schema where
  "StopResponse = SObject [(''ok'', SBool), (''state'', state_schema), (''message'', SEnum [''OK''])]"

text \<open>The schema of a response by route and status code.\<close>

fun schema_of :: "http_request \<Rightarrow> int \<Rightarrow> schema" where
  "schema_of GetHealth code = HealthResponse"
| "schema_of GetStatus code = StatusResponse"
| "schema_of (PostCommand b) code = (if code = 200 then CommandResponse else ErrorResponse)"
| "schema_of (PostStart b) code = (if code = 202 then StartResponse else ErrorResponse)"
| "schema_of (GetResult jid) code = (if code = 200 then ResultResponse else ErrorResponse)"
| "schema_of PostStop code = (if code = 200 then StopResponse else ErrorResponse)"

text \<open>The status codes the document lists for a route, and the two it leaves out.\<close>

fun documented_codes :: "http_request \<Rightarrow> int list" where
  "documented_codes GetHealth = [200]"
| "documented_codes GetStatus = [200]"
| "documented_codes (PostCommand b) = [200, 400, 503]"
| "documented_codes (PostStart b) = [202, 400, 409, 503]"
| "documented_codes (GetResult jid) = [200, 404]"
| "documented_codes PostStop = [200, 503]"

fun other_codes :: "http_request \<Rightarrow> int list" where
  "other_codes (PostCommand b) = [409, 500]"
| "other_codes (PostStart b) = [500]"
| "other_codes PostStop = [500]"
| "other_codes _ = []"

definition conforms :: "http_request \<Rightarrow> http_response \<Rightarrow> bool" where
  "conforms req resp \<longleftrightarrow> has_schema (schema_of req (hr_code resp)) (hr_body resp) \<and>
     hr_code resp \<in> set (documented_codes req @ other_codes req) \<and>
     hr_content_type resp = ''application/json''"

lemmas schema_defs = state_schema_def HealthResponse_def ErrorResponse_def StatusResponse_def
  CommandResponse_def StartResponse_def ResultResponse_def StopResponse_def

lemma wset_is_object [simp]: "(case wset k v w of WObj kvs \<Rightarrow> True | _ \<Rightarrow> False)"
  by (cases w) (simp_all add: wset_def)

lemma has_state_schema [simp]: "has_schema state_schema (WStr (to_string st))"
  by (cases st) (simp_all add: state_schema_def to_string_def)

lemma content_type_simp [simp]: "hr_content_type (json_response c out) = ''application/json''"
  by (simp add: json_response_def)

lemma error_conforms:
  assumes "c \<in> set (documented_codes req @ other_codes req)" and "c \<noteq> 200" and "c \<noteq> 202"
  shows "conforms req (error_response c m)"
  using assms by (cases req) (auto simp: conforms_def error_response_def ErrorResponse_def)

section \<open>Which call a future belongs to\<close>

definition reply_to :: "core_op \<Rightarrow> Response \<Rightarrow> bool" where
  "reply_to x r \<longleftrightarrow> (\<exists>b c. r = fst (guarded_exec b x c))"

definition call_of :: "core_op \<Rightarrow> nat \<Rightarrow> Dispatcher \<Rightarrow> bool" where
  "call_of x fut d \<longleftrightarrow> fut < d_next d \<and>
     (\<forall>t \<in> set (d_q d). task_prom t = fut \<longrightarrow> t = task_of fut x) \<and>
     (case d_worker d of
        GotTask t \<Rightarrow> task_prom t = fut \<longrightarrow> t = task_of fut x
      | Ran t r \<Rightarrow> task_prom t = fut \<longrightarrow> reply_to x r
      | _ \<Rightarrow> True) \<and>
     (\<forall>r. d_proms d fut = Some r \<longrightarrow> reply_to x r)"

text \<open>Promises are numbered in the order of submission.\<close>

definition proms_ok :: "Dispatcher \<Rightarrow> bool" where
  "proms_ok d \<longleftrightarrow> (\<forall>t \<in> set (d_q d). task_prom t < d_next d) \<and>
     (case d_worker d of GotTask t \<Rightarrow> task_prom t < d_next d | Ran t r \<Rightarrow> task_prom t < d_next d | _ \<Rightarrow> True) \<and>
     (\<forall>f r. d_proms d f = Some r \<longrightarrow> f < d_next d)"

lemma proms_ok_new: "proms_ok (new_Dispatcher c)"
  by (simp add: proms_ok_def new_Dispatcher_def)

lemma proms_ok_submit: "proms_ok d \<Longrightarrow> proms_ok (snd (submit x d))"
  by (auto simp: proms_ok_def submit_eq less_Suc_eq split: worker_pc.splits)

lemma proms_ok_worker: "proms_ok d \<Longrightarrow> proms_ok (worker_step thr d)"
  by (auto simp: proms_ok_def worker_step_def Let_def split_def split: worker_pc.splits list.splits if_splits)

lemma call_of_submit_new: "proms_ok d \<Longrightarrow> call_of x (d_next d) (snd (submit x d))"
  by (fastforce simp: call_of_def proms_ok_def submit_eq split: worker_pc.splits)

lemma call_of_submit: "call_of x fut d \<Longrightarrow> call_of x fut (snd (submit y d))"
  by (auto simp: call_of_def submit_eq split: worker_pc.splits)

lemma call_of_worker:
  assumes "call_of x fut d"
  shows "call_of x fut (worker_step thr d)"
proof (cases "d_worker d")
  case Waiting
  then show ?thesis using assms by (auto simp: call_of_def worker_step_def split: list.splits)
next
  case (GotTask t)
  have "reply_to x (fst (run_task (thr fut) (task_of fut x) (d_core d)))"
    by (auto simp: reply_to_def)
  then have "reply_to x (fst (run_task (thr fut) t (d_core d)))" if "task_prom t = fut"
    using assms GotTask that by (simp add: call_of_def)
  then show ?thesis using assms GotTask by (auto simp: call_of_def worker_step_def split_def Let_def)
next
  case (Ran t r)
  then show ?thesis using assms by (auto simp: call_of_def worker_step_def)
next
  case Exited
  then show ?thesis using assms by (simp add: worker_step_def)
qed

text \<open>The replies to the three operations the handlers submit.\<close>

lemma sync_reply: "reply_to (OpSync cmd) r \<Longrightarrow> http_status r \<in> {200, 400, 409, 500}"
  by (auto simp: reply_to_def guarded_exec_def handle_sync_command_def core_stop_def new_Response_def Let_def split: if_splits)

lemma start_reply: "reply_to (OpStart tmo) r \<Longrightarrow> \<not> resp_ok r \<Longrightarrow> http_status r \<in> {409, 500}"
  by (auto simp: reply_to_def guarded_exec_def start_job_def new_Response_def Let_def split: if_splits)

lemma stop_reply:
  "reply_to OpStop r \<Longrightarrow> http_status r = 200 \<and> resp_message r = ''OK'' \<or> http_status r = 500"
  by (auto simp: reply_to_def guarded_exec_def core_stop_def new_Response_def split: if_splits)

section \<open>Typing of the program points\<close>

fun cont_of :: "http_request \<Rightarrow> req_cont \<Rightarrow> bool" where
  "cont_of (PostCommand b) (KCommand cmd) = True"
| "cont_of (PostStart b) (KStart tmo jid) = True"
| "cont_of PostStop KStop = True"
| "cont_of _ _ = False"

fun pc_typed :: "http_request \<Rightarrow> Dispatcher \<Rightarrow> req_pc \<Rightarrow> bool" where
  "pc_typed req d (QBaud cmd baud) = (\<exists>b. req = PostCommand b)"
| "pc_typed req d (QClear k) = cont_of req k"
| "pc_typed req d (QJoin k) = cont_of req k"
| "pc_typed req d (QSubmit k) = cont_of req k"
| "pc_typed req d (QWait k fut) = (cont_of req k \<and> call_of (cont_op k) fut d)"
| "pc_typed req d (QCreate tmo jid) = (\<exists>b. req = PostStart b)"
| "pc_typed req d (QFlag tmo jid) = (\<exists>b. req = PostStart b)"
| "pc_typed req d (QLaunch tmo jid) = (\<exists>b. req = PostStart b)"
| "pc_typed req d (QStarted jid) = (\<exists>b. req = PostStart b)"
| "pc_typed req d QStatus = (req = GetStatus)"
| "pc_typed req d (QExists jid) = (req = GetResult jid)"
| "pc_typed req d (QGet jid) = (req = GetResult jid)"
| "pc_typed req d (QGot jid res) = (req = GetResult jid)"
| "pc_typed req d (QDone resp) = conforms req resp"

lemma entry_typed: "pc_typed req d (req_entry srv cj ub rd req)"
proof (cases req)
  case (PostCommand b)
  then show ?thesis using parse_command_error [of cj ub b] error_conforms [of 400 req]
    by (auto simp: bad_request_def split: sum.splits)
next
  case (PostStart b)
  then show ?thesis using error_conforms [of 400 req]
    by (auto simp: parse_json_object_def bad_request_def split: sum.splits option.splits)
qed (simp_all add: conforms_def handle_health_def HealthResponse_def)

text \<open>What a thread knows of the dispatcher survives the steps of the others.\<close>

lemma pc_typed_mono:
  "(\<And>x fut. call_of x fut d \<Longrightarrow> call_of x fut d') \<Longrightarrow> pc_typed req d pc \<Longrightarrow> pc_typed req d' pc"
  by (cases pc) auto

lemma command_conforms: "reply_to (OpSync cmd) r \<Longrightarrow> conforms (PostCommand b) (command_response r)"
  using sync_reply by (fastforce simp: conforms_def command_response_def ensure_data_object_def Let_def CommandResponse_def
      ErrorResponse_def split: option.split)

lemma stop_conforms: "reply_to OpStop r \<Longrightarrow> conforms PostStop (stop_response r)"
  using stop_reply [of r] by (auto simp: conforms_def StopResponse_def ErrorResponse_def)

lemma start_conforms: "conforms (PostStart b) (start_response jid st)"
  by (simp add: conforms_def StartResponse_def)

lemma status_conforms: "conforms GetStatus (handle_status g)"
  by (simp add: conforms_def handle_status_def StatusResponse_def)

lemma result_conforms: "conforms (GetResult jid) (result_response jid res st)"
  by (cases "jr_status res") (auto simp: conforms_def ResultResponse_def ensure_data_object_def Let_def
      job_status_to_string_def split: option.split)

lemma after_wait_typed:
  assumes "cont_of req k" and "reply_to (cont_op k) r"
  shows "pc_typed req d (after_wait k r)"
proof (cases k)
  case (KStart tmo jid)
  then obtain b where "req = PostStart b" using assms(1) by (cases req) auto
  then show ?thesis using KStart start_reply [of tmo r] assms(2) error_conforms [of "http_status r" req]
    by auto
next
  case (KCommand cmd)
  then show ?thesis using assms command_conforms by (cases req) auto
next
  case KStop
  then show ?thesis using assms stop_conforms by (cases req) auto
qed

text \<open>Preservation.\<close>

lemma req_step_typed:
  assumes "req_step g pc = Moves g' pc'" and "pc_typed req (gw_disp g) pc" and "proms_ok (gw_disp g)"
  shows "pc_typed req (gw_disp g') pc'"
proof (cases pc)
  case (QWait k fut)
  then obtain r where r: "d_proms (gw_disp g) fut = Some r" "g' = g" "pc' = after_wait k r"
    using assms(1) by (auto split: option.splits)
  then have "reply_to (cont_op k) r" using assms(2) QWait by (auto simp: call_of_def)
  then show ?thesis using assms(2) QWait r after_wait_typed by simp
next
  case (QSubmit k)
  then show ?thesis using assms call_of_submit_new [OF assms(3), of "cont_op k"]
    by (auto simp: submit_eq)
next
  case (QJoin k)
  then show ?thesis using assms(1,2) by (cases k; cases req) (auto split: option.splits)
next
  case (QBaud cmd baud)
  then show ?thesis using assms(1,2) by auto
qed (use assms(1,2) start_conforms status_conforms result_conforms error_conforms [of 404 req] in
    \<open>auto split: option.splits sum.splits if_splits\<close>)

lemma runner_step_disp:
  assumes "runner_step i g = Inr g'"
  shows "gw_disp g' = gw_disp g \<or> gw_disp g' = snd (submit OpFinish (gw_disp g))"
proof (cases "r_worker (gw_jobs g)")
  case None
  then show ?thesis using assms by (simp add: runner_step_def)
next
  case (Some th)
  let ?r = "r_running (gw_jobs g)" and ?b = "r_baudrate (gw_jobs g)"
  let ?g = "g\<lparr>gw_jobs := (gw_jobs g)\<lparr>r_worker := Some (snd (job_step ?r ?b i th))\<rparr>\<rparr>"
  have e: "apply_acts (jt_id th) (fst (job_step ?r ?b i th)) ?g = Inr g'"
    using assms Some by (simp add: runner_step_def split_def Let_def)
  show ?thesis
  proof (cases rule: job_step_kinds [where th = th and r = ?r and b = ?b and i = i])
    case io
    then have "g' = ?g" using e by (simp add: apply_acts_io)
    then show ?thesis by simp
  next
    case (report v)
    then show ?thesis using e by (cases v) (auto simp: upd_store_def split: sum.splits)
  qed (use e in auto)
qed

text \<open>Every thread of the server is typed by the request it arrived with.\<close>

definition server_typed :: "(nat \<Rightarrow> http_request) \<Rightarrow> server \<Rightarrow> bool" where
  "server_typed R s \<longleftrightarrow> proms_ok (gw_disp (sv_gw s)) \<and>
     (\<forall>t pc. sv_req s t = Some pc \<longrightarrow> pc_typed (R t) (gw_disp (sv_gw s)) pc)"

definition arrives_as :: "(nat \<Rightarrow> http_request) \<Rightarrow> sv_event \<Rightarrow> bool" where
  "arrives_as R e \<longleftrightarrow> (\<forall>t pc. e = SvArrive t pc \<longrightarrow> (\<exists>srv cj ub rd. pc = req_entry srv (cj :: json crow_json) ub rd (R t)))"

lemma server_typed_gw:
  assumes "server_typed R s" and "proms_ok (gw_disp g)"
    and "\<And>x fut. call_of x fut (gw_disp (sv_gw s)) \<Longrightarrow> call_of x fut (gw_disp g)"
  shows "server_typed R (s\<lparr>sv_gw := g\<rparr>)"
  using assms(1,2) pc_typed_mono [OF assms(3)] unfolding server_typed_def by simp

lemma server_typed_req:
  assumes "server_typed R s" and "pc_typed (R t) (gw_disp (sv_gw s)) pc"
  shows "server_typed R (s\<lparr>sv_req := (sv_req s)(t \<mapsto> pc)\<rparr>)"
  using assms unfolding server_typed_def by simp

text \<open>A request thread touches the dispatcher only to submit.\<close>

lemma req_step_disp:
  assumes "req_step g pc = Moves g' pc'"
  shows "gw_disp g' = gw_disp g \<or> (\<exists>x. gw_disp g' = snd (submit x (gw_disp g)))"
  using assms
  by (cases pc) (auto simp: clear_running_def join_def split_def Let_def split: if_splits option.splits sum.splits)

lemma disp_kept:
  assumes "gw_disp g' = gw_disp g \<or> (\<exists>x. gw_disp g' = snd (submit x (gw_disp g)))"
  shows "proms_ok (gw_disp g) \<Longrightarrow> proms_ok (gw_disp g')"
    and "call_of y fut (gw_disp g) \<Longrightarrow> call_of y fut (gw_disp g')"
  using assms proms_ok_submit call_of_submit by auto

lemma timeout_typed:
  assumes "req_timeout g pc = Some pc'" and "pc_typed req d pc"
  shows "pc_typed req d pc'"
proof -
  obtain k fut where "pc = QWait k fut" "pc' = QDone (error_response 503 ''ERR:BUSY'')"
    using assms(1) by (cases "(g, pc)" rule: req_timeout.cases) (auto split: if_splits)
  moreover have "503 \<in> set (documented_codes req)" using assms(2) calculation(1) by (cases req; cases k) auto
  ultimately show ?thesis using error_conforms by simp
qed

lemma sv_step_typed:
  assumes "sv_step thr s e s'" and "server_typed R s" and "arrives_as R e"
  shows "server_typed R s'"
  using assms
proof (cases rule: sv_step.cases)
  case (Arrive t pc)
  then have "pc_typed (R t) (gw_disp (sv_gw s)) pc" using assms(3) entry_typed by (auto simp: arrives_as_def)
  then show ?thesis using server_typed_req [OF assms(2)] Arrive by simp
next
  case (Step t pc g pc')
  note k = disp_kept [OF req_step_disp [OF Step(4)]]
  have ok: "proms_ok (gw_disp (sv_gw s))" and ty: "pc_typed (R t) (gw_disp (sv_gw s)) pc"
    using assms(2) Step(3) by (auto simp: server_typed_def)
  have "server_typed R (s\<lparr>sv_gw := g\<rparr>)" using server_typed_gw [OF assms(2)] k ok by blast
  then have "server_typed R (s\<lparr>sv_gw := g, sv_req := (sv_req s)(t \<mapsto> pc')\<rparr>)"
    using server_typed_req [of R "s\<lparr>sv_gw := g\<rparr>" t pc'] req_step_typed [OF Step(4) ty ok] by simp
  then show ?thesis using Step by (simp add: server_typed_def)
next
  case (Timeout t pc pc')
  then have "pc_typed (R t) (gw_disp (sv_gw s)) pc" using assms(2) by (simp add: server_typed_def)
  then show ?thesis using server_typed_req [OF assms(2)] timeout_typed [OF Timeout(4)] Timeout by simp
next
  case Worker
  have "proms_ok (gw_disp (sv_gw s))" using assms(2) by (simp add: server_typed_def)
  then show ?thesis unfolding Worker(2)
    by (intro server_typed_gw [OF assms(2)]) (simp_all add: proms_ok_worker call_of_worker)
next
  case (Job i g)
  note k = disp_kept [of g "sv_gw s"]
  have "gw_disp g = gw_disp (sv_gw s) \<or> (\<exists>x. gw_disp g = snd (submit x (gw_disp (sv_gw s))))"
    using runner_step_disp [OF Job(3)] by blast
  then show ?thesis using server_typed_gw [OF assms(2)] k assms(2) Job by (simp add: server_typed_def)
qed

lemma sv_steps_typed:
  assumes "sv_steps thr P s es s'" and "server_typed R s" and "list_all (arrives_as R) es"
  shows "server_typed R s'"
  using assms by (induction rule: sv_steps.induct) (auto intro: sv_step_typed)

lemma new_server_typed: "server_typed R (new_server port)"
  by (simp add: server_typed_def new_server_def new_Gateway_def proms_ok_new)

lemma init_arrives: "arrives_as (\<lambda>_. PostCommand ''x'') (SvArrive t (QBaud ''INIT'' 9600))"
  by (auto simp: arrives_as_def init_doc_parsed intro!: exI [of _ "tree_json init_doc"] exI [of _ "\<lambda>_. 0"])

section \<open>Properties\<close>

text \<open>
  C19: type soundness of the HTTP interface. Whatever requests come in, however their threads, the
  worker and the job thread interleave, and whichever tasks throw: a request that has been answered
  got a JSON body of the schema which \<^verbatim>\<open>docs/openapi.yaml\<close> gives for its route and status code, and a
  status code which is listed there for the route or is one of the two it leaves out (500 for a
  task that throws, 409 for an INIT refused while a job is running).
\<close>

theorem responses_match_schema:
  assumes "sv_steps thr P (new_server port) es s" and "list_all (arrives_as R) es"
    and "sv_req s t = Some (QDone resp)"
  shows "conforms (R t) resp"
proof -
  have "server_typed R s" using sv_steps_typed [OF assms(1) new_server_typed assms(2)] .
  then have "pc_typed (R t) (gw_disp (sv_gw s)) (QDone resp)" using assms(3) unfolding server_typed_def by blast
  then show ?thesis by simp
qed

theorem responses_match_schema_witness:
  "\<exists>s resp. sv_steps no_throw (\<lambda>_. True) (new_server ''/dev/ttyS1'')
       [SvArrive 0 (QBaud ''INIT'' 9600), SvStep 0, SvStep 0, SvWorker, SvWorker, SvWorker, SvStep 0] s \<and>
     sv_req s 0 = Some (QDone resp) \<and> hr_code resp = 200 \<and> conforms (PostCommand ''x'') resp"
proof -
  let ?es = "[SvArrive 0 (QBaud ''INIT'' 9600), SvStep 0, SvStep 0, SvWorker, SvWorker, SvWorker, SvStep 0]"
  let ?done = "\<lambda>s. case sv_req s 0 of Some (QDone resp) \<Rightarrow> hr_code resp = 200 | _ \<Rightarrow> False"
  have "case sv_run no_throw ?es (new_server ''/dev/ttyS1'') of None \<Rightarrow> False | Some s \<Rightarrow> ?done s"
    by code_simp
  then obtain s where run: "sv_run no_throw ?es (new_server ''/dev/ttyS1'') = Some s" and d: "?done s"
    by (cases "sv_run no_throw ?es (new_server ''/dev/ttyS1'')") (simp_all only: option.case)
  obtain resp where r: "sv_req s 0 = Some (QDone resp)" "hr_code resp = 200"
    using d by (cases "sv_req s 0"; cases "the (sv_req s 0)") simp_all
  have "list_all (arrives_as (\<lambda>_. PostCommand ''x'')) ?es"
    using init_arrives by (simp add: arrives_as_def)
  from responses_match_schema [OF sv_run_steps [OF run] this r(1)] show ?thesis
    using sv_run_steps [OF run] r by blast
qed

end
