(* ===== verification/Main_Config.thy ===== *)
theory Main_Config
  imports Rest_Server
begin

text \<open>
  \<^verbatim>\<open>main.cpp\<close>: the options of the command line, the configuration, the objects it builds and the order
  in which they go away. The parser of the command line library is a parameter with its documented
  behaviour as a hypothesis.
\<close>

section \<open>Configuration\<close>

record Config =
  cfg_host :: string
  cfg_port :: "16 word"
  cfg_timeout_ms :: "32 word"
  cfg_verbose :: bool
  cfg_log_level :: string
  cfg_log_file :: string

text \<open>The defaults the options register.\<close>

definition default_Config :: Config where
  "default_Config = \<lparr>cfg_host = ''0.0.0.0'', cfg_port = 8080, cfg_timeout_ms = 3000, cfg_verbose = False,
     cfg_log_level = ''info'', cfg_log_file = []\<rparr>"

datatype level_enum = level_debug | level_info | level_warn | level_err

definition parse_log_level :: "string \<Rightarrow> bool \<Rightarrow> level_enum" where
  "parse_log_level s verbose_fallback =
     (if s = ''debug'' then level_debug
      else if s = ''info'' then level_info
      else if s = ''warn'' then level_warn
      else if s = ''error'' then level_err
      else if verbose_fallback then level_debug else level_info)"

definition log_level :: "Config \<Rightarrow> level_enum" where
  "log_level cfg = parse_log_level (cfg_log_level cfg) (cfg_verbose cfg)"

text \<open>What \<^verbatim>\<open>init_logging\<close> asks of spdlog: the sinks, the rotating one with its size and count, and the global settings.\<close>

datatype sink = stdout_color_sink | rotating_file_sink string nat nat

record logger =
  lg_name :: string
  lg_sinks :: "sink list"
  lg_pattern :: string
  lg_level :: level_enum
  lg_flush_on :: level_enum

definition init_logging :: "Config \<Rightarrow> logger" where
  "init_logging cfg =
     \<lparr>lg_name = ''qr_c'',
      lg_sinks = stdout_color_sink #
        (if cfg_log_file cfg \<noteq> [] then [rotating_file_sink (cfg_log_file cfg) (5 * 1024 * 1024) 3] else []),
      lg_pattern = ''%Y-%m-%d %H:%M:%S.%e [%^%l%$] [t%t] %v'',
      lg_level = log_level cfg, lg_flush_on = level_info\<rparr>"

text \<open>The console is always a sink, and a file is one exactly when its path is configured.\<close>

lemma init_logging_sinks:
  "stdout_color_sink \<in> set (lg_sinks (init_logging cfg))"
  "(\<exists>n k. rotating_file_sink f n k \<in> set (lg_sinks (init_logging cfg))) \<longleftrightarrow> f = cfg_log_file cfg \<and> f \<noteq> []"
  by (auto simp: init_logging_def)

definition getenv_str :: "(string \<rightharpoonup> string) \<Rightarrow> string \<Rightarrow> string \<Rightarrow> string" where
  "getenv_str env key defv =
     (case env key of None \<Rightarrow> defv | Some v \<Rightarrow> if v \<noteq> [] then v else defv)"

section \<open>Construction and shutdown\<close>

definition main_gateway :: "(string \<rightharpoonup> string) \<Rightarrow> Gateway" where
  "main_gateway env = new_Gateway (getenv_str env ''SERIAL_PORT'' ''/tmp/ttyS1'')"

definition main_server :: "Config \<Rightarrow> RestServer" where
  "main_server cfg =
     new_RestServer (cfg_host cfg) (uint (cfg_port cfg)) (int32_cast (uint (cfg_timeout_ms cfg)))"

text \<open>
  When \<^verbatim>\<open>server.run()\<close> returns, the objects are destroyed in the reverse order of their
  construction: the runner's destructor stops the job, the dispatcher's stops and joins the
  worker, which takes \<open>n\<close> steps in that time.
\<close>

definition main_shutdown :: "(nat \<Rightarrow> bool) \<Rightarrow> bg list \<Rightarrow> nat \<Rightarrow> Gateway \<Rightarrow> blocked + Gateway" where
  "main_shutdown thr s n g =
     (case runner_stop thr s g of
        Inl e \<Rightarrow> Inl e
      | Inr g1 \<Rightarrow>
          (let d = (worker_step thr ^^ n) (dispatcher_stop (gw_disp g1))
           in if d_stopping (gw_disp g1) \<or> join_ready d then Inr (g1\<lparr>gw_disp := d\<rparr>) else Inl Waits))"

section \<open>The command line\<close>

text \<open>
  The options \<^verbatim>\<open>main\<close> registers: the names, the field they write, the variable of the environment, the
  check and the default.
\<close>

datatype cli_value = CText string | CNum int | CFlag bool

datatype cli_target = TText | TUnsigned nat | TFlag

datatype cli_check = Unchecked | Range int int | NonNegativeNumber

record cli_option =
  opt_names :: "string list"
  opt_target :: cli_target
  opt_envname :: "string option"
  opt_check :: cli_check
  opt_default :: cli_value

definition add_option ::
  "string list \<Rightarrow> cli_target \<Rightarrow> string \<Rightarrow> cli_check \<Rightarrow> cli_value \<Rightarrow> cli_option" where
  "add_option names tgt envname chk defv =
     \<lparr>opt_names = names, opt_target = tgt, opt_envname = Some envname, opt_check = chk, opt_default = defv\<rparr>"

definition add_flag :: "string list \<Rightarrow> cli_option" where
  "add_flag names =
     \<lparr>opt_names = names, opt_target = TFlag, opt_envname = None, opt_check = Unchecked, opt_default = CFlag False\<rparr>"

definition cli_options :: "cli_option list" where
  "cli_options =
     [add_option [''--host''] TText ''REST_BIND'' Unchecked (CText ''0.0.0.0''),
      add_option [''-p'', ''--port''] (TUnsigned 16) ''REST_PORT'' (Range 1 65535) (CNum 8080),
      add_option [''--timeout-ms''] (TUnsigned 32) ''READ_TIMEOUT_MS'' NonNegativeNumber (CNum 3000),
      add_flag [''-v'', ''--verbose''],
      add_option [''--log-level''] TText ''LOG_LEVEL'' Unchecked (CText ''info''),
      add_option [''--log-file''] TText ''LOG_FILE'' Unchecked (CText [])]"

text \<open>
  The parser of CLI11 is a parameter: it takes the options, the arguments and the environment and
  gives the exit code with which \<^verbatim>\<open>CLI11_PARSE\<close> leaves \<^verbatim>\<open>main\<close>, or a value for every option by its last
  name. What the library documents of it: a value fits the field it is written to and passes
  the check, and without arguments an option whose variable is not set has its default.
\<close>

type_synonym cli_parser = "cli_option list \<Rightarrow> string list \<Rightarrow> (string \<rightharpoonup> string) \<Rightarrow> int + (string \<Rightarrow> cli_value)"

fun fits :: "cli_target \<Rightarrow> cli_value \<Rightarrow> bool" where
  "fits TText (CText s) \<longleftrightarrow> True"
| "fits (TUnsigned w) (CNum n) \<longleftrightarrow> 0 \<le> n \<and> n < 2 ^ w"
| "fits TFlag (CFlag b) \<longleftrightarrow> True"
| "fits _ _ \<longleftrightarrow> False"

fun passes :: "cli_check \<Rightarrow> cli_value \<Rightarrow> bool" where
  "passes (Range lo hi) (CNum n) \<longleftrightarrow> lo \<le> n \<and> n \<le> hi"
| "passes NonNegativeNumber (CNum n) \<longleftrightarrow> 0 \<le> n"
| "passes _ _ \<longleftrightarrow> True"

definition cli_documented :: "cli_parser \<Rightarrow> bool" where
  "cli_documented parse \<longleftrightarrow> (\<forall>opts argv env vs. parse opts argv env = Inr vs \<longrightarrow>
     (\<forall>opt \<in> set opts. fits (opt_target opt) (vs (last (opt_names opt))) \<and>
        passes (opt_check opt) (vs (last (opt_names opt))) \<and>
        (argv = [] \<and> (\<forall>v. opt_envname opt = Some v \<longrightarrow> env v = None) \<longrightarrow>
           vs (last (opt_names opt)) = opt_default opt)))"

fun as_text :: "cli_value \<Rightarrow> string" where
  "as_text (CText s) = s" | "as_text _ = []"

fun as_num :: "cli_value \<Rightarrow> int" where
  "as_num (CNum n) = n" | "as_num _ = 0"

fun as_flag :: "cli_value \<Rightarrow> bool" where
  "as_flag (CFlag b) = b" | "as_flag _ = False"

definition read_Config :: "(string \<Rightarrow> cli_value) \<Rightarrow> Config" where
  "read_Config vs =
     \<lparr>cfg_host = as_text (vs ''--host''), cfg_port = word_of_int (as_num (vs ''--port'')),
      cfg_timeout_ms = word_of_int (as_num (vs ''--timeout-ms'')), cfg_verbose = as_flag (vs ''--verbose''),
      cfg_log_level = as_text (vs ''--log-level''), cfg_log_file = as_text (vs ''--log-file'')\<rparr>"

text \<open>\<^verbatim>\<open>main\<close> up to \<^verbatim>\<open>server.run()\<close>: the exit code of a refused command line, or the objects it has built.\<close>

record process =
  pr_config :: Config
  pr_logger :: logger
  pr_gateway :: Gateway
  pr_server :: RestServer

definition qr_main :: "cli_parser \<Rightarrow> string list \<Rightarrow> (string \<rightharpoonup> string) \<Rightarrow> int + process" where
  "qr_main parse argv env =
     (case parse cli_options argv env of
        Inl code \<Rightarrow> Inl code
      | Inr vs \<Rightarrow>
          (let cfg = read_Config vs
           in Inr \<lparr>pr_config = cfg, pr_logger = init_logging cfg, pr_gateway = main_gateway env,
                   pr_server = main_server cfg\<rparr>))"

text \<open>
  \<^verbatim>\<open>server.setup_routes()\<close> and \<^verbatim>\<open>server.run()\<close> as their calls on the Crow application; \<^verbatim>\<open>port\<close> takes a
  16-bit number. \<open>route_of\<close> is the route a request of the model belongs to.
\<close>

datatype http_method = GET | POST

datatype crow_call = Route string http_method | BindAddr string | Port "16 word" | Multithreaded | Run

definition setup_routes :: "crow_call list" where
  "setup_routes =
     [Route ''/health'' GET, Route ''/status'' GET, Route ''/command'' POST, Route ''/start'' POST,
      Route ''/result/<string>'' GET, Route ''/stop'' POST]"

definition server_run :: "RestServer \<Rightarrow> crow_call list" where
  "server_run srv = [BindAddr (rs_bind_addr srv), Port (word_of_int (rs_port srv)), Multithreaded, Run]"

definition main_calls :: "process \<Rightarrow> crow_call list" where
  "main_calls p = setup_routes @ server_run (pr_server p)"

fun route_of :: "http_request \<Rightarrow> crow_call" where
  "route_of GetHealth = Route ''/health'' GET"
| "route_of GetStatus = Route ''/status'' GET"
| "route_of (PostCommand b) = Route ''/command'' POST"
| "route_of (PostStart b) = Route ''/start'' POST"
| "route_of (GetResult jid) = Route ''/result/<string>'' GET"
| "route_of PostStop = Route ''/stop'' POST"

section \<open>Startup\<close>

lemma cli_documentedD:
  assumes "cli_documented parse" and "parse opts argv env = Inr vs" and "opt \<in> set opts"
  shows "fits (opt_target opt) (vs (last (opt_names opt)))" "passes (opt_check opt) (vs (last (opt_names opt)))"
    "argv = [] \<Longrightarrow> (\<And>v. opt_envname opt = Some v \<Longrightarrow> env v = None) \<Longrightarrow> vs (last (opt_names opt)) = opt_default opt"
  using assms unfolding cli_documented_def by blast+

lemma fits_unsigned: "fits (TUnsigned w) v \<Longrightarrow> \<exists>n. v = CNum n \<and> 0 \<le> n \<and> n < 2 ^ w"
  by (cases v) auto

text \<open>
  A process that gets past its command line listens on a port between 1 and 65535, with a default
  timeout that is the configured number of milliseconds unless that does not fit an \<^verbatim>\<open>int\<close>; its core
  is not initialised, no job is known and the dispatcher is at rest.
\<close>

lemma startup_in_range:
  assumes "cli_documented parse" and "qr_main parse argv env = Inr p"
  shows "1 \<le> rs_port (pr_server p)" "rs_port (pr_server p) \<le> 65535"
    "uint (cfg_timeout_ms (pr_config p)) < 2147483648 \<Longrightarrow>
       rs_default_timeout_ms (pr_server p) = uint (cfg_timeout_ms (pr_config p))"
    "gw_ok (pr_gateway p)" "at_rest (gw_disp (pr_gateway p))" "core_st (d_core (gw_disp (pr_gateway p))) = NOT_INIT"
proof -
  obtain vs where vs: "parse cli_options argv env = Inr vs"
    and p: "p = \<lparr>pr_config = read_Config vs, pr_logger = init_logging (read_Config vs),
      pr_gateway = main_gateway env, pr_server = main_server (read_Config vs)\<rparr>"
    using assms(2) by (auto simp: qr_main_def Let_def split: sum.splits)
  let ?o = "add_option [''-p'', ''--port''] (TUnsigned 16) ''REST_PORT'' (Range 1 65535) (CNum 8080)"
  have "?o \<in> set cli_options" by (simp add: cli_options_def)
  from cli_documentedD(1,2) [OF assms(1) vs this] obtain n where "vs ''--port'' = CNum n" "1 \<le> n" "n \<le> 65535"
    using fits_unsigned by (fastforce simp: add_option_def)
  then show "1 \<le> rs_port (pr_server p)" "rs_port (pr_server p) \<le> 65535"
    using p by (simp_all add: main_server_def new_RestServer_def read_Config_def uint_word_of_int)
  show "rs_default_timeout_ms (pr_server p) = uint (cfg_timeout_ms (pr_config p))"
    if "uint (cfg_timeout_ms (pr_config p)) < 2147483648"
    using that p by (simp add: main_server_def new_RestServer_def int32_cast_def)
  show "gw_ok (pr_gateway p)" "at_rest (gw_disp (pr_gateway p))"
    "core_st (d_core (gw_disp (pr_gateway p))) = NOT_INIT"
    using p by (simp_all add: main_gateway_def gw_ok_new) (simp_all add: new_Gateway_def new_Dispatcher_def new_Core_def at_rest_def)
qed

text \<open>
  The server is started once, last, with every route in place and no other, on the port of the
  configuration: the conversions to \<^verbatim>\<open>int\<close> and back to 16 bits keep it.
\<close>

lemma startup_serves:
  assumes "qr_main parse argv env = Inr p"
  shows "\<exists>setup. main_calls p = setup @ [Run] \<and> Run \<notin> set setup \<and> range route_of = {c \<in> set setup. \<exists>u m. c = Route u m} \<and>
    distinct setup \<and> Port (cfg_port (pr_config p)) \<in> set setup"
proof -
  have "rs_port (pr_server p) = uint (cfg_port (pr_config p))"
    using assms by (auto simp: qr_main_def main_server_def new_RestServer_def Let_def split: sum.splits)
  then have port: "Port (word_of_int (rs_port (pr_server p))) = Port (cfg_port (pr_config p))" by simp
  have "range route_of = set setup_routes"
  proof (intro equalityI subsetI)
    fix c assume "c \<in> range route_of"
    then obtain req where "c = route_of req" by blast
    then show "c \<in> set setup_routes" by (cases req) (simp_all add: setup_routes_def)
  next
    fix c assume "c \<in> set setup_routes"
    then show "c \<in> range route_of"
      using rangeI [of route_of GetHealth] rangeI [of route_of GetStatus] rangeI [of route_of PostStop]
        rangeI [of route_of "PostCommand []"] rangeI [of route_of "PostStart []"] rangeI [of route_of "GetResult []"]
      by (auto simp: setup_routes_def)
  qed
  then show ?thesis
    by (intro exI [of _ "setup_routes @ butlast (server_run (pr_server p))"])
      (auto simp: main_calls_def server_run_def port setup_routes_def)
qed

text \<open>Without arguments and with none of the variables set, the configuration is the default one.\<close>

lemma startup_default:
  assumes "cli_documented parse" and "qr_main parse [] env = Inr p"
    and "list_all (\<lambda>v. env v = None) [''REST_BIND'', ''REST_PORT'', ''READ_TIMEOUT_MS'', ''LOG_LEVEL'', ''LOG_FILE'']"
  shows "pr_config p = default_Config"
    "pr_server p = \<lparr>rs_bind_addr = ''0.0.0.0'', rs_port = 8080, rs_default_timeout_ms = 3000\<rparr>"
    "lg_sinks (pr_logger p) = [stdout_color_sink]"
proof -
  obtain vs where vs: "parse cli_options [] env = Inr vs"
    and p: "p = \<lparr>pr_config = read_Config vs, pr_logger = init_logging (read_Config vs),
      pr_gateway = main_gateway env, pr_server = main_server (read_Config vs)\<rparr>"
    using assms(2) by (auto simp: qr_main_def Let_def split: sum.splits)
  have dflt: "vs (last (opt_names opt)) = opt_default opt" if "opt \<in> set cli_options" for opt
    using cli_documentedD(3) [OF assms(1) vs that] that assms(3)
    by (auto simp: cli_options_def add_option_def add_flag_def)
  have "list_all (\<lambda>opt. vs (last (opt_names opt)) = opt_default opt) cli_options"
    using dflt by (simp add: list_all_iff)
  then show cfg: "pr_config p = default_Config" using p
    by (simp add: cli_options_def add_option_def add_flag_def read_Config_def default_Config_def)
  then show "pr_server p = \<lparr>rs_bind_addr = ''0.0.0.0'', rs_port = 8080, rs_default_timeout_ms = 3000\<rparr>"
    "lg_sinks (pr_logger p) = [stdout_color_sink]"
    using p by (auto simp: default_Config_def main_server_def new_RestServer_def init_logging_def int32_cast_def)
qed

text \<open>A parser with the documented behaviour: it knows no arguments and no environment.\<close>

definition defaults_only :: cli_parser where
  "defaults_only opts argv env =
     (if argv = [] \<and> distinct (map (\<lambda>opt. last (opt_names opt)) opts) \<and>
         list_all (\<lambda>opt. fits (opt_target opt) (opt_default opt) \<and> passes (opt_check opt) (opt_default opt)) opts
      then Inr (\<lambda>name. case map_of (map (\<lambda>opt. (last (opt_names opt), opt_default opt)) opts) name of
                   None \<Rightarrow> CFlag False | Some v \<Rightarrow> v)
      else Inl 109)"

lemma defaults_only_documented: "cli_documented defaults_only"
  unfolding cli_documented_def
proof (intro allI impI ballI)
  fix opts argv env vs opt
  assume p: "defaults_only opts argv env = Inr vs" and opt: "opt \<in> set opts"
  let ?tab = "map (\<lambda>opt. (last (opt_names opt), opt_default opt)) opts"
  have "distinct (map fst ?tab)" using p by (simp add: defaults_only_def comp_def split: if_splits)
  then have "map_of ?tab (last (opt_names opt)) = Some (opt_default opt)" using opt by force
  then have "vs (last (opt_names opt)) = opt_default opt" using p by (auto simp: defaults_only_def split: if_splits)
  then show "fits (opt_target opt) (vs (last (opt_names opt))) \<and> passes (opt_check opt) (vs (last (opt_names opt))) \<and>
      (argv = [] \<and> (\<forall>v. opt_envname opt = Some v \<longrightarrow> env v = None) \<longrightarrow>
         vs (last (opt_names opt)) = opt_default opt)"
    using p opt by (auto simp: defaults_only_def list_all_iff split: if_splits)
qed

lemma default_startup:
  "\<exists>p. qr_main defaults_only [] Map.empty = Inr p \<and> pr_config p = default_Config"
proof -
  have "\<exists>p. qr_main defaults_only [] Map.empty = Inr p"
    by (simp add: qr_main_def defaults_only_def cli_options_def add_option_def add_flag_def Let_def)
  then show ?thesis using startup_default(1) [OF defaults_only_documented] by fastforce
qed

section \<open>Properties\<close>

lemma exits_when_stopping:
  assumes "d_worker d \<noteq> Exited" and "d_stopping d" and "work_left d + 1 \<le> n"
  shows "d_worker ((worker_step thr ^^ n) d) = Exited"
  using assms
proof (induction n arbitrary: d)
  case (Suc n)
  show ?case
  proof (cases "work_left d = 0")
    case True
    then show ?thesis using Suc.prems
      by (simp del: funpow.simps add: funpow_Suc_shift worker_step_idle worker_step_Exited)
  next
    case False
    then show ?thesis using Suc.prems worker_step_not_Exited [OF Suc.prems(1) False, of thr]
      by (simp del: funpow.simps add: funpow_Suc_shift Suc.IH work_left_step)
  qed
qed simp

lemma work_left_stop [simp]:
  "work_left (dispatcher_stop d) = work_left d" "d_worker (dispatcher_stop d) = d_worker d"
  "d_stopping (dispatcher_stop d)"
  by (simp_all add: dispatcher_stop_def work_left_def)

text \<open>
  C33: the shutdown of the process is orderly: from every reachable state with a running
  dispatcher, once the request threads are gone, the destructors return; then no job thread
  exists and no job is PENDING, the worker has returned, and every future handed out, the one of
  the last job's FINISH included, is ready.
\<close>

theorem shutdown_is_orderly:
  assumes "gw_steps thr (main_gateway env) es g" and "d_worker (gw_disp g) \<noteq> Exited"
    and "\<not> d_stopping (gw_disp g)" and "lets_job_stop s" and "work_left (gw_disp g) + 4 \<le> n"
  shows "\<exists>g'. main_shutdown thr s n g = Inr g' \<and> r_worker (gw_jobs g') = None \<and>
    (\<forall>jid r. get_job jid (gw_store g') = Inr r \<longrightarrow> jr_status r \<noteq> PENDING) \<and>
    d_worker (gw_disp g') = Exited \<and>
    (\<forall>i < d_next (gw_disp g'). d_proms (gw_disp g') i \<noteq> None)"
proof -
  have l: "live thr g" using assms(1) by (auto simp: live_def main_gateway_def)
  obtain g1 where st: "runner_stop thr s g = Inr g1" and r1: "reaches thr g g1"
    using runner_stop_outcome [OF l assms(4)] by blast
  have l1: "live thr g1" by (rule live_reaches [OF l r1])
  let ?d1 = "dispatcher_stop (gw_disp g1)"
  let ?d = "(worker_step thr ^^ n) ?d1" and ?g = "g1\<lparr>gw_disp := (worker_step thr ^^ n) ?d1\<rparr>"
  have b: "d_worker ?d1 \<noteq> Exited" "work_left ?d1 + 1 \<le> n"
    using runner_stop_backlog [OF st live_ok [OF l] assms(2,3)] assms(5) by auto
  have ex: "d_worker ?d = Exited" using exits_when_stopping [where thr = thr, OF b(1) _ b(2)] by simp
  have none: "r_worker (gw_jobs ?g) = None" using runner_stop_reaches(2) [OF st] by simp
  have "gw_ok ?g" using live_ok [OF l1] by simp
  then have "\<forall>jid r. get_job jid (gw_store ?g) = Inr r \<longrightarrow> jr_status r \<noteq> PENDING"
    using no_thread_no_pending none by blast
  moreover obtain xs k where "serial_at thr xs new_Core k (gw_disp g1)" by (rule live_serial [OF l1])
  then have "serial_at thr xs new_Core k ?d1" by (rule serial_at_stop)
  then obtain k' where s: "serial_at thr xs new_Core k' ?d" using serial_at_worker_steps by blast
  moreover have "work_left ?d = 0" using worker_steps_done [OF b(1)] b(2) by simp
  ultimately have "\<forall>i < d_next ?d. d_proms ?d i \<noteq> None"
    using serial_at_all_answered [OF s] by (auto simp: serial_at_def)
  moreover have "main_shutdown thr s n g = Inr ?g"
    using st ex by (simp add: main_shutdown_def join_ready_def Let_def)
  ultimately show ?thesis
    using ex none \<open>\<forall>jid r. get_job jid (gw_store ?g) = Inr r \<longrightarrow> jr_status r \<noteq> PENDING\<close> by simp
qed

theorem shutdown_is_orderly_witness:
  "\<exists>g'. main_shutdown (\<lambda>_. False) (replicate 7 (BgJob (quiet_in 5))) 4 started_gw = Inr g' \<and>
    r_worker (gw_jobs g') = None \<and>
    (\<forall>jid r. get_job jid (gw_store g') = Inr r \<longrightarrow> jr_status r \<noteq> PENDING) \<and>
    d_worker (gw_disp g') = Exited \<and>
    (\<forall>i < d_next (gw_disp g'). d_proms (gw_disp g') i \<noteq> None)"
  by (rule shutdown_is_orderly [where env = "[''SERIAL_PORT'' \<mapsto> ''/dev/ttyS1'']" and es = start_events])
    (use started_gw_steps started_gw_facts in
      \<open>simp_all add: main_gateway_def getenv_str_def at_rest_def\<close>)

text \<open>
  The default timeout is the configured one only up to the largest \<^verbatim>\<open>int\<close>: every configured
  value of $2^{31}$ or more becomes a negative timeout, and a job started with it reports TIMEOUT at
  its first look at the clock, without opening the port.
\<close>

lemma large_default_timeout_fires_at_once:
  assumes "2147483648 \<le> uint (cfg_timeout_ms cfg)" and "ji_now i0 \<le> ji_now i1"
  shows "rs_default_timeout_ms (main_server cfg) < 0 \<and>
    fst (job_run [(True, b, i0), (True, b, i1), (True, b, i1)]
      (new_thread jid (rs_default_timeout_ms (main_server cfg)))) = [ASetTimeout]"
proof -
  have "uint (cfg_timeout_ms cfg) < 4294967296" using uint_lt2p [of "cfg_timeout_ms cfg"] by simp
  then have "(uint (cfg_timeout_ms cfg) + 2147483648) mod 4294967296 = uint (cfg_timeout_ms cfg) - 2147483648"
    using assms(1) by (simp add: mod_pos_geq)
  then have t: "rs_default_timeout_ms (main_server cfg) < 0"
    using \<open>uint (cfg_timeout_ms cfg) < 4294967296\<close> by (simp add: main_server_def new_RestServer_def int32_cast_def)
  then show ?thesis using assms(2) by (simp add: job_step_def new_thread_def)
qed

text \<open>
  The flag \<^verbatim>\<open>--verbose\<close> does nothing on its own: with the default log level, and with every
  level name the program knows, the level is the same with and without the flag.
\<close>

lemma verbose_is_ignored:
  "log_level (default_Config\<lparr>cfg_verbose := v\<rparr>) = level_info \<and>
   (log_level (cfg\<lparr>cfg_verbose := True\<rparr>) \<noteq> log_level (cfg\<lparr>cfg_verbose := False\<rparr>) \<longleftrightarrow>
      cfg_log_level cfg \<notin> {''debug'', ''info'', ''warn'', ''error''})"
  by (simp add: log_level_def parse_log_level_def default_Config_def)

end
