(* ===== verification/End_To_End.thy ===== *)
theory End_To_End
  imports Rest_Server Job_Delivery Fake_Serial
begin

text \<open>
  The components together: a client starts a job, the scanner sends a code, the client asks for
  the result.
\<close>

section \<open>A job from request to result\<close>

text \<open>The answers of the system for the passes of the read loop, two steps each.\<close>

fun read_ins :: "job_in \<Rightarrow> io_obs list \<Rightarrow> job_in list" where
  "read_ins i [] = []"
| "read_ins i (ob # obs) = i # i\<lparr>ji_poll := ob_poll ob, ji_read := ob_read ob\<rparr> # read_ins i obs"

lemma read_steps_ins:
  "\<forall>ob \<in> set obs. ob_head ob \<and> ob_flag ob \<Longrightarrow>
     read_steps b i obs = map (\<lambda>j. (True, b, j)) (read_ins i obs)"
  by (induction obs) auto

lemma read_loop_flags: "read_loop r f os = None \<Longrightarrow> ob \<in> set os \<Longrightarrow> ob_head ob \<and> ob_flag ob"
proof (induction os arbitrary: r f)
  case (Cons o1 os)
  have r: "0 < r" using Cons.prems(1) by (cases "0 < r") (simp_all add: read_loop_expired)
  have h: "ob_head o1" using Cons.prems(1) r by (simp add: read_loop_Cons split: if_splits)
  obtain r1 f1 where it: "read_iter r f (ob_flag o1) (ob_poll o1) (ob_read o1) = Continue r1 f1"
    using Cons.prems(1) r h by (cases "read_iter r f (ob_flag o1) (ob_poll o1) (ob_read o1)")
      (simp_all add: read_loop_Cons)
  then have "ob_flag o1" by (cases "ob_flag o1") (simp_all add: read_iter_flag)
  then show ?case using Cons r h it by (auto simp: read_loop_Cons)
qed simp

text \<open>
  While no other thread clears the flag, the steps of the job thread in the gateway are its run
  with the flag set, and their effect is the one of its actions.
\<close>

abbreviation with_worker :: "job_thread \<Rightarrow> Gateway \<Rightarrow> Gateway" where
  "with_worker th g \<equiv> g\<lparr>gw_jobs := (gw_jobs g)\<lparr>r_worker := Some th\<rparr>\<rparr>"

lemma apply_act_worker:
  "apply_act jid a (with_worker th g) = map_sum id (with_worker th) (apply_act jid a g)"
  by (cases a) (simp_all add: upd_store_def split: sum.split)

lemma apply_acts_worker:
  "apply_acts jid as (with_worker th g) = map_sum id (with_worker th) (apply_acts jid as g)"
proof (induction as arbitrary: g)
  case (Cons a as)
  then show ?case by (cases "apply_act jid a g") (simp_all add: apply_act_worker)
qed simp

lemma apply_acts_append:
  "apply_acts jid (as @ bs) g = (case apply_acts jid as g of Inl e \<Rightarrow> Inl e | Inr g' \<Rightarrow> apply_acts jid bs g')"
  by (induction as arbitrary: g) (simp_all split: sum.split)

lemma job_step_flag: "2 \<le> closing (jt_pc th) \<Longrightarrow> job_step r b i th = job_step True b i th"
  by (cases "jt_pc th") (simp_all add: job_step_def)

lemma apply_acts_flag:
  "apply_acts jid as g = Inr g' \<Longrightarrow> r_running (gw_jobs g) \<Longrightarrow> AClearFlag \<notin> set as \<Longrightarrow> r_running (gw_jobs g')"
proof (induction as arbitrary: g)
  case (Cons a as)
  then show ?case by (cases a) (auto simp: upd_store_def split: sum.splits)
qed simp

lemma job_step_clears:
  "AClearFlag \<in> set (fst (job_step r b i th)) \<Longrightarrow> closing (jt_pc (snd (job_step r b i th))) = 2"
  by (cases rule: job_step_kinds [where th = th and r = r and b = b and i = i])
    (auto simp: list_all_iff)

lemma job_step_closing_mono: "closing (jt_pc th) \<ge> 2 \<Longrightarrow> closing (jt_pc (snd (job_step r b i th))) \<ge> 2"
  by (cases "jt_pc th") (simp_all add: job_step_def)

lemma gw_job_run:
  assumes "r_worker (gw_jobs g) = Some th" and "r_running (gw_jobs g) \<or> 2 \<le> closing (jt_pc th)"
    and "apply_acts (jt_id th) (fst (job_run (map (\<lambda>i. (True, r_baudrate (gw_jobs g), i)) is) th)) g = Inr g'"
  shows "gw_run thr (map GJob is) g =
    Some (with_worker (snd (job_run (map (\<lambda>i. (True, r_baudrate (gw_jobs g), i)) is) th)) g')"
  using assms
proof (induction "is" arbitrary: g th g')
  case Nil
  then show ?case by (cases g, cases "gw_jobs g") auto
next
  case (Cons i js)
  let ?b = "r_baudrate (gw_jobs g)"
  let ?as = "fst (job_step True ?b i th)" and ?th = "snd (job_step True ?b i th)"
  have st: "job_step (r_running (gw_jobs g)) ?b i th = job_step True ?b i th"
    using Cons.prems(2) job_step_flag [of th "r_running (gw_jobs g)" ?b i]
    by (cases "r_running (gw_jobs g)") auto
  obtain g1 where g1: "apply_acts (jt_id th) ?as g = Inr g1"
    and rest: "apply_acts (jt_id th) (fst (job_run (map (\<lambda>i. (True, ?b, i)) js) ?th)) g1 = Inr g'"
    using Cons.prems(3) by (auto simp: job_run_Cons apply_acts_append simp del: job_run.simps split: sum.splits)
  have step: "runner_step i g = Inr (with_worker ?th g1)"
    using Cons.prems(1) g1 by (simp add: runner_step_def st apply_acts_worker split_def)
  have b: "r_baudrate (gw_jobs g1) = ?b" using apply_acts_baud [OF g1] .
  have "r_running (gw_jobs g1) \<or> 2 \<le> closing (jt_pc ?th)"
    using Cons.prems(2) apply_acts_flag [OF g1] job_step_clears [of True ?b i th]
      job_step_closing_mono [of th True ?b i] by (cases "AClearFlag \<in> set ?as") auto
  then have "gw_run thr (map GJob js) (with_worker ?th g1) =
      Some (with_worker (snd (job_run (map (\<lambda>i. (True, ?b, i)) js) ?th)) (with_worker ?th g'))"
    using rest b Cons.IH [of "with_worker ?th g1" ?th "with_worker ?th g'"] by (simp add: apply_acts_worker)
  then show ?case using step by (simp add: job_run_Cons del: job_run.simps)
qed

lemma gw_run_append: "gw_run thr (es @ fs) g = (case gw_run thr es g of None \<Rightarrow> None | Some g' \<Rightarrow> gw_run thr fs g')"
  by (induction es arbitrary: g) (simp_all split: option.split)

lemma apply_scan:
  assumes "get_job jid (gw_store g) = Inr r" and "list_all io_act io"
  shows "\<exists>g'. apply_acts jid (io @ [AOpen, AConfigure b, AClose, ASetDone q, AClearFlag, ASubmitFinish]) g = Inr g' \<and>
    jobs (gw_store g') jid = Some (result_of (ASetDone q)) \<and>
    gw_disp g' = snd (submit OpFinish (gw_disp g))"
proof -
  have "jobs (gw_store g) jid \<noteq> None" using assms by (auto simp: store.fetch_look split: option.splits)
  from apply_verdict [OF _ this, of "ASetDone q"] obtain s where
    "apply_act jid (ASetDone q) g = Inr (g\<lparr>gw_store := s\<rparr>)"
    "jobs s = (jobs (gw_store g))(jid \<mapsto> result_of (ASetDone q))" by auto
  then show ?thesis using apply_acts_io [OF assms(2)] by (simp add: apply_acts_append)
qed

text \<open>The steps of the job thread for one scan: prologue, fruitless rounds, the last round, epilogue.\<close>

fun round_ins :: "int \<Rightarrow> job_round \<Rightarrow> job_in list" where
  "round_ins deadline (NoPort i) = replicate 3 i"
| "round_ins deadline (Reads i os ob) = replicate 3 i @ read_ins i (os @ [ob]) @
     replicate (if reader_got (time_left deadline i) (os @ [ob]) then 2 else 1) i"

definition scan_ins ::
  "job_in \<Rightarrow> int \<Rightarrow> job_round list \<Rightarrow> job_in \<Rightarrow> io_obs list \<Rightarrow> job_in list" where
  "scan_ins i0 tmo rs i1 obs =
     i0 # concat (map (round_ins (ji_now i0 + tmo * 1000000)) rs) @
       replicate 3 i1 @ read_ins i1 obs @ replicate 4 i1"

lemma round_obs:
  assumes "fruitless deadline r"
  shows "map (\<lambda>i. (True, b, i)) (round_ins deadline r) = round_steps deadline b r"
proof (cases r)
  case (Reads i os ob)
  then have "\<forall>x \<in> set (os @ [ob]). ob_head x \<and> ob_flag x"
    using assms read_loop_flags [of "time_left deadline i" "[]" os] by auto
  from read_steps_ins [OF this] show ?thesis
    unfolding Reads by (simp only: round_ins.simps round_steps.simps map_append map_replicate)
qed simp

lemma scan_obs:
  assumes "list_all (fruitless (ji_now i0 + tmo * 1000000)) rs" and "\<forall>ob \<in> set obs. benign ob"
  shows "map (\<lambda>i. (True, b, i)) (scan_ins i0 tmo rs i1 obs) = scan_steps True b i0 tmo rs i1 obs"
proof -
  let ?d = "ji_now i0 + tmo * 1000000"
  have rs: "map (\<lambda>i. (True, b, i)) (concat (map (round_ins ?d) rs)) = concat (map (round_steps ?d b) rs)"
    using assms(1) by (induction rs) (simp_all add: round_obs)
  have "read_steps b i1 obs = map (\<lambda>j. (True, b, j)) (read_ins i1 obs)"
    using assms(2) by (intro read_steps_ins) (auto simp: benign_def)
  then show ?thesis unfolding scan_ins_def scan_steps_def list.map map_append rs by simp
qed

section \<open>The stream of the emulator\<close>

text \<open>A reader that starts right behind a delimiter finds the whole frame.\<close>

lemma stream_frame:
  assumes "pre @ u @ 0 # rest = concat (replicate k (enc @ [0]))"
    and "0 \<notin> set u" and "0 \<notin> set enc" and "pre = [] \<or> last pre = 0"
  shows "u = enc"
  using assms(1,4)
proof (induction k arbitrary: pre)
  case (Suc k)
  show ?case
  proof (cases "pre = []")
    case True
    then have "u @ 0 # rest = enc @ 0 # concat (replicate k (enc @ [0]))" using Suc.prems(1) by simp
    then show ?thesis using split_first_eq assms(2,3) by fast
  next
    case False
    then obtain pre' where p: "pre = pre' @ [0]" using Suc.prems(2) by (metis append_butlast_last_id)
    then have z: "0 \<in> set pre" by simp
    then obtain a c where a: "pre = a @ 0 # c" "0 \<notin> set a" by (metis split_list_first)
    have "a @ 0 # c @ u @ 0 # rest = enc @ 0 # concat (replicate k (enc @ [0]))"
      using Suc.prems(1) a(1) by simp
    from split_first_eq [OF this a(2) assms(3)] have
      "c @ u @ 0 # rest = concat (replicate k (enc @ [0]))" by simp
    moreover have "c = [] \<or> last c = 0" using a(1) p by (cases c rule: rev_cases) auto
    ultimately show ?thesis by (rule Suc.IH)
  qed
qed simp

text \<open>A reader that starts anywhere finds a suffix of a frame first.\<close>

lemma stream_suffix:
  assumes "pre @ u @ 0 # rest = concat (replicate k (enc @ [0]))"
    and "0 \<notin> set u" and "0 \<notin> set enc"
  shows "\<exists>v. enc = v @ u"
  using assms(1)
proof (induction k arbitrary: pre)
  case (Suc k)
  show ?case
  proof (cases "0 \<in> set pre")
    case True
    then obtain a c where a: "pre = a @ 0 # c" "0 \<notin> set a" by (metis split_list_first)
    have "a @ 0 # c @ u @ 0 # rest = enc @ 0 # concat (replicate k (enc @ [0]))"
      using Suc.prems(1) a(1) by simp
    from split_first_eq [OF this a(2) assms(3)] have
      "c @ u @ 0 # rest = concat (replicate k (enc @ [0]))" by simp
    then show ?thesis by (rule Suc.IH)
  next
    case False
    then have "(pre @ u) @ 0 # rest = enc @ 0 # concat (replicate k (enc @ [0]))" using Suc.prems(1) by simp
    then have "pre @ u = enc" using False assms(2,3) split_first_eq [of "pre @ u"] by fastforce
    then show ?thesis by blast
  qed
qed simp

lemma string_of_bytes_of_string [simp]: "string_of_bytes (bytes_of_string s) = s"
proof -
  have "char_of (unat (of_nat (of_char c) :: byte)) = c" for c :: char
  proof -
    have "(of_char c :: nat) < 256" by (rule nat_of_char_less_256)
    then have "unat (of_nat (of_char c) :: byte) = of_char c" by (simp add: unat_of_nat)
    then show ?thesis by simp
  qed
  then show ?thesis by (simp add: string_of_bytes_def bytes_of_string_def o_def)
qed

lemma string_of_payload: "CHR 0x00 \<notin> set payload \<Longrightarrow> string_of_bytes (payload_bytes payload) = payload"
  by (simp add: payload_bytes_def) (metis takeWhile_eq_all_conv)

lemma emulator_frame:
  assumes "list_all enc_ok ps" and "sent (snd (client_loop payload ms ps)) = pre @ u @ 0 # rest"
    and "0 \<notin> set u"
  shows "pre = [] \<or> last pre = 0 \<Longrightarrow> u = cobs_enc [] (payload_bytes payload)"
    and "\<exists>v. cobs_enc [] (payload_bytes payload) = v @ u" and "fits_enc payload"
proof -
  note st = client_loop_stream [OF assms(1), of payload ms]
  from st assms(2) obtain k rest' where
    k: "pre @ u @ 0 # rest @ rest' = concat (replicate k (cobs_enc [] (payload_bytes payload) @ [0]))"
    by (auto simp: repeats_def frame_of_def)
  have z: "0 \<notin> set (cobs_enc [] (payload_bytes payload))" using cobs_enc_no_zero [of "[]"] by simp
  show "pre = [] \<or> last pre = 0 \<Longrightarrow> u = cobs_enc [] (payload_bytes payload)"
    using stream_frame [OF k assms(3) z] .
  show "\<exists>v. cobs_enc [] (payload_bytes payload) = v @ u" using stream_suffix [OF k assms(3) z] .
  show "fits_enc payload" using st assms(2) by (cases "fits_enc payload") auto
qed

text \<open>The tail of a frame is not mistaken for a code when the payload is short against its bytes.\<close>

lemma cobs_enc_short:
  "0 \<notin> set xs \<Longrightarrow> length blk + length xs \<le> 253 \<Longrightarrow>
     cobs_enc blk xs = code_of (length blk + length xs) # blk @ xs"
  by (induction blk xs rule: cobs_enc.induct) auto

lemma tail_not_qr:
  assumes "cobs_enc [] p = v @ u" and "v \<noteq> []" and "u \<noteq> []" and "0 \<notin> set p" and "length p \<le> 253"
    and "\<forall>x \<in> set p. length p < unat x"
  shows "\<not> qr_frame u"
proof -
  have "code_of (length p) # p = v @ u" using assms(1) cobs_enc_short [of p "[]"] assms(4,5) by simp
  then obtain v' where p: "p = v' @ u" using assms(2) by (cases v) auto
  obtain c cs where u: "u = c # cs" using assms(3) by (cases u) auto
  have "length p < unat c" using assms(6) p u by simp
  moreover have "length p = length v' + Suc (length cs)" using p u by simp
  ultimately have "length cs < unat c - 1" by linarith
  then have "cobs_dec u = None" using u by (simp add: cobs_dec.simps(2))
  then show ?thesis using cobs_decode_eq [of u] by (auto simp: qr_frame_def)
qed

lemma read_loop_pending:
  "\<forall>ob \<in> set os. benign ob \<Longrightarrow> 0 \<notin> set (concat (map delivered os)) \<Longrightarrow>
     length (f @ concat (map delivered os)) \<le> 4096 \<Longrightarrow> 50 * int (passes os) < r \<Longrightarrow>
     \<exists>r' > 0. \<forall>obs. read_loop r f (os @ obs) = read_loop r' (f @ concat (map delivered os)) obs"
proof (induction os arbitrary: r f)
  case (Cons ob os)
  have r: "0 < r" using Cons.prems(4) by linarith
  have h: "benign ob" "ob_head ob" using Cons.prems(1) by (auto simp: benign_def)
  let ?r = "if interrupted ob then r else r - wait_ms r"
  have it: "read_iter r f (ob_flag ob) (ob_poll ob) (ob_read ob) = Continue ?r (f @ delivered ob)"
    using h Cons.prems by (intro read_iter_benign) auto
  have "50 * int (passes os) < ?r" using Cons.prems(4) wait_ms_le(1) [of r] by (auto split: if_splits)
  then obtain r' where "r' > 0" "\<forall>obs. read_loop ?r (f @ delivered ob) (os @ obs) =
      read_loop r' ((f @ delivered ob) @ concat (map delivered os)) obs"
    using Cons.IH [of "f @ delivered ob" ?r] Cons.prems by auto
  then show ?case using r h it by (intro exI [of _ r']) (simp add: read_loop_Cons)
qed auto

lemma read_iter_empty:
  assumes "benign ob" and "delivered ob = 0 # w"
  shows "read_iter r [] (ob_flag ob) (ob_poll ob) (ob_read ob) = Return False []"
  using assms by (auto simp: read_iter_def benign_def delivered_def got_bytes_def
      split: poll_result.splits read_result.splits if_splits)

lemma tail_fruitless:
  assumes "\<forall>x \<in> set (os @ [ob]). benign x" and "concat (map delivered (os @ [ob])) = u @ [0]"
    and "0 \<notin> set u" and "0 \<in> set (delivered ob)" and "length u \<le> 4096" and "u = [] \<or> \<not> qr_frame u"
    and "ji_now i < deadline" and "ji_open i" and "50 * int (passes (os @ [ob])) < time_left deadline i"
  shows "fruitless deadline (Reads i os ob)"
proof -
  obtain v w where d: "delivered ob = v @ 0 # w" "0 \<notin> set v" using assms(4) by (metis split_list_first)
  have "(concat (map delivered os) @ v) @ 0 # w = u @ 0 # []" using assms(2) d by simp
  moreover have z: "0 \<notin> set (concat (map delivered os))"
  proof
    assume "0 \<in> set (concat (map delivered os))"
    then obtain a c where a: "concat (map delivered os) = a @ 0 # c" "0 \<notin> set a" by (metis split_list_first)
    then have "a @ 0 # (c @ delivered ob) = u @ 0 # []" using assms(2) by simp
    then have "c @ delivered ob = []" using split_first_eq a(2) assms(3) by fast
    then show False using assms(4) by simp
  qed
  ultimately have u: "concat (map delivered os) @ v = u" "w = []"
    using split_first_eq [of "concat (map delivered os) @ v" 0 w u "[]"] d(2) assms(3) by auto
  have t: "50 * int (passes os) < time_left deadline i" using assms(9) by (auto split: if_splits)
  have l: "length ([] @ concat (map delivered os)) \<le> 4096" unfolding append_Nil
    using arg_cong [OF u(1), of length] assms(5) by (simp only: length_append)
  have "\<forall>ob \<in> set os. benign ob" using assms(1) by simp
  from read_loop_pending [OF this z l t, unfolded append_Nil]
  obtain r' where r': "r' > 0" "\<And>obs. read_loop (time_left deadline i) [] (os @ obs) =
      read_loop r' (concat (map delivered os)) obs" by blast
  have h: "benign ob" "ob_head ob" "ob_flag ob" using assms(1) by (auto simp: benign_def)
  have n: "read_loop (time_left deadline i) [] os = None" using r'(2) [of "[]"] r'(1) by (simp add: read_loop_Nil)
  have "\<exists>got enc. read_loop (time_left deadline i) [] (os @ [ob]) = Some (got, enc) \<and> (got \<longrightarrow> \<not> qr_frame enc)"
  proof (cases "u = []")
    case True
    then have e: "concat (map delivered os) = []" "delivered ob = 0 # w" using u(1) d(1) by auto
    show ?thesis unfolding r'(2) e(1) using r'(1) h(2) read_iter_empty [OF h(1) e(2), of r']
      by (auto simp: read_loop_Cons)
  next
    case False
    then have "read_iter r' (concat (map delivered os)) (ob_flag ob) (ob_poll ob) (ob_read ob) = Return True u"
      using read_iter_frame [OF h(1) d, of "concat (map delivered os)" r'] assms(5) u by simp
    then show ?thesis using False assms(6) r'(1) h(2) unfolding r'(2) by (auto simp: read_loop_Cons)
  qed
  then show ?thesis using assms(7-9) h n by auto
qed

text \<open>More than 4096 bytes without a delimiter end the round.\<close>

lemma scan_buf_over:
  "0 \<notin> set bs \<Longrightarrow> length f \<le> 4096 \<Longrightarrow> 4096 < length (f @ bs) \<Longrightarrow>
     scan_buf bs f = (Some False, take 4097 (f @ bs))"
proof (induction bs arbitrary: f)
  case (Cons b bs)
  show ?case
  proof (cases "length (f @ [b]) > 4096")
    case True
    then have "length (f @ [b]) = 4097" using Cons.prems(2) by simp
    then show ?thesis using True Cons.prems by (simp add: numeral_eq_Suc)
  next
    case False
    then show ?thesis using Cons.IH [of "f @ [b]"] Cons.prems by simp
  qed
qed simp

lemma oversized_fruitless:
  assumes "\<forall>x \<in> set (os @ [ob]). benign x" and "0 \<notin> set (concat (map delivered (os @ [ob])))"
    and "length (concat (map delivered os)) \<le> 4096" and "4096 < length (concat (map delivered (os @ [ob])))"
    and "ji_now i < deadline" and "ji_open i" and "50 * int (passes (os @ [ob])) < time_left deadline i"
  shows "fruitless deadline (Reads i os ob)"
proof -
  let ?r = "time_left deadline i" and ?f = "concat (map delivered os)"
  have ob: "benign ob" "ob_head ob" "ob_flag ob" using assms(1) by (auto simp: benign_def)
  have p: "50 * int (passes os) < ?r" using assms(7) by (simp split: if_splits)
  obtain r' where r': "r' > 0" "\<And>obs. read_loop ?r [] (os @ obs) = read_loop r' ?f obs"
    using read_loop_pending [of os "[]" ?r] assms(1-3) p by auto
  have sc: "scan_buf (delivered ob) ?f = (Some False, take 4097 (?f @ delivered ob))"
    using assms(2-4) by (intro scan_buf_over) auto
  have ne: "delivered ob \<noteq> []" using assms(3,4) by auto
  have "read_iter r' ?f (ob_flag ob) (ob_poll ob) (ob_read ob) = Return False (take 4097 (?f @ delivered ob))"
    using ob sc ne by (auto simp: read_iter_def benign_def delivered_def got_bytes_def
      split: poll_result.splits read_result.splits if_splits)
  then have "read_loop r' ?f [ob] = Some (False, take 4097 (?f @ delivered ob))"
    using r'(1) ob by (simp add: read_loop_Cons)
  moreover have "read_loop ?r [] os = None" using r'(2) [of "[]"] r'(1) by (simp add: read_loop_Nil)
  ultimately show ?thesis using assms(5-7) ob r'(2) [of "[ob]"] by simp
qed

section \<open>Properties\<close>

lemma emulator_read:
  assumes "list_all enc_ok ps"
    and "sent (snd (client_loop payload ms ps)) = pre @ concat (map delivered (os @ [ob])) @ post"
    and "pre = [] \<or> last pre = 0" and "0 \<in> set (delivered ob)" and "0 \<notin> set (concat (map delivered os))"
    and "\<forall>x \<in> set (os @ [ob]). benign x" and "50 * int (passes (os @ [ob])) < rem + 50"
  shows "read_loop rem [] (os @ [ob]) = Some (True, cobs_enc [] (payload_bytes payload))"
proof -
  let ?enc = "cobs_enc [] (payload_bytes payload)"
  obtain v w where "delivered ob = v @ 0 # w" "0 \<notin> set v" using assms(4) by (metis split_list_first)
  then have u: "concat (map delivered (os @ [ob])) = (concat (map delivered os) @ v) @ 0 # w"
    and z: "0 \<notin> set (concat (map delivered os) @ v)" using assms(5) by simp_all
  from assms(2) u have "sent (snd (client_loop payload ms ps)) =
      pre @ (concat (map delivered os) @ v) @ 0 # (w @ post)" by simp
  note f = emulator_frame [OF assms(1) this z]
  have "length ?enc \<le> 4096"
    using cobs_enc_length [of "[]" "payload_bytes payload"] f(3) by (simp add: length_payload_bytes)
  then show ?thesis using assms(6,7) u f(1) [OF assms(3)] cobs_enc_no_zero [of "[]"]
    by (intro read_loop_complete [where f = "[]" and rest = w]) simp_all
qed

text \<open>
  What may happen between the steps of a job without touching it: submissions of requests and steps
  of the worker. The job thread sees nothing of the dispatcher, so its steps have the same effect on
  the store and the runner.
\<close>

fun bystander :: "gw_event \<Rightarrow> bool" where
  "bystander (GSubmit x) = True" | "bystander GWorker = True" | "bystander (GJob i) = True"
| "bystander _ = False"

fun job_inputs :: "gw_event list \<Rightarrow> job_in list" where
  "job_inputs [] = []"
| "job_inputs (GJob i # es) = i # job_inputs es"
| "job_inputs (_ # es) = job_inputs es"

abbreviation submit_end :: "Dispatcher \<Rightarrow> Dispatcher" where
  "submit_end d \<equiv> snd (submit OpFinish d)"

lemma d_next_ends: "d_next ((submit_end ^^ k) d) = d_next d + k"
  by (induction k) (simp_all add: submit_eq)

lemma upd_store_disp:
  "upd_store g res = Inr g' \<Longrightarrow> gw_disp g' = gw_disp g \<and> upd_store (g\<lparr>gw_disp := d\<rparr>) res = Inr (g'\<lparr>gw_disp := d\<rparr>)"
  by (cases g) (auto simp: upd_store_def split: sum.splits)

lemma apply_act_disp:
  assumes "apply_act jid a g = Inr g'"
  shows "\<exists>k. gw_disp g' = (submit_end ^^ k) (gw_disp g) \<and>
    (\<forall>d. apply_act jid a (g\<lparr>gw_disp := d\<rparr>) = Inr (g'\<lparr>gw_disp := (submit_end ^^ k) d\<rparr>))"
proof (cases "a = ASubmitFinish")
  case True
  then show ?thesis using assms by (intro exI [of _ 1]) auto
next
  case False
  then have "gw_disp g' = gw_disp g \<and> (\<forall>d. apply_act jid a (g\<lparr>gw_disp := d\<rparr>) = Inr (g'\<lparr>gw_disp := d\<rparr>))"
    using assms by (cases a) (auto dest: upd_store_disp)
  then show ?thesis by (intro exI [of _ 0]) simp
qed

lemma apply_acts_disp:
  "apply_acts jid as g = Inr g' \<Longrightarrow> \<exists>k. gw_disp g' = (submit_end ^^ k) (gw_disp g) \<and>
     (\<forall>d. apply_acts jid as (g\<lparr>gw_disp := d\<rparr>) = Inr (g'\<lparr>gw_disp := (submit_end ^^ k) d\<rparr>))"
proof (induction as arbitrary: g)
  case Nil
  then show ?case by (intro exI [of _ 0]) simp
next
  case (Cons a as)
  obtain g1 where g1: "apply_act jid a g = Inr g1" "apply_acts jid as g1 = Inr g'"
    using Cons.prems by (auto split: sum.splits)
  obtain j where j: "gw_disp g1 = (submit_end ^^ j) (gw_disp g)"
    "\<And>d. apply_act jid a (g\<lparr>gw_disp := d\<rparr>) = Inr (g1\<lparr>gw_disp := (submit_end ^^ j) d\<rparr>)"
    using apply_act_disp [OF g1(1)] by blast
  obtain k where k: "gw_disp g' = (submit_end ^^ k) (gw_disp g1)"
    "\<And>d. apply_acts jid as (g1\<lparr>gw_disp := d\<rparr>) = Inr (g'\<lparr>gw_disp := (submit_end ^^ k) d\<rparr>)"
    using Cons.IH [OF g1(2)] by blast
  have "gw_disp g' = (submit_end ^^ (k + j)) (gw_disp g)" using j(1) k(1) by (simp add: funpow_add)
  moreover have "apply_acts jid (a # as) (g\<lparr>gw_disp := d\<rparr>) = Inr (g'\<lparr>gw_disp := (submit_end ^^ (k + j)) d\<rparr>)" for d
    using j(2) [of d] k(2) [of "(submit_end ^^ j) d"] by (simp add: funpow_add)
  ultimately show ?case by blast
qed

lemma runner_step_any_disp:
  assumes "runner_step i g = Inr g'"
  shows "\<exists>k. gw_disp g' = (submit_end ^^ k) (gw_disp g) \<and>
    (\<forall>d. runner_step i (g\<lparr>gw_disp := d\<rparr>) = Inr (g'\<lparr>gw_disp := (submit_end ^^ k) d\<rparr>))"
proof (cases "r_worker (gw_jobs g)")
  case None
  then show ?thesis using assms by (intro exI [of _ 0]) (auto simp: runner_step_def)
next
  case (Some th)
  let ?st = "job_step (r_running (gw_jobs g)) (r_baudrate (gw_jobs g)) i th"
  have "apply_acts (jt_id th) (fst ?st) (with_worker (snd ?st) g) = Inr g'"
    using assms Some by (simp add: runner_step_def split_def Let_def)
  moreover have "runner_step i (g\<lparr>gw_disp := d\<rparr>) =
      apply_acts (jt_id th) (fst ?st) ((with_worker (snd ?st) g)\<lparr>gw_disp := d\<rparr>)" for d
    using Some by (cases g) (simp add: runner_step_def split_def Let_def)
  ultimately show ?thesis using apply_acts_disp by fastforce
qed

text \<open>A dispatcher that was at rest on a RUNNING core, and has been told \<open>m\<close> ends of jobs since.\<close>

fun told_end :: "worker_pc \<Rightarrow> Task list \<Rightarrow> State \<Rightarrow> bool" where
  "told_end Waiting [] st \<longleftrightarrow> st = INIT"
| "told_end Waiting [t] st \<longleftrightarrow> task_kind t = FINISH_JOB \<and> st = RUNNING"
| "told_end (GotTask t) [] st \<longleftrightarrow> task_kind t = FINISH_JOB \<and> st = RUNNING"
| "told_end (Ran t r) [] st \<longleftrightarrow> st = INIT"
| "told_end _ _ st \<longleftrightarrow> False"

definition ending :: "nat \<Rightarrow> Dispatcher \<Rightarrow> bool" where
  "ending m d \<longleftrightarrow> \<not> d_stopping d \<and>
     (if m = 0 then at_rest d \<and> core_st (d_core d) = RUNNING
      else told_end (d_worker d) (d_q d) (core_st (d_core d)))"

lemma told_end_worker:
  assumes "told_end (d_worker d) (d_q d) (core_st (d_core d))" and "\<not> d_stopping d" and "\<forall>k. \<not> thr k"
  shows "told_end (d_worker (worker_step thr d)) (d_q (worker_step thr d)) (core_st (d_core (worker_step thr d)))"
proof (cases "(d_worker d, d_q d, core_st (d_core d))" rule: told_end.cases)
  case (3 t st)
  then have "task_kind t = FINISH_JOB" "core_st (d_core d) = RUNNING" using assms(1) by simp_all
  then show ?thesis using 3 assms(3)
    by (simp add: worker_step_def run_task_def finish_job_def Let_def split: prod.split)
qed (use assms in \<open>simp_all add: worker_step_def\<close>)

lemma ending_worker: "ending m d \<Longrightarrow> \<forall>k. \<not> thr k \<Longrightarrow> ending m (worker_step thr d)"
  using told_end_worker [of d thr] at_rest_stays [of d 1 thr]
  by (cases "m = 0") (simp_all add: ending_def)

lemma ending_ends: "ending m d \<Longrightarrow> m + k \<le> 1 \<Longrightarrow> ending (m + k) ((submit_end ^^ k) d)"
  by (cases k) (auto simp: ending_def at_rest_def submit_eq new_Task_def)

lemma ending_settles:
  assumes "ending 1 d" and "\<forall>k. \<not> thr k"
  shows "core_st (d_core ((worker_step thr ^^ 3) d)) = INIT"
proof -
  let ?d = "(worker_step thr ^^ 3) d"
  have told: "told_end (d_worker d) (d_q d) (core_st (d_core d))" using assms(1) by (simp add: ending_def)
  then have "d_worker d \<noteq> Exited" "work_left d \<le> 3"
    by (cases "(d_worker d, d_q d, core_st (d_core d))" rule: told_end.cases; simp add: work_left_def)+
  then have "work_left ?d = 0" by (rule worker_steps_done)
  moreover have "ending 1 ((worker_step thr ^^ n) d)" for n
    using assms ending_worker by (induction n) simp_all
  then have "told_end (d_worker ?d) (d_q ?d) (core_st (d_core ?d))" by (simp add: ending_def)
  ultimately show ?thesis
    by (cases "(d_worker ?d, d_q ?d, core_st (d_core ?d))" rule: told_end.cases) (simp_all add: work_left_def)
qed

lemma interleaved:
  assumes "gw_run thr (map GJob (job_inputs fs)) g = Some g'" and "list_all bystander fs" and "\<forall>k. \<not> thr k"
  shows "\<exists>d' k. gw_run thr fs (g\<lparr>gw_disp := d\<rparr>) = Some (g'\<lparr>gw_disp := d'\<rparr>) \<and>
    d_next (gw_disp g') = d_next (gw_disp g) + k \<and>
    (requested fs = [] \<longrightarrow> ending m d \<longrightarrow> m + k \<le> 1 \<longrightarrow> ending (m + k) d')"
  using assms(1,2)
proof (induction fs arbitrary: g d m)
  case Nil
  then show ?case by auto
next
  case (Cons e fs)
  show ?case
  proof (cases "\<exists>i. e = GJob i")
    case True
    then obtain i where i: "e = GJob i" ..
    then obtain g1 where g1: "runner_step i g = Inr g1" "gw_run thr (map GJob (job_inputs fs)) g1 = Some g'"
      using Cons.prems(1) by (auto split: sum.splits)
    obtain j where j: "gw_disp g1 = (submit_end ^^ j) (gw_disp g)"
      "runner_step i (g\<lparr>gw_disp := d\<rparr>) = Inr (g1\<lparr>gw_disp := (submit_end ^^ j) d\<rparr>)"
      using runner_step_any_disp [OF g1(1)] by blast
    obtain d' k where "gw_run thr fs (g1\<lparr>gw_disp := (submit_end ^^ j) d\<rparr>) = Some (g'\<lparr>gw_disp := d'\<rparr>)"
      "d_next (gw_disp g') = d_next (gw_disp g1) + k"
      "requested fs = [] \<longrightarrow> ending (m + j) ((submit_end ^^ j) d) \<longrightarrow> m + j + k \<le> 1 \<longrightarrow> ending (m + j + k) d'"
      using Cons.IH [OF g1(2), of "(submit_end ^^ j) d" "m + j"] Cons.prems(2) by auto
    then have "gw_run thr (e # fs) (g\<lparr>gw_disp := d\<rparr>) = Some (g'\<lparr>gw_disp := d'\<rparr>)"
      "d_next (gw_disp g') = d_next (gw_disp g) + (j + k)"
      "requested (e # fs) = [] \<longrightarrow> ending m d \<longrightarrow> m + (j + k) \<le> 1 \<longrightarrow> ending (m + (j + k)) d'"
      using i j ending_ends [of m d j] d_next_ends by (simp_all add: add.assoc)
    then show ?thesis by blast
  next
    case False
    then have e: "e = GWorker \<or> (\<exists>x. e = GSubmit x)" using Cons.prems(2) by (cases e) auto
    then have p: "gw_run thr (map GJob (job_inputs fs)) g = Some g'" "list_all bystander fs"
      using Cons.prems by auto
    have ih: "\<exists>d' k. gw_run thr fs (g\<lparr>gw_disp := d1\<rparr>) = Some (g'\<lparr>gw_disp := d'\<rparr>) \<and>
        d_next (gw_disp g') = d_next (gw_disp g) + k \<and>
        (requested fs = [] \<longrightarrow> ending m d1 \<longrightarrow> m + k \<le> 1 \<longrightarrow> ending (m + k) d')" for d1
      by (rule Cons.IH [OF p])
    from e show ?thesis
    proof (elim disjE exE)
      assume w: "e = GWorker"
      have "ending m d \<Longrightarrow> ending m (worker_step thr d)" using ending_worker assms(3) by blast
      then show ?thesis using w ih [of "worker_step thr d"] by auto
    next
      fix x assume "e = GSubmit x"
      then show ?thesis using ih [of "snd (submit x d)"] by (auto simp del: submit.simps)
    qed
  qed
qed

text \<open>A job that has just been launched scans the code.\<close>

lemma started_scan_steps:
  assumes "get_job jid (gw_store g1) = Inr r"
    and "r_running (gw_jobs g1)" and "r_worker (gw_jobs g1) = Some (new_thread jid tmo)"
    and "list_all enc_ok ps" and "starts_with ''QR:'' payload" and "CHR 0x00 \<notin> set payload"
    and "sent (snd (client_loop payload ms ps)) = pre @ concat (map delivered (os @ [ob])) @ post"
    and "pre = [] \<or> last pre = 0" and "0 \<in> set (delivered ob)" and "0 \<notin> set (concat (map delivered os))"
    and "\<forall>x \<in> set (os @ [ob]). benign x"
    and "list_all (fruitless (ji_now i0 + tmo * 1000000)) rs"
    and "ji_now i1 < ji_now i0 + tmo * 1000000" and "ji_open i1"
    and "50 * int (passes (os @ [ob])) < time_left (ji_now i0 + tmo * 1000000) i1 + 50"
  shows "\<exists>g'. gw_run thr (map GJob (scan_ins i0 tmo rs i1 (os @ [ob]))) g1 = Some g' \<and>
    jobs (gw_store g') jid = Some (result_of (ASetDone payload)) \<and> gw_disp g' = submit_end (gw_disp g1)"
proof -
  let ?rem = "time_left (ji_now i0 + tmo * 1000000) i1" and ?b = "r_baudrate (gw_jobs g1)"
  let ?p = "payload_bytes payload"
  have rd: "read_loop ?rem [] (os @ [ob]) = Some (True, cobs_enc [] ?p)"
    by (rule emulator_read [OF assms(4,7-11,15)])
  have q: "string_of_bytes ?p = payload" using assms(6) by (rule string_of_payload)
  from job_receives [OF assms(12-14) rd assms(10) cobs_decode_enc] assms(5) q
  obtain io th where io: "list_all io_act io"
    and job: "job_run (scan_steps True ?b i0 tmo rs i1 (os @ [ob])) (new_thread jid tmo) =
      (io @ [AOpen, AConfigure ?b, AClose, ASetDone payload, AClearFlag, ASubmitFinish], th)"
    by fastforce
  obtain g' where a: "apply_acts jid (io @ [AOpen, AConfigure ?b, AClose,
        ASetDone payload, AClearFlag, ASubmitFinish]) g1 = Inr g'"
    and g': "jobs (gw_store g') jid = Some (result_of (ASetDone payload))"
      "gw_disp g' = submit_end (gw_disp g1)"
    using apply_scan [OF assms(1) io] by blast
  obtain th where "gw_run thr (map GJob (scan_ins i0 tmo rs i1 (os @ [ob]))) g1 = Some (with_worker th g')"
    using gw_job_run [OF assms(3), of "scan_ins i0 tmo rs i1 (os @ [ob])" g' thr] assms(2) a job
    unfolding scan_obs [OF assms(12,11)] by (auto simp: new_thread_def)
  then show ?thesis using g' by auto
qed

text \<open>The same with other threads at work: the result is there, and the core is INIT when the worker has caught up.\<close>

lemma started_scan_among:
  assumes "core_st (d_core (gw_disp g1)) = RUNNING" and "get_job jid (gw_store g1) = Inr r"
    and "r_running (gw_jobs g1)" and "r_worker (gw_jobs g1) = Some (new_thread jid tmo)"
    and "at_rest (gw_disp g1)" and "\<forall>k. \<not> thr k"
    and "list_all enc_ok ps" and "starts_with ''QR:'' payload" and "CHR 0x00 \<notin> set payload"
    and "sent (snd (client_loop payload ms ps)) = pre @ concat (map delivered (os @ [ob])) @ post"
    and "pre = [] \<or> last pre = 0" and "0 \<in> set (delivered ob)" and "0 \<notin> set (concat (map delivered os))"
    and "\<forall>x \<in> set (os @ [ob]). benign x"
    and "list_all (fruitless (ji_now i0 + tmo * 1000000)) rs"
    and "ji_now i1 < ji_now i0 + tmo * 1000000" and "ji_open i1"
    and "50 * int (passes (os @ [ob])) < time_left (ji_now i0 + tmo * 1000000) i1 + 50"
    and "job_inputs fs = scan_ins i0 tmo rs i1 (os @ [ob])" and "list_all bystander fs"
  shows "\<exists>g2. gw_run thr fs g1 = Some g2 \<and> jobs (gw_store g2) jid = Some (result_of (ASetDone payload)) \<and>
    (requested fs = [] \<longrightarrow> core_st (d_core ((worker_step thr ^^ 3) (gw_disp g2))) = INIT)"
proof -
  obtain g' where run: "gw_run thr (map GJob (job_inputs fs)) g1 = Some g'"
    and g': "jobs (gw_store g') jid = Some (result_of (ASetDone payload))" "gw_disp g' = submit_end (gw_disp g1)"
    using started_scan_steps [OF assms(2-4,7-18), of thr] assms(19) by auto
  obtain d' k where d': "gw_run thr fs (g1\<lparr>gw_disp := gw_disp g1\<rparr>) = Some (g'\<lparr>gw_disp := d'\<rparr>)"
    "d_next (gw_disp g') = d_next (gw_disp g1) + k"
    "requested fs = [] \<longrightarrow> ending 0 (gw_disp g1) \<longrightarrow> 0 + k \<le> 1 \<longrightarrow> ending (0 + k) d'"
    using interleaved [OF run assms(20,6)] by blast
  have "k = 1" using d'(2) g'(2) d_next_ends [of 1 "gw_disp g1"] by simp
  moreover have "ending 0 (gw_disp g1)" using assms(1,5) by (simp add: ending_def at_rest_def)
  ultimately have "requested fs = [] \<longrightarrow> core_st (d_core ((worker_step thr ^^ 3) d')) = INIT"
    using d'(3) ending_settles assms(6) by simp
  then show ?thesis using d'(1) g'(1) by simp
qed


lemma some_stream:
  "sent (snd (client_loop ''QR:123456'' 2000 [some_pass, some_pass])) =
     concat (replicate 2 (frame_of (payload_bytes ''QR:123456'')))"
proof -
  have l: "length (frame_of (payload_bytes ''QR:123456'')) = 11" and f: "fits_enc ''QR:123456''" by code_simp+
  have "client_loop ''QR:123456'' 2000 ([some_pass, some_pass] @ []) =
      (fst (client_loop ''QR:123456'' 2000 []), concat (replicate (length [some_pass, some_pass])
        [CSend (frame_of (payload_bytes ''QR:123456'')), CSleep (pause_ns 2000)]) @
        snd (client_loop ''QR:123456'' 2000 []))"
    using some_pass_clean(1) by (intro client_loop_cleans [OF _ f]) (simp add: l)
  then show ?thesis
    by (simp only: append_Nil2 snd_conv client_loop.simps(1) sent_cycles) (simp add: eval_nat_numeral)
qed

lemma some_stream_split:
  "sent (snd (client_loop ''QR:123456'' 2000 [some_pass, some_pass])) =
     [10, 0x51, 0x52, 0x3A, 0x31, 0x32, 0x33, 0x34, 0x35, 0x36, 0] @
     concat (map delivered ([ok_obs [10, 0x51, 0x52]] @ [ok_obs [0x3A, 0x31, 0x32, 0x33, 0x34, 0x35, 0x36, 0]])) @ []"
  unfolding some_stream by code_simp

definition scan_events :: "gw_event list" where
  "scan_events = concat (map (\<lambda>i. [GWorker, GJob i]) (scan_ins (quiet_in 0) 3000 [] (quiet_in 5)
     ([ok_obs [10, 0x51, 0x52]] @ [ok_obs [0x3A, 0x31, 0x32, 0x33, 0x34, 0x35, 0x36, 0]])))"

lemma scan_events_shape:
  "job_inputs (concat (map (\<lambda>i. [GWorker, GJob i]) is)) = is"
  "list_all bystander (concat (map (\<lambda>i. [GWorker, GJob i]) is))"
  "requested (concat (map (\<lambda>i. [GWorker, GJob i]) is)) = []"
  by (induction "is") simp_all




text \<open>
  C40: a frame that is too large is not ignored, as \<^verbatim>\<open>docs/PROTOCOL.md\<close> asks; it is cut in two. The
  reader gives it up behind 4096 bytes, and what follows up to its delimiter is a frame of its own to
  the next round: when the tail of the oversized frame happens to be the encoding of a code, the job
  reports DONE with it, although no frame on the line had that content.
\<close>

theorem oversized_frame_is_split:
  assumes "0 \<notin> set (concat (map delivered (os1 @ [ob1])))" and "length (concat (map delivered os1)) \<le> 4096"
    and "4096 < length (concat (map delivered (os1 @ [ob1])))"
    and "cobs_encode p (Some buf) cap = Some (n, Some buf')" and "cap \<le> length buf" and "0 < n" and "n \<le> 4096"
    and "starts_with ''QR:'' (string_of_bytes p)" and "0 \<notin> set (concat (map delivered os2))"
    and "concat (map delivered (os2 @ [ob2])) = take n buf' @ [0]"
    and "\<forall>x \<in> set (os1 @ [ob1]) \<union> set (os2 @ [ob2]). benign x"
    and "ji_now i1 < ji_now i0 + tmo * 1000000" and "ji_open i1"
    and "50 * int (passes (os1 @ [ob1])) < time_left (ji_now i0 + tmo * 1000000) i1"
    and "ji_now i2 < ji_now i0 + tmo * 1000000" and "ji_open i2"
    and "50 * int (passes (os2 @ [ob2])) < time_left (ji_now i0 + tmo * 1000000) i2 + 50"
  shows "\<exists>frame io th. concat (map delivered (os1 @ [ob1] @ os2 @ [ob2])) = frame @ [0] \<and>
    0 \<notin> set frame \<and> 4096 < length frame \<and> list_all io_act io \<and> jt_pc th = JExited \<and>
    job_run (scan_steps r0 b i0 tmo [Reads i1 os1 ob1] i2 (os2 @ [ob2])) (new_thread jid tmo) =
      (io @ [AOpen, AConfigure b, AClose, ASetDone (string_of_bytes p), AClearFlag, ASubmitFinish], th)"
proof -
  let ?d = "ji_now i0 + tmo * 1000000" and ?frame = "concat (map delivered (os1 @ [ob1])) @ take n buf'"
  have rd: "read_loop (time_left ?d i2) [] (os2 @ [ob2]) = Some (True, take n buf') \<and>
      cobs_decode (take n buf') = Some (True, p)"
    using assms(4-7,10,11,17) by (intro scan_frame_read [where rest = "[]"]) auto
  have f: "list_all (fruitless ?d) [Reads i1 os1 ob1]"
    using assms(1-3,11-14) by (auto intro!: oversized_fruitless simp del: fruitless.simps)
  have "take n buf' = cobs_enc [] p"
    using cobs_encode_cases [OF assms(5), of p] assms(4,6) by (metis Pair_inject not_gr_zero option.inject)
  then have "0 \<notin> set ?frame" using assms(1) cobs_enc_no_zero [of "[]" p] by simp
  moreover have "concat (map delivered (os1 @ [ob1] @ os2 @ [ob2])) = ?frame @ [0]" using assms(10) by simp
  moreover have "4096 < length ?frame" using assms(3) by simp
  ultimately show ?thesis
    using job_receives [OF f assms(15,16) conjunct1 [OF rd] assms(9) conjunct2 [OF rd] assms(8)] by blast
qed

definition big_read :: io_obs where
  "big_read = ok_obs (replicate 256 1)"

lemma ok_obs_facts: "bs \<noteq> [] \<Longrightarrow> benign (ok_obs bs)" "delivered (ok_obs bs) = bs" "\<not> interrupted (ok_obs bs)"
  by (simp_all add: ok_obs_def benign_def delivered_def got_bytes_def interrupted_def)

lemma big_reads:
  "concat (map delivered (replicate k big_read)) = replicate (k * 256) 1"
  "length (filter (\<lambda>x. \<not> interrupted x) (replicate k big_read)) = k"
  by (induction k) (simp_all add: big_read_def ok_obs_facts replicate_add)

theorem oversized_frame_is_split_witness:
  "\<exists>frame io th. concat (map delivered (replicate 16 big_read @ [ok_obs [1]] @
      [ok_obs [5, 0x51]] @ [ok_obs [0x52, 0x3A, 0x31, 0]])) = frame @ [0] \<and>
    0 \<notin> set frame \<and> 4096 < length frame \<and> list_all io_act io \<and> jt_pc th = JExited \<and>
    job_run (scan_steps True 9600 (quiet_in 0) 3000 [Reads (quiet_in 5) (replicate 16 big_read) (ok_obs [1])]
      (quiet_in 6) ([ok_obs [5, 0x51]] @ [ok_obs [0x52, 0x3A, 0x31, 0]])) (new_thread ''0badcafe'' 3000) =
      (io @ [AOpen, AConfigure 9600, AClose, ASetDone (string_of_bytes [0x51, 0x52, 0x3A, 0x31]),
       AClearFlag, ASubmitFinish], th)"
proof (rule oversized_frame_is_split [where buf = "replicate 8 0" and cap = 8 and n = 5
      and buf' = "[5, 0x51, 0x52, 0x3A, 0x31, 0, 0, 0]"])
  show "cobs_encode [0x51, 0x52, 0x3A, 0x31] (Some (replicate 8 0)) 8 =
      Some (5, Some [5, 0x51, 0x52, 0x3A, 0x31, 0, 0, 0])" by code_simp
  show "starts_with ''QR:'' (string_of_bytes [0x51, 0x52, 0x3A, 0x31])" by code_simp
qed (auto simp: ok_obs_facts big_reads big_read_def [symmetric] quiet_in_def time_left_def simp del: map_replicate
    intro!: ok_obs_facts(1) [of "replicate 256 1", folded big_read_def])

end
