(* ===== verification/Mqtt_Bridge.thy ===== *)
theory Mqtt_Bridge
  imports Rest_Server End_To_End
begin

text \<open>
  \<^verbatim>\<open>gateway-py/gateway.py\<close>: the bridge between the cloud and the service. A message on the command
  topic is checked and answered at once or handed to a thread of its own, which calls the REST API
  and publishes what it learns on the event topic. The messages and events are Python values; text
  is ASCII. What a thread sees of its surroundings, the \<^verbatim>\<open>requests\<close> library, the clock and
  \<^verbatim>\<open>sleep\<close>, is a record of operations on a world of any type; the second half of the theory
  instantiates it with the model of the service.
\<close>

section \<open>Python values\<close>

datatype pyval =
    PNone | PBool bool | PInt int | PFloat dbl | PStr string | PList "pyval list"
  | PDict "(string \<times> pyval) list"

datatype py_exn = AttributeError | TypeError | ValueError | OverflowError

text \<open>\<^verbatim>\<open>d.get(k, default)\<close>; only a dictionary has the method.\<close>

fun py_get :: "pyval \<Rightarrow> string \<Rightarrow> pyval \<Rightarrow> py_exn + pyval" where
  "py_get (PDict kvs) k defv = Inr (case map_of kvs k of None \<Rightarrow> defv | Some v \<Rightarrow> v)"
| "py_get _ k defv = Inl AttributeError"

text \<open>\<^verbatim>\<open>k in d\<close> for a dictionary.\<close>

fun py_has :: "pyval \<Rightarrow> string \<Rightarrow> bool" where
  "py_has (PDict kvs) k = (map_of kvs k \<noteq> None)"
| "py_has _ k = False"

fun py_is_dict :: "pyval \<Rightarrow> bool" where
  "py_is_dict (PDict kvs) = True" | "py_is_dict _ = False"

text \<open>A boolean is an \<^verbatim>\<open>int\<close> to \<^verbatim>\<open>isinstance\<close>.\<close>

fun py_as_int :: "pyval \<Rightarrow> int option" where
  "py_as_int (PInt n) = Some n"
| "py_as_int (PBool b) = Some (if b then 1 else 0)"
| "py_as_int _ = None"

fun py_false :: "pyval \<Rightarrow> bool" where
  "py_false PNone = True"
| "py_false (PBool b) = (\<not> b)"
| "py_false (PInt n) = (n = 0)"
| "py_false (PFloat d) = (case d of Finite m e \<Rightarrow> m = 0 | _ \<Rightarrow> False)"
| "py_false (PStr s) = (s = [])"
| "py_false (PList vs) = (vs = [])"
| "py_false (PDict kvs) = (kvs = [])"

subsection \<open>Text\<close>

definition py_isspace :: "char \<Rightarrow> bool" where
  "py_isspace c = (let n = (of_char c :: nat) in 9 \<le> n \<and> n \<le> 13 \<or> 28 \<le> n \<and> n \<le> 32)"

definition py_strip :: "string \<Rightarrow> string" where
  "py_strip s = rev (dropWhile py_isspace (rev (dropWhile py_isspace s)))"

definition py_upper :: "string \<Rightarrow> string" where
  "py_upper s = map toupper_char s"

definition tolower_char :: "char \<Rightarrow> char" where
  "tolower_char c =
     (let n = (of_char c :: nat) in if 65 \<le> n \<and> n \<le> 90 then char_of (n + 32) else c)"

definition py_lower :: "string \<Rightarrow> string" where
  "py_lower s = map tolower_char s"

fun nat_str :: "nat \<Rightarrow> string" where
  "nat_str n = (if n < 10 then [char_of (n + 48)] else nat_str (n div 10) @ [char_of (n mod 10 + 48)])"

declare nat_str.simps [simp del]

definition int_str :: "int \<Rightarrow> string" where
  "int_str n = (if n < 0 then CHR ''-'' # nat_str (nat (- n)) else nat_str (nat n))"

text \<open>\<^verbatim>\<open>str(v)\<close>; \<open>rp\<close> is what the interpreter prints for a float, a list or a dictionary.\<close>

fun py_str :: "(pyval \<Rightarrow> string) \<Rightarrow> pyval \<Rightarrow> string" where
  "py_str rp (PStr s) = s"
| "py_str rp PNone = ''None''"
| "py_str rp (PBool b) = (if b then ''True'' else ''False'')"
| "py_str rp (PInt n) = int_str n"
| "py_str rp v = rp v"

text \<open>
  \<^verbatim>\<open>int(s)\<close> of a string: white space around, a sign, and at most 4300 digits which may be grouped
  by single underscores. \<open>prev\<close>: the character before is a digit.
\<close>

fun py_digits :: "string \<Rightarrow> bool \<Rightarrow> nat \<Rightarrow> int \<Rightarrow> int option" where
  "py_digits [] prev k acc = (if prev \<and> k \<le> 4300 then Some acc else None)"
| "py_digits (c # cs) prev k acc =
     (let n = (of_char c :: nat)
      in if 48 \<le> n \<and> n \<le> 57 then py_digits cs True (Suc k) (10 * acc + int (n - 48))
         else if c = CHR ''_'' \<and> prev \<and> cs \<noteq> [] then py_digits cs False k acc
         else None)"

definition py_int_str :: "string \<Rightarrow> int option" where
  "py_int_str s =
     (case py_strip s of
        [] \<Rightarrow> None
      | c # cs \<Rightarrow>
          if c = CHR ''-'' then map_option uminus (py_digits cs False 0 0)
          else if c = CHR ''+'' then py_digits cs False 0 0
          else py_digits (c # cs) False 0 0)"

text \<open>\<^verbatim>\<open>int(v)\<close>: a float is cut towards zero.\<close>

fun py_int :: "pyval \<Rightarrow> py_exn + int" where
  "py_int (PInt n) = Inr n"
| "py_int (PBool b) = Inr (if b then 1 else 0)"
| "py_int (PFloat d) =
     (case d of
        Finite m e \<Rightarrow> Inr (if 0 \<le> e then m * 2 ^ nat e else sgn m * (\<bar>m\<bar> div 2 ^ nat (- e)))
      | Infinite neg \<Rightarrow> Inl OverflowError
      | NotANumber \<Rightarrow> Inl ValueError)"
| "py_int (PStr s) = (case py_int_str s of None \<Rightarrow> Inl ValueError | Some n \<Rightarrow> Inr n)"
| "py_int _ = Inl TypeError"

section \<open>Configuration\<close>

definition env_str :: "(string \<rightharpoonup> string) \<Rightarrow> string \<Rightarrow> string \<Rightarrow> string" where
  "env_str env name defv = (case env name of None \<Rightarrow> defv | Some v \<Rightarrow> if v \<noteq> [] then v else defv)"

definition env_int :: "(string \<rightharpoonup> string) \<Rightarrow> string \<Rightarrow> int \<Rightarrow> int" where
  "env_int env name defv =
     (case env name of
        None \<Rightarrow> defv
      | Some v \<Rightarrow> if v = [] then defv else (case py_int_str v of None \<Rightarrow> defv | Some n \<Rightarrow> n))"

text \<open>\<open>pf\<close> is \<^verbatim>\<open>float\<close>, \<open>None\<close> where it raises \<^verbatim>\<open>ValueError\<close>.\<close>

definition env_float :: "(string \<Rightarrow> 'f option) \<Rightarrow> (string \<rightharpoonup> string) \<Rightarrow> string \<Rightarrow> 'f \<Rightarrow> 'f" where
  "env_float pf env name defv =
     (case env name of
        None \<Rightarrow> defv
      | Some v \<Rightarrow> if v = [] then defv else (case pf v of None \<Rightarrow> defv | Some x \<Rightarrow> x))"

text \<open>The values a thread uses; times in microseconds.\<close>

record bridge_cfg =
  QR_START_TIMEOUT_MS :: int
  POLL_INTERVAL :: int
  POLL_MAX :: int

definition default_cfg :: bridge_cfg where
  "default_cfg = \<lparr>QR_START_TIMEOUT_MS = 1000, POLL_INTERVAL = 300000, POLL_MAX = 6000000\<rparr>"

section \<open>HTTP\<close>

datatype reply_body = NoContent | NotJson | Json pyval

datatype http_outcome = HttpRaises | HttpReply int reply_body

record 'w ops =
  op_post :: "string \<Rightarrow> pyval \<Rightarrow> 'w \<Rightarrow> http_outcome \<times> 'w"
  op_get :: "string \<Rightarrow> 'w \<Rightarrow> http_outcome \<times> 'w"
  op_time :: "'w \<Rightarrow> int \<times> 'w"
  op_sleep :: "int \<Rightarrow> 'w \<Rightarrow> 'w"

definition safe_json :: "reply_body \<Rightarrow> pyval" where
  "safe_json b = (case b of NoContent \<Rightarrow> PDict [] | NotJson \<Rightarrow> PDict [] | Json v \<Rightarrow> v)"

definition http_result :: "http_outcome \<Rightarrow> int \<times> pyval" where
  "http_result r =
     (case r of
        HttpRaises \<Rightarrow> (0, PDict [(''ok'', PBool False), (''message'', PStr ''ERR:HTTP'')])
      | HttpReply sc b \<Rightarrow> (sc, safe_json b))"

definition http_post :: "'w ops \<Rightarrow> string \<Rightarrow> pyval \<Rightarrow> 'w \<Rightarrow> (int \<times> pyval) \<times> 'w" where
  "http_post ops path body w = (let (r, w') = op_post ops path body w in (http_result r, w'))"

definition http_get :: "'w ops \<Rightarrow> string \<Rightarrow> 'w \<Rightarrow> (int \<times> pyval) \<times> 'w" where
  "http_get ops path w = (let (r, w') = op_get ops path w in (http_result r, w'))"

section \<open>Threads\<close>

text \<open>
  A thread publishes events, and ends or dies of an exception. \<open>bind_ex\<close> passes exceptions on.
\<close>

datatype thread_end = Ended | Died py_exn

definition bind_ex :: "'e + 'a \<Rightarrow> ('a \<Rightarrow> 'e + 'b) \<Rightarrow> 'e + 'b" where
  "bind_ex m f = (case m of Inl e \<Rightarrow> Inl e | Inr x \<Rightarrow> f x)"

lemma bind_ex_simps [simp]: "bind_ex (Inl e) f = Inl e" "bind_ex (Inr x) f = f x"
  by (simp_all add: bind_ex_def)

definition command_ack :: "string \<Rightarrow> string \<Rightarrow> int \<Rightarrow> pyval \<Rightarrow> py_exn + pyval" where
  "command_ack cmd_id cmd sc j =
     bind_ex (py_get j ''ok'' (PBool False)) (\<lambda>ok.
     bind_ex (py_get j ''command'' (PStr cmd)) (\<lambda>command.
     bind_ex (py_get j ''state'' PNone) (\<lambda>state.
     bind_ex (py_get j ''message'' (PStr ''ERR'')) (\<lambda>message.
     bind_ex (py_get j ''data'' (PDict [])) (\<lambda>data.
       Inr (PDict [(''id'', PStr cmd_id), (''type'', PStr ''command_ack''), (''http_status'', PInt sc),
         (''ok'', ok), (''command'', command), (''state'', state), (''message'', message),
         (''data'', data)]))))))"

definition publish_or_die :: "py_exn + pyval \<Rightarrow> 'w \<Rightarrow> thread_end \<times> pyval list \<times> 'w" where
  "publish_or_die r w = (case r of Inl e \<Rightarrow> (Died e, [], w) | Inr ev \<Rightarrow> (Ended, [ev], w))"

definition handle_command_sync ::
  "'w ops \<Rightarrow> string \<Rightarrow> string \<Rightarrow> pyval \<Rightarrow> 'w \<Rightarrow> thread_end \<times> pyval list \<times> 'w" where
  "handle_command_sync ops cmd_id cmd params w =
     (let req = PDict ((''command'', PStr cmd) # (if params \<noteq> PNone then [(''params'', params)] else []));
          ((sc, j), w') = http_post ops ''/command'' req w
      in publish_or_die (command_ack cmd_id cmd sc j) w')"

definition stop_ack :: "string \<Rightarrow> int \<Rightarrow> pyval \<Rightarrow> py_exn + pyval" where
  "stop_ack cmd_id sc j =
     bind_ex (py_get j ''ok'' (PBool False)) (\<lambda>ok.
     bind_ex (py_get j ''state'' PNone) (\<lambda>state.
     bind_ex (py_get j ''message'' (PStr ''ERR'')) (\<lambda>message.
       Inr (PDict [(''id'', PStr cmd_id), (''type'', PStr ''stop_ack''), (''http_status'', PInt sc),
         (''ok'', ok), (''state'', state), (''message'', message)]))))"

definition bridge_stop :: "'w ops \<Rightarrow> string \<Rightarrow> 'w \<Rightarrow> thread_end \<times> pyval list \<times> 'w" where
  "bridge_stop ops cmd_id w =
     (let ((sc, j), w') = http_post ops ''/stop'' (PDict []) w in publish_or_die (stop_ack cmd_id sc j) w')"

definition job_rejected :: "string \<Rightarrow> int \<Rightarrow> pyval \<Rightarrow> py_exn + pyval" where
  "job_rejected cmd_id sc j =
     bind_ex (py_get j ''message'' (PStr ''ERR'')) (\<lambda>message.
       Inr (PDict [(''id'', PStr cmd_id), (''type'', PStr ''job_rejected''), (''http_status'', PInt sc),
         (''ok'', PBool False), (''message'', message)]))"

text \<open>The identifier of the job and the event that announces it.\<close>

definition job_accepted :: "string \<Rightarrow> int \<Rightarrow> pyval \<Rightarrow> py_exn + pyval \<times> pyval" where
  "job_accepted cmd_id sc j =
     bind_ex (py_get j ''jobId'' (PStr [])) (\<lambda>job_id.
     bind_ex (py_get j ''state'' PNone) (\<lambda>state.
     bind_ex (py_get j ''message'' PNone) (\<lambda>message.
       Inr (job_id, PDict [(''id'', PStr cmd_id), (''type'', PStr ''job_accepted''), (''http_status'', PInt sc),
         (''ok'', PBool True), (''jobId'', job_id), (''state'', state), (''message'', message)]))))"

text \<open>What one poll gives: nothing yet, or the event that ends the thread.\<close>

definition poll_answer :: "string \<Rightarrow> pyval \<Rightarrow> int \<Rightarrow> pyval \<Rightarrow> py_exn + pyval option" where
  "poll_answer cmd_id job_id gsc gj =
     (if gsc \<noteq> 200 then Inr None
      else bind_ex (py_get gj ''status'' PNone) (\<lambda>status.
        if status \<notin> set [PStr ''DONE'', PStr ''TIMEOUT'', PStr ''CANCELLED''] then Inr None
        else bind_ex (py_get gj ''message'' PNone) (\<lambda>message.
             bind_ex (py_get gj ''state'' PNone) (\<lambda>state.
             bind_ex (py_get gj ''data'' PNone) (\<lambda>data0.
             (let data = (if py_false data0 then PDict [] else data0);
                  out = [(''id'', PStr cmd_id), (''type'', PStr ''job_result''), (''http_status'', PInt gsc),
                    (''ok'', PBool True), (''jobId'', job_id), (''status'', status), (''message'', message),
                    (''state'', state)]
              in if py_is_dict data \<and> py_has data ''qr''
                 then bind_ex (py_get data ''qr'' PNone) (\<lambda>qr. Inr (Some (PDict (out @ [(''qr'', qr)]))))
                 else Inr (Some (PDict out))))))))"

definition poll_timeout :: "string \<Rightarrow> pyval \<Rightarrow> pyval" where
  "poll_timeout cmd_id job_id =
     PDict [(''id'', PStr cmd_id), (''type'', PStr ''job_result''), (''ok'', PBool False), (''jobId'', job_id),
       (''status'', PStr ''TIMEOUT''), (''message'', PStr ''ERR:POLL_TIMEOUT'')]"

text \<open>
  The polling loop, for at most the given number of turns; \<open>None\<close>: it is still polling. \<^verbatim>\<open>sleep\<close>
  raises on a negative interval.
\<close>

fun poll_loop ::
  "'w ops \<Rightarrow> (pyval \<Rightarrow> string) \<Rightarrow> bridge_cfg \<Rightarrow> nat \<Rightarrow> string \<Rightarrow> pyval \<Rightarrow> int \<Rightarrow> 'w
     \<Rightarrow> (thread_end \<times> pyval list \<times> 'w) option" where
  "poll_loop ops rp cfg 0 cmd_id job_id deadline w = None"
| "poll_loop ops rp cfg (Suc n) cmd_id job_id deadline w =
     (let (now, w1) = op_time ops w
      in if \<not> now < deadline then Some (Ended, [poll_timeout cmd_id job_id], w1)
         else (let ((gsc, gj), w2) = http_get ops (''/result/'' @ py_str rp job_id) w1
               in case poll_answer cmd_id job_id gsc gj of
                    Inl e \<Rightarrow> Some (Died e, [], w2)
                  | Inr (Some out) \<Rightarrow> Some (Ended, [out], w2)
                  | Inr None \<Rightarrow>
                      if POLL_INTERVAL cfg < 0 then Some (Died ValueError, [], w2)
                      else poll_loop ops rp cfg n cmd_id job_id deadline (op_sleep ops (POLL_INTERVAL cfg) w2)))"

definition handle_start_and_poll ::
  "'w ops \<Rightarrow> (pyval \<Rightarrow> string) \<Rightarrow> bridge_cfg \<Rightarrow> nat \<Rightarrow> string \<Rightarrow> int \<Rightarrow> 'w
     \<Rightarrow> (thread_end \<times> pyval list \<times> 'w) option" where
  "handle_start_and_poll ops rp cfg n cmd_id timeout_ms w =
     (let ((sc, j), w1) = http_post ops ''/start'' (PDict [(''timeout_ms'', PInt timeout_ms)]) w
      in if sc \<noteq> 202 then Some (publish_or_die (job_rejected cmd_id sc j) w1)
         else (case job_accepted cmd_id sc j of
                 Inl e \<Rightarrow> Some (Died e, [], w1)
               | Inr (job_id, ev) \<Rightarrow>
                   (let (now, w2) = op_time ops w1
                    in case poll_loop ops rp cfg n cmd_id job_id (now + POLL_MAX cfg) w2 of
                         None \<Rightarrow> None
                       | Some (en, evs, w3) \<Rightarrow> Some (en, ev # evs, w3))))"

section \<open>Messages\<close>

definition normalize_cmd :: "string \<Rightarrow> string" where
  "normalize_cmd cmd = py_upper (py_strip cmd)"

text \<open>\<open>now_ms\<close>: the time in milliseconds, which makes the identifier of a message without one.\<close>

definition make_cmd_id :: "(pyval \<Rightarrow> string) \<Rightarrow> int \<Rightarrow> pyval \<Rightarrow> py_exn + string" where
  "make_cmd_id rp now_ms data =
     bind_ex (py_get data ''id'' (PStr [])) (\<lambda>v.
       (let cid = py_strip (py_str rp v)
        in Inr (if cid \<noteq> [] then cid else ''cmd-'' @ int_str now_ms)))"

definition bad_int_param :: "pyval \<Rightarrow> string \<Rightarrow> (int \<Rightarrow> bool) \<Rightarrow> bool" where
  "bad_int_param params key ok =
     (py_has params key \<and>
        (case py_get params key PNone of
           Inl e \<Rightarrow> True
         | Inr v \<Rightarrow> (case py_as_int v of None \<Rightarrow> True | Some n \<Rightarrow> \<not> ok n)))"

definition validate_params :: "pyval \<Rightarrow> string option" where
  "validate_params params =
     (if params = PNone then None
      else if bad_int_param params ''baudrate'' (\<lambda>br. 1 \<le> br \<and> br \<le> 2000000) then Some ''ERR:BAD_REQUEST''
      else if bad_int_param params ''timeout_ms'' (\<lambda>tmo. 0 < tmo) then Some ''ERR:BAD_REQUEST''
      else None)"

text \<open>The threads \<^verbatim>\<open>dispatch_in_thread\<close> starts.\<close>

datatype bridge_thread =
    StartThread string int | StopThread string | CommandThread string string pyval

definition error_event :: "string \<Rightarrow> string \<Rightarrow> pyval" where
  "error_event cmd_id m = PDict [(''id'', PStr cmd_id), (''type'', PStr ''error''), (''message'', PStr m)]"

definition on_command ::
  "(pyval \<Rightarrow> string) \<Rightarrow> bridge_cfg \<Rightarrow> string \<Rightarrow> pyval \<Rightarrow> py_exn + pyval list \<times> bridge_thread option" where
  "on_command rp cfg cmd_id data =
     bind_ex (py_get data ''command'' (PStr [])) (\<lambda>c.
     (let cmd = normalize_cmd (py_str rp c)
      in if cmd = [] then Inr ([error_event cmd_id ''ERR:BAD_REQUEST''], None)
         else bind_ex (py_get data ''params'' PNone) (\<lambda>params.
           if params \<noteq> PNone \<and> \<not> py_is_dict params then Inr ([error_event cmd_id ''ERR:BAD_REQUEST''], None)
           else (case validate_params params of
                   Some err \<Rightarrow> Inr ([error_event cmd_id err], None)
                 | None \<Rightarrow>
                     if cmd = ''START''
                     then bind_ex (py_get data ''timeout_ms'' (PInt (QR_START_TIMEOUT_MS cfg))) (\<lambda>t.
                          bind_ex (py_int t) (\<lambda>timeout_ms. Inr ([], Some (StartThread cmd_id timeout_ms))))
                     else if cmd = ''STOP'' then Inr ([], Some (StopThread cmd_id))
                     else Inr ([], Some (CommandThread cmd_id cmd params))))))"

definition on_data ::
  "(pyval \<Rightarrow> string) \<Rightarrow> bridge_cfg \<Rightarrow> int \<Rightarrow> pyval \<Rightarrow> py_exn + pyval list \<times> bridge_thread option" where
  "on_data rp cfg now_ms data =
     bind_ex (py_get data ''type'' (PStr ''command'')) (\<lambda>ty.
     bind_ex (make_cmd_id rp now_ms data) (\<lambda>cmd_id.
     (let msg_type = py_lower (py_strip (py_str rp ty))
      in if msg_type = ''command'' then on_command rp cfg cmd_id data
         else if msg_type = ''start''
         then bind_ex (py_get data ''timeout_ms'' (PInt (QR_START_TIMEOUT_MS cfg))) (\<lambda>t.
              bind_ex (py_int t) (\<lambda>timeout_ms. Inr ([], Some (StartThread cmd_id timeout_ms))))
         else if msg_type = ''stop'' then Inr ([], Some (StopThread cmd_id))
         else Inr ([error_event cmd_id ''ERR:UNKNOWN_MESSAGE_TYPE''], None))))"

text \<open>
  \<open>loads\<close> is \<^verbatim>\<open>json.loads\<close>. Whatever is raised is caught; then nothing has been published and no
  thread started.
\<close>

definition on_message ::
  "(string \<Rightarrow> py_exn + pyval) \<Rightarrow> (pyval \<Rightarrow> string) \<Rightarrow> bridge_cfg \<Rightarrow> int \<Rightarrow> string
     \<Rightarrow> pyval list \<times> bridge_thread option" where
  "on_message loads rp cfg now_ms payload =
     (case bind_ex (if payload \<noteq> [] then loads payload else Inr (PDict [])) (on_data rp cfg now_ms) of
        Inl e \<Rightarrow> ([PDict [(''type'', PStr ''error''), (''message'', PStr ''ERR:INTERNAL'')]], None)
      | Inr out \<Rightarrow> out)"

fun run_thread ::
  "'w ops \<Rightarrow> (pyval \<Rightarrow> string) \<Rightarrow> bridge_cfg \<Rightarrow> nat \<Rightarrow> bridge_thread \<Rightarrow> 'w
     \<Rightarrow> (thread_end \<times> pyval list \<times> 'w) option" where
  "run_thread ops rp cfg n (StartThread cmd_id timeout_ms) w =
     handle_start_and_poll ops rp cfg n cmd_id timeout_ms w"
| "run_thread ops rp cfg n (StopThread cmd_id) w = Some (bridge_stop ops cmd_id w)"
| "run_thread ops rp cfg n (CommandThread cmd_id cmd params) w =
     Some (handle_command_sync ops cmd_id cmd params w)"

section \<open>The interface to the service\<close>

text \<open>
  What the bridge relies on: the clock does not go back and a sleep lasts at least as long as asked;
  the bodies of the service are JSON objects.
\<close>

fun object_reply :: "http_outcome \<Rightarrow> bool" where
  "object_reply (HttpReply sc (Json v)) = py_is_dict v"
| "object_reply _ = True"

locale rest_api =
  fixes ops :: "'w ops" and clock :: "'w \<Rightarrow> int"
  assumes time_reads: "fst (op_time ops w) = clock w" "clock w \<le> clock (snd (op_time ops w))"
    and get_time: "clock w \<le> clock (snd (op_get ops path w))"
    and sleep_time: "0 \<le> d \<Longrightarrow> clock w + d \<le> clock (op_sleep ops d w)"
    and post_object: "object_reply (fst (op_post ops path body w))"
    and get_object: "object_reply (fst (op_get ops path w))"

definition event_for :: "string \<Rightarrow> pyval \<Rightarrow> bool" where
  "event_for cid ev \<longleftrightarrow> py_get ev ''id'' PNone = Inr (PStr cid)"

fun thread_id :: "bridge_thread \<Rightarrow> string" where
  "thread_id (StartThread cid tmo) = cid"
| "thread_id (StopThread cid) = cid"
| "thread_id (CommandThread cid cmd params) = cid"

lemma http_result_dict: "object_reply r \<Longrightarrow> \<exists>kvs. snd (http_result r) = PDict kvs"
proof (cases r)
  case (HttpReply sc b)
  assume "object_reply r"
  then show ?thesis using HttpReply
    by (cases b) (auto simp: http_result_def safe_json_def elim: py_is_dict.elims)
qed (simp add: http_result_def)

text \<open>The events of a thread whose replies are objects.\<close>

lemma command_ack_dict: "\<exists>ev. command_ack cid cmd sc (PDict kvs) = Inr ev \<and> event_for cid ev"
  and stop_ack_dict: "\<exists>ev. stop_ack cid sc (PDict kvs) = Inr ev \<and> event_for cid ev"
  and job_rejected_dict: "\<exists>ev. job_rejected cid sc (PDict kvs) = Inr ev \<and> event_for cid ev"
  and job_accepted_dict: "\<exists>jid ev. job_accepted cid sc (PDict kvs) = Inr (jid, ev) \<and> event_for cid ev"
  by (simp_all add: command_ack_def stop_ack_def job_rejected_def job_accepted_def event_for_def)

lemma poll_answer_dict:
  "\<exists>out. poll_answer cid jid sc (PDict kvs) = Inr out \<and> (\<forall>ev. out = Some ev \<longrightarrow> event_for cid ev)"
  by (cases "case map_of kvs ''data'' of None \<Rightarrow> PNone | Some v \<Rightarrow> v")
    (simp_all add: poll_answer_def Let_def event_for_def)

lemma poll_timeout_for: "event_for cid (poll_timeout cid jid)"
  by (simp add: event_for_def poll_timeout_def)

context rest_api
begin

lemma poll_ends:
  assumes "0 < POLL_INTERVAL cfg" and "deadline \<le> clock w + int n * POLL_INTERVAL cfg"
  shows "\<exists>ev w'. poll_loop ops rp cfg (Suc n) cid jid deadline w = Some (Ended, [ev], w') \<and> event_for cid ev"
  using assms(2)
proof (induction n arbitrary: w)
  case 0
  then show ?case using time_reads(1) [of w] poll_timeout_for by (simp add: split_def)
next
  case (Suc n)
  obtain now w1 where t: "op_time ops w = (now, w1)" by (cases "op_time ops w")
  then have now: "now = clock w" "clock w \<le> clock w1" using time_reads [of w] by simp_all
  obtain r w2 where g: "op_get ops (''/result/'' @ py_str rp jid) w1 = (r, w2)"
    by (cases "op_get ops (''/result/'' @ py_str rp jid) w1")
  obtain sc kvs where hr: "http_result r = (sc, PDict kvs)"
    using http_result_dict [of r] get_object [of "''/result/'' @ py_str rp jid" w1] g by (cases "http_result r") auto
  obtain out where out: "poll_answer cid jid sc (PDict kvs) = Inr out" "\<forall>ev. out = Some ev \<longrightarrow> event_for cid ev"
    using poll_answer_dict by blast
  have "clock w1 \<le> clock w2" using get_time [of w1 "''/result/'' @ py_str rp jid"] g by simp
  then have c: "clock w + POLL_INTERVAL cfg \<le> clock (op_sleep ops (POLL_INTERVAL cfg) w2)"
    using sleep_time [of "POLL_INTERVAL cfg" w2] now(2) assms(1) by linarith
  have "deadline \<le> clock (op_sleep ops (POLL_INTERVAL cfg) w2) + int n * POLL_INTERVAL cfg"
    using Suc.prems c by (simp add: algebra_simps)
  from Suc.IH [OF this] show ?case
    using t g hr out poll_timeout_for assms(1)
    by (subst poll_loop.simps(2)) (auto simp: http_get_def split: option.splits)
qed

lemma start_ends:
  assumes "0 < POLL_INTERVAL cfg" and "POLL_MAX cfg \<le> int n * POLL_INTERVAL cfg"
  shows "\<exists>evs w'. handle_start_and_poll ops rp cfg (Suc n) cid tmo w = Some (Ended, evs, w') \<and>
    length evs \<in> {1, 2} \<and> list_all (event_for cid) evs"
proof -
  let ?body = "PDict [(''timeout_ms'', PInt tmo)]"
  obtain r w1 where p: "op_post ops ''/start'' ?body w = (r, w1)" by (cases "op_post ops ''/start'' ?body w")
  obtain sc kvs where hr: "http_result r = (sc, PDict kvs)"
    using http_result_dict [of r] post_object [of "''/start''" ?body w] p by (cases "http_result r") auto
  obtain now w2 where t: "op_time ops w1 = (now, w2)" by (cases "op_time ops w1")
  then have "now = clock w1" "clock w1 \<le> clock w2" using time_reads [of w1] by simp_all
  then have d: "now + POLL_MAX cfg \<le> clock w2 + int n * POLL_INTERVAL cfg" using assms(2) by linarith
  obtain jid ev where a: "job_accepted cid sc (PDict kvs) = Inr (jid, ev)" "event_for cid ev"
    using job_accepted_dict by blast
  obtain ev' where rj: "job_rejected cid sc (PDict kvs) = Inr ev'" "event_for cid ev'"
    using job_rejected_dict by blast
  from poll_ends [OF assms(1) d, of rp cid jid] show ?thesis
    using p hr t a rj by (auto simp: handle_start_and_poll_def http_post_def publish_or_die_def)
qed

lemma thread_ends:
  assumes "0 < POLL_INTERVAL cfg" and "POLL_MAX cfg \<le> int n * POLL_INTERVAL cfg"
  shows "\<exists>evs w'. run_thread ops rp cfg (Suc n) t w = Some (Ended, evs, w') \<and>
    length evs \<in> {1, 2} \<and> list_all (event_for (thread_id t)) evs"
proof -
  have d: "\<exists>sc kvs. http_post ops path body w = ((sc, PDict kvs), snd (op_post ops path body w))" for path body
    using http_result_dict [OF post_object [of path body w]]
    by (cases "http_result (fst (op_post ops path body w))") (auto simp: http_post_def split_def)
  show ?thesis
  proof (cases t)
    case (StartThread cid tmo)
    then show ?thesis using start_ends [OF assms] by simp
  next
    case (StopThread cid)
    obtain sc kvs where p: "http_post ops ''/stop'' (PDict []) w = ((sc, PDict kvs), snd (op_post ops ''/stop'' (PDict []) w))"
      using d by blast
    obtain ev where "stop_ack cid sc (PDict kvs) = Inr ev" "event_for cid ev" using stop_ack_dict by blast
    then show ?thesis using StopThread p by (simp add: bridge_stop_def publish_or_die_def)
  next
    case (CommandThread cid cmd params)
    let ?req = "PDict ((''command'', PStr cmd) # (if params \<noteq> PNone then [(''params'', params)] else []))"
    obtain sc kvs where p: "http_post ops ''/command'' ?req w = ((sc, PDict kvs), snd (op_post ops ''/command'' ?req w))"
      using d by blast
    obtain ev where "command_ack cid cmd sc (PDict kvs) = Inr ev" "event_for cid ev"
      using command_ack_dict by blast
    then show ?thesis using CommandThread p by (simp add: handle_command_sync_def publish_or_die_def Let_def)
  qed
qed

end

section \<open>The service behind the bridge\<close>

text \<open>
  The world of a bridge that talks to the modelled service: the gateway, the clock, and what happens
  next on its own. Before the service looks at a request, and during a sleep, some time passes and
  any events of the gateway take place: steps of its threads and the calls of other clients.
\<close>

record svc_world =
  wd_gw :: Gateway
  wd_now :: int
  wd_script :: "(nat \<times> gw_event list) list"

definition pass :: "(nat \<Rightarrow> bool) \<Rightarrow> svc_world \<Rightarrow> svc_world" where
  "pass thr w =
     (case wd_script w of
        [] \<Rightarrow> w
      | (dt, es) # rest \<Rightarrow>
          \<lparr>wd_gw = (case gw_run thr es (wd_gw w) of None \<Rightarrow> wd_gw w | Some g \<Rightarrow> g),
           wd_now = wd_now w + int dt, wd_script = rest\<rparr>)"

text \<open>Response bodies as Python reads them back.\<close>

fun py_of :: "wvalue \<Rightarrow> pyval" where
  "py_of WNull = PNone"
| "py_of (WBool b) = PBool b"
| "py_of (WStr s) = PStr s"
| "py_of (WObj kvs) = PDict (map (\<lambda>(k, v). (k, py_of v)) kvs)"

text \<open>A request that the service does not answer runs into the timeout of \<^verbatim>\<open>requests\<close>.\<close>

definition served :: "'j rest_env \<Rightarrow> http_request \<Rightarrow> svc_world \<Rightarrow> http_outcome \<times> svc_world" where
  "served e req w =
     (let w1 = pass (re_thr e) w
      in case serve e req (wd_gw w1) of
           Inl x \<Rightarrow> (HttpRaises, w1)
         | Inr (resp, g) \<Rightarrow> (HttpReply (hr_code resp) (Json (py_of (hr_body resp))), w1\<lparr>wd_gw := g\<rparr>))"

text \<open>The paths the bridge uses; \<open>dumps\<close> is \<^verbatim>\<open>json.dumps\<close>.\<close>

definition service_ops :: "'j rest_env \<Rightarrow> (pyval \<Rightarrow> string) \<Rightarrow> svc_world ops" where
  "service_ops e dumps =
     \<lparr>op_post = (\<lambda>path body w.
        if path = ''/command'' then served e (PostCommand (dumps body)) w
        else if path = ''/start'' then served e (PostStart (dumps body)) w
        else if path = ''/stop'' then served e PostStop w
        else (HttpRaises, w)),
      op_get = (\<lambda>path w.
        if starts_with ''/result/'' path then served e (GetResult (drop 8 path)) w else (HttpRaises, w)),
      op_time = (\<lambda>w. (wd_now w, w)),
      op_sleep = (\<lambda>d w. pass (re_thr e) (w\<lparr>wd_now := wd_now w + d\<rparr>))\<rparr>"

lemma pass_time: "wd_now w \<le> wd_now (pass thr w)"
  by (cases "wd_script w") (auto simp: pass_def)

lemma served_time: "wd_now w \<le> wd_now (snd (served e req w))"
  using pass_time [of w "re_thr e"] by (auto simp: served_def Let_def split: sum.splits)

lemma serve_object: "serve e req g = Inr (resp, g') \<Longrightarrow> \<exists>kvs. hr_body resp = WObj kvs"
proof -
  have o: "\<exists>kvs. wset k v w = WObj kvs" for k v w by (cases w) (simp_all add: wset_def)
  assume "serve e req g = Inr (resp, g')"
  then show ?thesis using o
    by (cases req) (auto simp: handle_health_def handle_status_def handle_command_def run_command_def
        handle_start_def handle_result_def handle_stop_def bad_request_def error_response_def
        command_response_def parse_json_object_def json_response_def ensure_data_object_def Let_def
        dest!: parse_command_error split: sum.splits option.splits if_splits)
qed

lemma served_object: "object_reply (fst (served e req w))"
proof (cases "serve e req (wd_gw (pass (re_thr e) w))")
  case (Inr a)
  then obtain resp g where "serve e req (wd_gw (pass (re_thr e) w)) = Inr (resp, g)" by (cases a) auto
  then show ?thesis using serve_object [of e req] by (fastforce simp: served_def Let_def)
qed (simp add: served_def Let_def)

interpretation svc: rest_api "service_ops e dumps" wd_now
proof (unfold_locales)
  show "0 \<le> d \<Longrightarrow> wd_now w + d \<le> wd_now (op_sleep (service_ops e dumps) d w)" for d w
    using pass_time [of "w\<lparr>wd_now := wd_now w + d\<rparr>" "re_thr e"] by (simp add: service_ops_def)
qed (simp_all add: service_ops_def served_time served_object)

text \<open>What the routes of a job answer.\<close>

definition refused :: "http_response \<Rightarrow> bool" where
  "refused resp \<longleftrightarrow> (\<exists>c m. c \<noteq> 202 \<and> resp = error_response c m)"

lemma refused_error [simp]: "refused (error_response c m) \<longleftrightarrow> c \<noteq> 202"
  unfolding refused_def using error_response_simps(1) by metis

lemma start_answer:
  assumes "live thr g" and "handle_start srv cj thr rd s1 s2 b g = Inr (resp, g')"
  shows "(\<exists>st. resp = start_response (gen_id rd) st) \<or> refused resp"
proof -
  have "http_status r \<noteq> 202" if "submit_and_wait thr s1 x g = Inr (Some r, g1)" "\<not> resp_ok r" for x r g1
  proof -
    note sw = that(1)
    have "live thr g1" using live_reaches [OF assms(1)] submit_and_wait_reaches sw by blast
    moreover obtain f where "d_proms (gw_disp g1) f = Some r"
      using sw by (auto simp: submit_and_wait_alt split: sum.splits)
    ultimately show ?thesis using live_prom that(2) by (fastforce simp: good_reply_def)
  qed
  then show ?thesis using assms(2)
    by (auto simp: handle_start_def parse_json_object_def bad_request_def runner_start_def
        split: sum.splits option.splits if_splits)
qed

definition accepted_event :: "string \<Rightarrow> job_id \<Rightarrow> State \<Rightarrow> pyval" where
  "accepted_event cid jid st =
     PDict [(''id'', PStr cid), (''type'', PStr ''job_accepted''), (''http_status'', PInt 202), (''ok'', PBool True),
       (''jobId'', PStr jid), (''state'', PStr (to_string st)), (''message'', PStr ''ACCEPTED'')]"

definition rejected_event :: "string \<Rightarrow> int \<Rightarrow> string \<Rightarrow> pyval" where
  "rejected_event cid c m =
     PDict [(''id'', PStr cid), (''type'', PStr ''job_rejected''), (''http_status'', PInt c), (''ok'', PBool False),
       (''message'', PStr m)]"

definition result_event :: "string \<Rightarrow> job_id \<Rightarrow> JobResult \<Rightarrow> State \<Rightarrow> pyval" where
  "result_event cid jid res st =
     PDict ([(''id'', PStr cid), (''type'', PStr ''job_result''), (''http_status'', PInt 200), (''ok'', PBool True),
       (''jobId'', PStr jid), (''status'', PStr (job_status_to_string (jr_status res))),
       (''message'', PStr (jr_message res)), (''state'', PStr (to_string st))] @
       (case jr_qr res of None \<Rightarrow> [] | Some q \<Rightarrow> [(''qr'', PStr q)]))"

lemma accepted_start: "job_accepted cid 202 (py_of (hr_body (start_response jid st))) =
    Inr (PStr jid, accepted_event cid jid st)"
  by (simp add: job_accepted_def wset_def accepted_event_def json_response_def)

lemma rejected_error: "job_rejected cid c (py_of (hr_body (error_response c m))) = Inr (rejected_event cid c m)"
  by (simp add: job_rejected_def wset_def rejected_event_def json_response_def error_response_def)

lemma poll_result_response:
  "poll_answer cid (PStr jid) 200 (py_of (hr_body (result_response jid res st))) =
     Inr (if jr_status res = PENDING then None else Some (result_event cid jid res st))"
  by (cases "jr_status res"; cases "jr_qr res")
    (simp_all add: poll_answer_def wset_def wget_def result_event_def json_response_def ensure_data_object_def
      job_status_to_string_def Let_def)

text \<open>One poll.\<close>

lemma served_result:
  assumes "served e (GetResult jid) w = (r, w')" and "http_result r = (sc, j)"
    and "poll_answer cid (PStr jid) sc j = Inr (Some ev)"
  shows "\<exists>res. get_job jid (gw_store (wd_gw w')) = Inr res \<and> jr_status res \<noteq> PENDING \<and>
    ev = result_event cid jid res (core_st (d_core (gw_disp (wd_gw w'))))"
proof (cases "get_job jid (gw_store (wd_gw (pass (re_thr e) w)))")
  case (Inl x)
  then show ?thesis using assms
    by (auto simp: served_def Let_def handle_result_def http_result_def poll_answer_def safe_json_def split: if_splits)
next
  case (Inr res)
  let ?g = "wd_gw (pass (re_thr e) w)"
  show ?thesis
  proof (cases "exists_job jid (gw_store ?g)")
    case True
    then have "w' = pass (re_thr e) w"
      "(sc, j) = (200, py_of (hr_body (result_response jid res (core_st (d_core (gw_disp ?g))))))"
      using assms(1,2) Inr by (auto simp: served_def Let_def handle_result_def http_result_def safe_json_def
          json_response_def)
    then show ?thesis using assms(3) Inr poll_result_response [of cid jid res] by (auto split: if_splits)
  next
    case False
    then show ?thesis using assms
      by (auto simp: served_def Let_def handle_result_def http_result_def poll_answer_def safe_json_def)
  qed
qed

lemma poll_loop_result:
  assumes "poll_loop (service_ops e dumps) rp cfg n cid (PStr jid) deadline w = Some (Ended, [ev], w')"
  shows "(\<exists>res. get_job jid (gw_store (wd_gw w')) = Inr res \<and> jr_status res \<noteq> PENDING \<and>
      ev = result_event cid jid res (core_st (d_core (gw_disp (wd_gw w'))))) \<or>
    ev = poll_timeout cid (PStr jid) \<and> deadline \<le> wd_now w'"
  using assms
proof (induction n arbitrary: w)
  case (Suc n)
  let ?path = "''/result/'' @ jid"
  obtain r w2 where s: "served e (GetResult jid) w = (r, w2)" by (cases "served e (GetResult jid) w")
  obtain sc j where hr: "http_result r = (sc, j)" by (cases "http_result r")
  have get: "http_get (service_ops e dumps) ?path w = ((sc, j), w2)"
    using s hr by (simp add: http_get_def service_ops_def starts_with_def)
  have time: "op_time (service_ops e dumps) w = (wd_now w, w)" by (simp add: service_ops_def)
  note l = Suc.prems [unfolded poll_loop.simps(2)]
  show ?case
  proof (cases "wd_now w < deadline")
    case True
    then have l': "(case poll_answer cid (PStr jid) sc j of
        Inl e \<Rightarrow> Some (Died e, [], w2) | Inr (Some out) \<Rightarrow> Some (Ended, [out], w2)
      | Inr None \<Rightarrow> if POLL_INTERVAL cfg < 0 then Some (Died ValueError, [], w2)
          else poll_loop (service_ops e dumps) rp cfg n cid (PStr jid) deadline
            (op_sleep (service_ops e dumps) (POLL_INTERVAL cfg) w2)) = Some (Ended, [ev], w')"
      using l get time by simp
    show ?thesis
    proof (cases "poll_answer cid (PStr jid) sc j")
      case (Inr out)
      then show ?thesis using l' Suc.IH served_result [OF s hr] by (auto split: option.splits if_splits)
    qed (use l' in simp)
  next
    case False
    then show ?thesis using l time by simp
  qed
qed simp

text \<open>The reply to \<^verbatim>\<open>/start\<close> as a thread sees it.\<close>

lemma served_start:
  assumes "live (re_thr e) (wd_gw w)" and "served e (PostStart b) w = (r, w1)"
  shows "(\<exists>st. http_result r = (202, py_of (hr_body (start_response (gen_id (re_rd e)) st)))) \<or>
    (\<exists>c m. c \<noteq> 202 \<and> http_result r = (c, py_of (hr_body (error_response c m))))"
proof -
  let ?w = "pass (re_thr e) w"
  have "live (re_thr e) (wd_gw ?w)"
  proof (cases "wd_script w")
    case (Cons d rest)
    then show ?thesis using assms(1) gw_run_steps live_reaches
      by (cases d; cases "gw_run (re_thr e) (snd d) (wd_gw w)") (fastforce simp: pass_def reaches_def)+
  qed (use assms(1) in \<open>simp add: pass_def\<close>)
  note st = start_answer [OF this]
  show ?thesis
  proof (cases "serve e (PostStart b) (wd_gw ?w)")
    case (Inl x)
    then have "http_result r = (0, py_of (hr_body (error_response 0 ''ERR:HTTP'')))"
      using assms(2) by (auto simp: served_def Let_def http_result_def error_response_def json_response_def wset_def)
    then show ?thesis by (intro disjI2 exI [of _ 0] exI [of _ "''ERR:HTTP''"]) simp
  next
    case (Inr a)
    then obtain resp g where a: "serve e (PostStart b) (wd_gw ?w) = Inr (resp, g)" by (cases a) auto
    then have h: "http_result r = (hr_code resp, py_of (hr_body resp))"
      using assms(2) by (auto simp: served_def Let_def http_result_def safe_json_def)
    have "handle_start (re_srv e) (re_json e) (re_thr e) (re_rd e) (re_s1 e) (re_s2 e) b (wd_gw ?w) = Inr (resp, g)"
      using a by simp
    from st [OF this] show ?thesis unfolding h by (auto simp: refused_def simp del: py_of.simps)
  qed
qed

section \<open>Polls of a quiet service\<close>

text \<open>A poll that nothing interferes with sees what the table holds.\<close>

lemma quiet_poll:
  assumes "wd_script w = (d, []) # rest" and "get_job jid (gw_store (wd_gw w)) = Inr res"
  shows "\<exists>j. http_get (service_ops e dumps) (''/result/'' @ jid) w =
      ((200, j), w\<lparr>wd_now := wd_now w + int d, wd_script := rest\<rparr>) \<and>
    poll_answer cid (PStr jid) 200 j = Inr (if jr_status res = PENDING then None
      else Some (result_event cid jid res (core_st (d_core (gw_disp (wd_gw w))))))"
proof -
  have ps: "pass thr w = w\<lparr>wd_now := wd_now w + int d, wd_script := rest\<rparr>" for thr
    using assms(1) by (simp add: pass_def)
  have "exists_job jid (gw_store (wd_gw w))"
    using assms(2) by (auto simp: store.fetch_look store.has_look split: option.splits)
  then have "http_get (service_ops e dumps) (''/result/'' @ jid) w =
      ((200, py_of (hr_body (result_response jid res (core_st (d_core (gw_disp (wd_gw w))))))),
       w\<lparr>wd_now := wd_now w + int d, wd_script := rest\<rparr>)"
    using assms(2) ps
    by (simp add: http_get_def service_ops_def starts_with_def served_def handle_result_def http_result_def
        safe_json_def Let_def json_response_def)
  then show ?thesis using poll_result_response [of cid jid res] by blast
qed

lemma poll_pending:
  assumes "wd_script w = (d1, []) # (d2, es) # rest" and "get_job jid (gw_store (wd_gw w)) = Inr new_JobResult"
    and "wd_now w < deadline" and "0 \<le> POLL_INTERVAL cfg" and "gw_run (re_thr e) es (wd_gw w) = Some g"
  shows "poll_loop (service_ops e dumps) rp cfg (Suc n) cid (PStr jid) deadline w =
    poll_loop (service_ops e dumps) rp cfg n cid (PStr jid) deadline
      \<lparr>wd_gw = g, wd_now = wd_now w + int d1 + POLL_INTERVAL cfg + int d2, wd_script = rest\<rparr>"
proof -
  have time: "op_time (service_ops e dumps) w = (wd_now w, w)" by (simp add: service_ops_def)
  obtain j where "http_get (service_ops e dumps) (''/result/'' @ jid) w =
      ((200, j), w\<lparr>wd_now := wd_now w + int d1, wd_script := (d2, es) # rest\<rparr>)"
    "poll_answer cid (PStr jid) 200 j = Inr None"
    using quiet_poll [OF assms(1,2), of e dumps cid] by (auto simp: new_JobResult_def)
  moreover have "op_sleep (service_ops e dumps) (POLL_INTERVAL cfg)
      (w\<lparr>wd_now := wd_now w + int d1, wd_script := (d2, es) # rest\<rparr>) =
      \<lparr>wd_gw = g, wd_now = wd_now w + int d1 + POLL_INTERVAL cfg + int d2, wd_script = rest\<rparr>"
    using assms(5) by (simp add: service_ops_def pass_def)
  ultimately show ?thesis using time assms(3,4) by simp
qed

lemma poll_final:
  assumes "wd_script w = (d, []) # rest" and "get_job jid (gw_store (wd_gw w)) = Inr res"
    and "jr_status res \<noteq> PENDING" and "wd_now w < deadline"
  shows "poll_loop (service_ops e dumps) rp cfg (Suc n) cid (PStr jid) deadline w =
    Some (Ended, [result_event cid jid res (core_st (d_core (gw_disp (wd_gw w))))],
      w\<lparr>wd_now := wd_now w + int d, wd_script := rest\<rparr>)"
proof -
  have time: "op_time (service_ops e dumps) w = (wd_now w, w)" by (simp add: service_ops_def)
  then show ?thesis using quiet_poll [OF assms(1,2), of e dumps cid] assms(3,4) by auto
qed

text \<open>
  The quiet surroundings of \<open>k\<close> polls that find the job PENDING: the \<open>i\<close>-th takes \<open>ds i\<close> microseconds
  for the request and as much beyond the interval for the sleep. Then the events \<open>es\<close> happen, and one
  more poll follows.
\<close>

definition quiet_then :: "nat \<Rightarrow> nat \<Rightarrow> gw_event list \<Rightarrow> (nat \<times> gw_event list) list" where
  "quiet_then d k es = concat (replicate k [(d, []), (d, [])]) @ [(d, []), (d, es), (d, [])]"

lemma quiet_then_polls:
  assumes "wd_script w = quiet_then d k es" and "get_job jid (gw_store (wd_gw w)) = Inr new_JobResult"
    and "gw_run (re_thr e) es (wd_gw w) = Some g" and "get_job jid (gw_store g) = Inr res"
    and "jr_status res \<noteq> PENDING" and "0 \<le> POLL_INTERVAL cfg"
    and "wd_now w + int (Suc k) * (2 * int d + POLL_INTERVAL cfg) < deadline"
  shows "\<exists>w'. wd_gw w' = g \<and>
    poll_loop (service_ops e dumps) rp cfg (Suc (Suc k)) cid (PStr jid) deadline w =
      Some (Ended, [result_event cid jid res (core_st (d_core (gw_disp g)))], w')"
  using assms(1,2,3,7)
proof (induction k arbitrary: w)
  case 0
  let ?w = "\<lparr>wd_gw = g, wd_now = wd_now w + int d + POLL_INTERVAL cfg + int d, wd_script = [(d, [])]\<rparr>"
  have s: "wd_script w = (d, []) # (d, es) # [(d, [])]" using 0(1) by (simp add: quiet_then_def)
  have "wd_now w < deadline" using 0(4) assms(6) by simp
  from poll_pending [OF s 0(2) this assms(6) 0(3)]
  have "poll_loop (service_ops e dumps) rp cfg (Suc (Suc 0)) cid (PStr jid) deadline w =
      poll_loop (service_ops e dumps) rp cfg (Suc 0) cid (PStr jid) deadline ?w" by (simp only:)
  moreover have "wd_now ?w < deadline" using 0(4) by simp
  then have "poll_loop (service_ops e dumps) rp cfg (Suc 0) cid (PStr jid) deadline ?w =
    Some (Ended, [result_event cid jid res (core_st (d_core (gw_disp g)))], ?w\<lparr>wd_now := wd_now ?w + int d, wd_script := []\<rparr>)"
    using poll_final [of ?w d "[]" jid res deadline e dumps rp cfg 0 cid] assms(4,5) by simp
  ultimately show ?case by (auto simp del: poll_loop.simps)
next
  case (Suc k)
  let ?w = "\<lparr>wd_gw = wd_gw w, wd_now = wd_now w + int d + POLL_INTERVAL cfg + int d, wd_script = quiet_then d k es\<rparr>"
  have s: "wd_script w = (d, []) # (d, []) # quiet_then d k es" using Suc.prems(1) by (simp add: quiet_then_def)
  let ?x = "2 * int d + POLL_INTERVAL cfg"
  have "0 \<le> int (Suc k) * ?x" "0 \<le> ?x" using assms(6) by simp_all
  moreover have "int (Suc (Suc k)) * ?x = ?x + int (Suc k) * ?x" by (simp add: algebra_simps)
  moreover have "wd_now ?w = wd_now w + ?x" by simp
  ultimately have now: "wd_now w < deadline" "wd_now ?w + int (Suc k) * ?x < deadline"
    using Suc.prems(4) by linarith+
  have "gw_run (re_thr e) [] (wd_gw w) = Some (wd_gw w)" by simp
  from poll_pending [OF s Suc.prems(2) now(1) assms(6) this]
  have "poll_loop (service_ops e dumps) rp cfg (Suc (Suc (Suc k))) cid (PStr jid) deadline w =
      poll_loop (service_ops e dumps) rp cfg (Suc (Suc k)) cid (PStr jid) deadline ?w" by (simp only:)
  then show ?case using Suc.IH [of ?w] Suc.prems(2,3) now(2) by (simp del: poll_loop.simps)
qed

text \<open>A message is answered at once or handed to one thread, never both.\<close>

lemma on_message_cases:
  "(\<exists>ev. on_message loads rp cfg now payload = ([ev], None)) \<or>
   (\<exists>t. on_message loads rp cfg now payload = ([], Some t))"
proof -
  have c: "on_command rp cfg cid data = Inr out \<Longrightarrow> (\<exists>ev. out = ([ev], None)) \<or> (\<exists>t. out = ([], Some t))"
    for cid data out
    by (auto simp: on_command_def bind_ex_def Let_def split: sum.splits if_splits option.splits)
  have "on_data rp cfg now data = Inr out \<Longrightarrow> (\<exists>ev. out = ([ev], None)) \<or> (\<exists>t. out = ([], Some t))"
    for data out
    using c by (auto simp: on_data_def bind_ex_def Let_def split: sum.splits if_splits option.splits)
  then show ?thesis
    by (cases "bind_ex (if payload \<noteq> [] then loads payload else Inr (PDict [])) (on_data rp cfg now)")
      (auto simp: on_message_def bind_ex_def split: sum.splits)
qed

section \<open>Properties\<close>

text \<open>
  C2: the whole system does its job, from the cloud and back. A start message reaches the bridge while
  the service is idle in INIT. The bridge hands it to a thread, \<^verbatim>\<open>/start\<close> is accepted, and the thread
  polls, finding the job PENDING any number of times. Meanwhile the emulator serves its payload, which starts
  with \<^verbatim>\<open>QR:\<close>, to the port in whatever pieces its socket takes; after any number of rounds without a
  code the job thread reads on from behind a delimiter of that stream, split over error-free reads in
  any way that fits the timeout, whatever other clients submit and the worker does between its steps.
  The next poll finds the result: the thread publishes the acceptance and a \<^verbatim>\<open>job_result\<close> for the same
  identifier with status DONE and exactly that payload; and if the other clients submit nothing the
  core is INIT again when the worker has caught up.
\<close>

theorem cloud_scan:
  assumes "gw_steps (re_thr e) (new_Gateway port) es g" and "at_rest (gw_disp g)" and "unfinished g = 0"
    and "core_st (d_core (gw_disp g)) = INIT" and "\<forall>i. \<not> re_thr e i" and "re_s1 e = replicate n BgWorker" and "3 \<le> n"
    and "lets_job_stop (re_s2 e)"
    and "p \<noteq> []" and "loads p = Inr (PDict [(''type'', PStr ''start''), (''id'', PStr cid), (''timeout_ms'', PInt t)])"
    and "py_strip cid = cid" and "cid \<noteq> []"
    and "cj_load (re_json e) (dumps (PDict [(''timeout_ms'', PInt t)])) = Some body"
    and "cj_t (re_json e) body = TObject" and "start_timeout (re_srv e) (re_json e) body = Some tmo"
    and "list_all enc_ok ps" and "starts_with ''QR:'' payload" and "CHR 0x00 \<notin> set payload"
    and "sent (snd (client_loop payload ms ps)) = pre @ concat (map delivered (os @ [ob])) @ post"
    and "pre = [] \<or> last pre = 0" and "0 \<in> set (delivered ob)" and "0 \<notin> set (concat (map delivered os))"
    and "\<forall>x \<in> set (os @ [ob]). benign x"
    and "list_all (fruitless (ji_now i0 + tmo * 1000000)) rs"
    and "ji_now i1 < ji_now i0 + tmo * 1000000" and "ji_open i1"
    and "50 * int (passes (os @ [ob])) < time_left (ji_now i0 + tmo * 1000000) i1 + 50"
    and "job_inputs fs = scan_ins i0 tmo rs i1 (os @ [ob])" and "list_all bystander fs"
    and "0 \<le> POLL_INTERVAL cfg" and "int (Suc k) * (2 * int d + POLL_INTERVAL cfg) < POLL_MAX cfg"
  shows "on_message loads rp cfg now p = ([], Some (StartThread cid t)) \<and>
    (\<exists>ev w'. run_thread (service_ops e dumps) rp cfg (Suc (Suc k)) (StartThread cid t)
        \<lparr>wd_gw = g, wd_now = t0, wd_script = (d, []) # quiet_then d k fs\<rparr> =
        Some (Ended, [accepted_event cid (gen_id (re_rd e)) RUNNING, ev], w') \<and>
      py_get ev ''type'' PNone = Inr (PStr ''job_result'') \<and>
      py_get ev ''jobId'' PNone = Inr (PStr (gen_id (re_rd e))) \<and>
      py_get ev ''status'' PNone = Inr (PStr ''DONE'') \<and> py_get ev ''qr'' PNone = Inr (PStr payload) \<and>
      (requested fs = [] \<longrightarrow> core_st (d_core ((worker_step (re_thr e) ^^ 3) (gw_disp (wd_gw w')))) = INIT))"
proof -
  let ?jid = "gen_id (re_rd e)" and ?ops = "service_ops e dumps" and ?body = "PDict [(''timeout_ms'', PInt t)]"
  let ?w = "\<lparr>wd_gw = g, wd_now = t0, wd_script = (d, []) # quiet_then d k fs\<rparr>"
  let ?res = "result_of (ASetDone payload)"
  have "gw_ok g" using gw_ok_steps [OF assms(1) gw_ok_new] .
  from start_accepted [where thr = "re_thr e", OF this assms(2,3) _ assms(7,8,13-15,4), of "re_rd e"] assms(5)
  obtain resp g1 where st: "handle_start (re_srv e) (re_json e) (re_thr e) (re_rd e) (replicate n BgWorker) (re_s2 e)
        (dumps ?body) g = Inr (resp, g1)" "hr_code resp = 202" "wget ''state'' (hr_body resp) = WStr ''RUNNING''"
    and g1: "core_st (d_core (gw_disp g1)) = RUNNING" "get_job ?jid (gw_store g1) = Inr new_JobResult"
      "r_running (gw_jobs g1)" "r_worker (gw_jobs g1) = Some (new_thread ?jid tmo)" "at_rest (gw_disp g1)"
    by auto
  have "live (re_thr e) g" using assms(1) by (auto simp: live_def)
  then obtain st where r: "resp = start_response ?jid st" using start_answer [OF _ st(1)] st(2) by (auto simp: refused_def)
  then have resp: "resp = start_response ?jid RUNNING" using st(3) by (cases st) (simp_all add: to_string_def)
  from started_scan_among [OF g1 assms(5,16-29)] obtain g2 where g2: "gw_run (re_thr e) fs g1 = Some g2"
    "requested fs = [] \<longrightarrow> core_st (d_core ((worker_step (re_thr e) ^^ 3) (gw_disp g2))) = INIT"
    "jobs (gw_store g2) ?jid = Some ?res" by blast
  let ?st = "core_st (d_core (gw_disp g2))"
  have res: "get_job ?jid (gw_store g2) = Inr ?res" "jr_status ?res \<noteq> PENDING"
    using g2(3) by (simp_all add: store.fetch_look)
  let ?w1 = "\<lparr>wd_gw = g1, wd_now = t0 + int d, wd_script = quiet_then d k fs\<rparr>"
  have post: "http_post ?ops ''/start'' ?body ?w = ((202, py_of (hr_body resp)), ?w1)"
    using st(1,2) assms(6) by (simp add: http_post_def service_ops_def served_def pass_def http_result_def safe_json_def)
  from quiet_then_polls [of ?w1, OF _ _ _ res assms(30), where deadline = "t0 + int d + POLL_MAX cfg"] g1(2) g2(1) assms(31)
  obtain w' where w': "wd_gw w' = g2" "poll_loop ?ops rp cfg (Suc (Suc k)) cid (PStr ?jid) (t0 + int d + POLL_MAX cfg) ?w1 =
      Some (Ended, [result_event cid ?jid ?res ?st], w')" by fastforce
  have time: "op_time ?ops ?w1 = (t0 + int d, ?w1)" by (simp add: service_ops_def)
  have "handle_start_and_poll ?ops rp cfg (Suc (Suc k)) cid t ?w =
      Some (Ended, [accepted_event cid ?jid RUNNING, result_event cid ?jid ?res ?st], w')"
    unfolding handle_start_and_poll_def post resp using time w'(2) accepted_start [of cid _ ?jid]
    by (simp del: poll_loop.simps)
  moreover have "on_message loads rp cfg now p = ([], Some (StartThread cid t))"
  proof -
    have "py_lower (py_strip ''start'') = ''start''" by code_simp
    then show ?thesis using assms(9-12) by (simp add: on_message_def on_data_def make_cmd_id_def Let_def)
  qed
  ultimately show ?thesis using w'(1) g2(2) by (auto simp: result_event_def job_status_to_string_def)
qed

definition scan_env :: "json rest_env" where
  "scan_env = some_env\<lparr>re_json := tree_json (JObject [(''timeout_ms'', JNumber (Finite 3000 0) 3000)]),
     re_s1 := replicate 3 BgWorker\<rparr>"

theorem cloud_scan_witness:
  "on_message (\<lambda>_. Inr (PDict [(''type'', PStr ''start''), (''id'', PStr ''demo''), (''timeout_ms'', PInt 3000)])) (\<lambda>_. [])
     default_cfg 0 ''x'' = ([], Some (StartThread ''demo'' 3000)) \<and>
    (\<exists>ev w'. run_thread (service_ops scan_env (\<lambda>_. ''x'')) (\<lambda>_. []) default_cfg (Suc (Suc 1)) (StartThread ''demo'' 3000)
        \<lparr>wd_gw = init_gw, wd_now = 0, wd_script = (1000, []) # quiet_then 1000 1 scan_events\<rparr> =
        Some (Ended, [accepted_event ''demo'' (gen_id (re_rd scan_env)) RUNNING, ev], w') \<and>
      py_get ev ''type'' PNone = Inr (PStr ''job_result'') \<and>
      py_get ev ''jobId'' PNone = Inr (PStr (gen_id (re_rd scan_env))) \<and>
      py_get ev ''status'' PNone = Inr (PStr ''DONE'') \<and> py_get ev ''qr'' PNone = Inr (PStr ''QR:123456'') \<and>
      core_st (d_core ((worker_step (re_thr scan_env) ^^ 3) (gw_disp (wd_gw w')))) = INIT)"
proof -
  have "on_message (\<lambda>_. Inr (PDict [(''type'', PStr ''start''), (''id'', PStr ''demo''), (''timeout_ms'', PInt 3000)])) (\<lambda>_. [])
       default_cfg 0 ''x'' = ([], Some (StartThread ''demo'' 3000)) \<and>
      (\<exists>ev w'. run_thread (service_ops scan_env (\<lambda>_. ''x'')) (\<lambda>_. []) default_cfg (Suc (Suc 1)) (StartThread ''demo'' 3000)
          \<lparr>wd_gw = init_gw, wd_now = 0, wd_script = (1000, []) # quiet_then 1000 1 scan_events\<rparr> =
          Some (Ended, [accepted_event ''demo'' (gen_id (re_rd scan_env)) RUNNING, ev], w') \<and>
        py_get ev ''type'' PNone = Inr (PStr ''job_result'') \<and>
        py_get ev ''jobId'' PNone = Inr (PStr (gen_id (re_rd scan_env))) \<and>
        py_get ev ''status'' PNone = Inr (PStr ''DONE'') \<and> py_get ev ''qr'' PNone = Inr (PStr ''QR:123456'') \<and>
        (requested scan_events = [] \<longrightarrow>
           core_st (d_core ((worker_step (re_thr scan_env) ^^ 3) (gw_disp (wd_gw w')))) = INIT))"
  proof (rule cloud_scan [where es = init_events and port = "''/dev/ttyS1''" and n = 3
        and body = "JObject [(''timeout_ms'', JNumber (Finite 3000 0) 3000)]", OF _ _ _ _ _ _ _ _ _ _ _ _ _ _ _ _ _ _ some_stream_split])
    show "list_all enc_ok [some_pass, some_pass]" by (simp add: some_pass_def enc_ok_def)
    show "starts_with ''QR:'' ''QR:123456''" "py_strip ''demo'' = ''demo''" by code_simp+
    show "gw_steps (re_thr scan_env) (new_Gateway ''/dev/ttyS1'') init_events init_gw"
      using init_gw_steps by (simp add: scan_env_def some_env_def)
    show "lets_job_stop (re_s2 scan_env)" by (simp add: scan_env_def some_env_def)
    show "job_inputs scan_events = scan_ins (quiet_in 0) 3000 [] (quiet_in 5)
        ([ok_obs [10, 0x51, 0x52]] @ [ok_obs [0x3A, 0x31, 0x32, 0x33, 0x34, 0x35, 0x36, 0]])"
      "list_all bystander scan_events" by (simp_all only: scan_events_def scan_events_shape)
  qed (simp_all add: init_gw_facts scan_env_def some_env_def tree_json_def start_timeout_def ok_obs_def benign_def
      delivered_def got_bytes_def interrupted_def quiet_in_def time_left_def default_cfg_def)
  moreover have "requested scan_events = []" by (simp only: scan_events_def scan_events_shape)
  ultimately show ?thesis by blast
qed



text \<open>A START of ten seconds on an initialised service where nothing is scanned.\<close>

definition slow_env :: "json rest_env" where
  "slow_env = some_env\<lparr>re_json := tree_json (JObject [(''timeout_ms'', JNumber (Finite 10000 0) 10000)]),
     re_s1 := replicate 3 BgWorker, re_s2 := []\<rparr>"

definition init_world :: svc_world where
  "init_world = \<lparr>wd_gw = init_gw, wd_now = 0, wd_script = []\<rparr>"



text \<open>
  The two documented ways of asking for a scan or a stop, a message of that type and a command of
  that name, are the same to the bridge, in any case and with any white space around the words.
\<close>

lemma message_forms_agree:
  assumes "loads p = Inr (PDict ((''type'', PStr ty) # kvs))" and "p \<noteq> []"
    and "loads q = Inr (PDict ((''type'', PStr ty') # (''command'', PStr c) # kvs))" and "q \<noteq> []"
    and "py_lower (py_strip ty') = ''command''" and "map_of kvs ''params'' = None"
    and "(py_lower (py_strip ty), normalize_cmd c) \<in> {(''start'', ''START''), (''stop'', ''STOP'')}"
  shows "on_message loads rp cfg now p = on_message loads rp cfg now q"
proof -
  have "on_data rp cfg now (PDict ((''type'', PStr ty) # kvs)) =
      on_data rp cfg now (PDict ((''type'', PStr ty') # (''command'', PStr c) # kvs))"
    using assms(5-7) by (auto simp: on_data_def on_command_def make_cmd_id_def validate_params_def Let_def)
  then show ?thesis using assms(1-4) by (simp add: on_message_def)
qed


end
