(* ===== verification/Bridge_Process.thy ===== *)
theory Bridge_Process
  imports Mqtt_Bridge
begin

text \<open>
  The rest of \<^verbatim>\<open>gateway-py/gateway.py\<close>: the settings it reads from the environment, the logger, the calls
  it makes on the MQTT client, and a session in which connections, messages and the ends of its threads
  come in any order. The calls on the client are a trace; paho-mqtt itself, the file system and the
  conversion of floats are parameters.
\<close>

section \<open>Settings\<close>

record settings =
  MQTT_HOST :: string
  MQTT_PORT :: int
  MQTT_CERT :: string
  TOPIC_CMD :: string
  TOPIC_EVT :: string
  QR_API_BASE_URL :: string
  LOG_PATH :: string
  HTTP_TIMEOUT :: int
  st_cfg :: bridge_cfg

text \<open>\<open>pf\<close> is \<^verbatim>\<open>float\<close> with the result in microseconds.\<close>

definition read_settings :: "(string \<Rightarrow> int option) \<Rightarrow> (string \<rightharpoonup> string) \<Rightarrow> settings" where
  "read_settings pf env =
     \<lparr>MQTT_HOST = env_str env ''MQTT_HOST'' ''test.mosquitto.org'',
      MQTT_PORT = env_int env ''MQTT_PORT'' 8883,
      MQTT_CERT = env_str env ''MQTT_CERT'' ''/tmp/mosquitto.org.crt'',
      TOPIC_CMD = env_str env ''MQTT_TOPIC_CMD'' ''from_cloud/commands'',
      TOPIC_EVT = env_str env ''MQTT_TOPIC_EVENT'' ''from_device/events'',
      QR_API_BASE_URL = env_str env ''QR_API_BASE_URL'' ''http://qr-c:8080'',
      LOG_PATH = env_str env ''LOG_PATH'' ''/var/log/gateway-py/gateway.log'',
      HTTP_TIMEOUT = env_float pf env ''HTTP_TIMEOUT_SEC'' 5000000,
      st_cfg = \<lparr>QR_START_TIMEOUT_MS = env_int env ''QR_START_TIMEOUT_MS'' 1000,
        POLL_INTERVAL = env_float pf env ''POLL_INTERVAL_SEC'' 300000,
        POLL_MAX = env_float pf env ''POLL_MAX_SECONDS'' 6000000\<rparr>\<rparr>"

lemma read_settings_default: "st_cfg (read_settings pf Map.empty) = default_cfg"
  by (simp add: read_settings_def default_cfg_def env_int_def env_float_def)

text \<open>
  The handlers of the logger. Creating the directory and opening the file may raise; then the
  console is the only one.
\<close>

datatype log_handler = StreamHandler | FileHandler string

definition py_dirname :: "string \<Rightarrow> string" where
  "py_dirname p =
     (let head = rev (dropWhile (\<lambda>c. c \<noteq> CHR ''/'') (rev p))
      in if list_all (\<lambda>c. c = CHR ''/'') head then head
         else rev (dropWhile (\<lambda>c. c = CHR ''/'') (rev head)))"

definition setup_logger :: "(string \<Rightarrow> bool) \<Rightarrow> (string \<Rightarrow> bool) \<Rightarrow> settings \<Rightarrow> log_handler list" where
  "setup_logger makedirs opens st =
     StreamHandler #
       (if makedirs (py_dirname (LOG_PATH st)) \<and> opens (LOG_PATH st) then [FileHandler (LOG_PATH st)] else [])"

text \<open>
  The console is always a handler. \<^verbatim>\<open>os.makedirs\<close> refuses an empty name, so a log file without a
  directory in its path is never opened.
\<close>

lemma py_dirname_plain: "CHR ''/'' \<notin> set p \<Longrightarrow> py_dirname p = []"
proof -
  assume "CHR ''/'' \<notin> set p"
  then have "dropWhile (\<lambda>c. c \<noteq> CHR ''/'') (rev p) = []" by (auto simp: dropWhile_eq_Nil_conv)
  then show ?thesis by (simp add: py_dirname_def Let_def del: dropWhile_eq_Nil_conv)
qed

lemma setup_logger_handlers:
  shows "hd (setup_logger makedirs opens st) = StreamHandler"
    and "\<not> makedirs [] \<Longrightarrow> CHR ''/'' \<notin> set (LOG_PATH st) \<Longrightarrow> setup_logger makedirs opens st = [StreamHandler]"
  by (simp_all add: setup_logger_def py_dirname_plain)

section \<open>The MQTT client\<close>

datatype mqtt_call =
    TlsSet string | TlsInsecureSet bool | SetOnConnect | SetOnMessage | ReconnectDelaySet int int
  | Connect string int int | LoopForever | Subscribe string int | Publish string string int bool

definition bridge_main :: "settings \<Rightarrow> mqtt_call list" where
  "bridge_main st =
     [TlsSet (MQTT_CERT st), TlsInsecureSet False, SetOnConnect, SetOnMessage, ReconnectDelaySet 1 30,
      Connect (MQTT_HOST st) (MQTT_PORT st) 30, LoopForever]"

definition on_connect :: "settings \<Rightarrow> mqtt_call list" where
  "on_connect st = [Subscribe (TOPIC_CMD st) 1]"

text \<open>\<open>dumps\<close> is \<^verbatim>\<open>json.dumps\<close> with the separators and the encoding the call gives.\<close>

definition publish_event :: "(pyval \<Rightarrow> string) \<Rightarrow> settings \<Rightarrow> pyval \<Rightarrow> mqtt_call" where
  "publish_event dumps st payload = Publish (TOPIC_EVT st) (dumps payload) 1 False"

section \<open>Sessions\<close>

text \<open>
  \<^verbatim>\<open>loop_forever\<close> calls \<^verbatim>\<open>on_connect\<close> after every connection and \<^verbatim>\<open>on_message\<close> for every message; the
  threads the messages started end one after the other, in any order. \<open>n\<close> bounds the polls of a
  thread; a thread that needs more stays.
\<close>

datatype bridge_event = Connected | Message int string | ThreadEnds nat

record 'w bridge =
  br_calls :: "mqtt_call list"
  br_threads :: "bridge_thread list"
  br_world :: 'w

definition new_bridge :: "settings \<Rightarrow> 'w \<Rightarrow> 'w bridge" where
  "new_bridge st w = \<lparr>br_calls = bridge_main st, br_threads = [], br_world = w\<rparr>"

fun bridge_step ::
  "'w ops \<Rightarrow> (string \<Rightarrow> py_exn + pyval) \<Rightarrow> (pyval \<Rightarrow> string) \<Rightarrow> (pyval \<Rightarrow> string) \<Rightarrow> nat \<Rightarrow> settings
     \<Rightarrow> bridge_event \<Rightarrow> 'w bridge \<Rightarrow> 'w bridge" where
  "bridge_step ops loads dumps rp n st Connected b = b\<lparr>br_calls := br_calls b @ on_connect st\<rparr>"
| "bridge_step ops loads dumps rp n st (Message now payload) b =
     (let (evs, t) = on_message loads rp (st_cfg st) now payload
      in b\<lparr>br_calls := br_calls b @ map (publish_event dumps st) evs,
           br_threads := br_threads b @ (case t of None \<Rightarrow> [] | Some th \<Rightarrow> [th])\<rparr>)"
| "bridge_step ops loads dumps rp n st (ThreadEnds i) b =
     (if i < length (br_threads b)
      then (case run_thread ops rp (st_cfg st) n (br_threads b ! i) (br_world b) of
              None \<Rightarrow> b
            | Some (en, evs, w) \<Rightarrow>
                \<lparr>br_calls = br_calls b @ map (publish_event dumps st) evs,
                 br_threads = take i (br_threads b) @ drop (Suc i) (br_threads b), br_world = w\<rparr>)
      else b)"

fun bridge_run ::
  "'w ops \<Rightarrow> (string \<Rightarrow> py_exn + pyval) \<Rightarrow> (pyval \<Rightarrow> string) \<Rightarrow> (pyval \<Rightarrow> string) \<Rightarrow> nat \<Rightarrow> settings
     \<Rightarrow> bridge_event list \<Rightarrow> 'w bridge \<Rightarrow> 'w bridge" where
  "bridge_run ops loads dumps rp n st [] b = b"
| "bridge_run ops loads dumps rp n st (e # es) b =
     bridge_run ops loads dumps rp n st es (bridge_step ops loads dumps rp n st e b)"

fun is_publish :: "mqtt_call \<Rightarrow> bool" where
  "is_publish (Publish topic m qos retain) = True" | "is_publish _ = False"

fun is_message :: "bridge_event \<Rightarrow> bool" where
  "is_message (Message now payload) = True" | "is_message _ = False"

definition sent :: "'w bridge \<Rightarrow> nat" where
  "sent b = length (filter is_publish (br_calls b))"

text \<open>What the client may be asked to do after the start.\<close>

fun proper_call :: "settings \<Rightarrow> mqtt_call \<Rightarrow> bool" where
  "proper_call st (Subscribe topic qos) \<longleftrightarrow> topic = TOPIC_CMD st \<and> qos = 1"
| "proper_call st (Publish topic m qos retain) \<longleftrightarrow> topic = TOPIC_EVT st \<and> qos = 1 \<and> \<not> retain"
| "proper_call st _ \<longleftrightarrow> False"

lemma publish_proper [simp]:
  "proper_call st (publish_event dumps st ev)" "is_publish (publish_event dumps st ev)"
  by (simp_all add: publish_event_def)

lemma filter_publish [simp]: "filter is_publish (map (publish_event dumps st) evs) = map (publish_event dumps st) evs"
  by (induction evs) simp_all

definition balanced :: "settings \<Rightarrow> nat \<Rightarrow> 'w bridge \<Rightarrow> bool" where
  "balanced st m b \<longleftrightarrow>
     (\<exists>cs. br_calls b = bridge_main st @ cs \<and> list_all (proper_call st) cs) \<and>
     m \<le> sent b + length (br_threads b) \<and> sent b + 2 * length (br_threads b) \<le> 2 * m"

lemma balanced_more:
  assumes "balanced st m b" and "br_calls b' = br_calls b @ cs" and "list_all (proper_call st) cs"
    and "m' + length (br_threads b) \<le> m + length (filter is_publish cs) + length (br_threads b')"
    and "length (filter is_publish cs) + 2 * length (br_threads b') + 2 * m \<le> 2 * m' + 2 * length (br_threads b)"
  shows "balanced st m' b'"
proof -
  obtain ds where "br_calls b = bridge_main st @ ds" "list_all (proper_call st) ds"
    using assms(1) by (auto simp: balanced_def)
  then have "\<exists>es. br_calls b' = bridge_main st @ es \<and> list_all (proper_call st) es"
    using assms(2,3) by (intro exI [of _ "ds @ cs"]) simp
  then show ?thesis using assms(1,2,4,5) by (simp add: balanced_def sent_def)
qed

context rest_api
begin

lemma thread_end_step:
  assumes "0 < POLL_INTERVAL (st_cfg st)" and "POLL_MAX (st_cfg st) \<le> int n * POLL_INTERVAL (st_cfg st)"
    and "i < length (br_threads b)"
  obtains evs w where "length evs \<in> {1, 2}" "bridge_step ops loads dumps rp (Suc n) st (ThreadEnds i) b =
    \<lparr>br_calls = br_calls b @ map (publish_event dumps st) evs,
     br_threads = take i (br_threads b) @ drop (Suc i) (br_threads b), br_world = w\<rparr>"
proof -
  obtain evs w where t: "run_thread ops rp (st_cfg st) (Suc n) (br_threads b ! i) (br_world b) = Some (Ended, evs, w)"
    "length evs \<in> {1, 2}" using thread_ends [OF assms(1,2)] by blast
  show thesis by (rule that [OF t(2)]) (use t(1) assms(3) in simp)
qed

lemma session_step:
  assumes "0 < POLL_INTERVAL (st_cfg st)" and "POLL_MAX (st_cfg st) \<le> int n * POLL_INTERVAL (st_cfg st)"
    and "balanced st m b"
  shows "balanced st (m + of_bool (is_message e)) (bridge_step ops loads dumps rp (Suc n) st e b)"
proof (cases e)
  case Connected
  then show ?thesis by (intro balanced_more [OF assms(3)]) (auto simp: on_connect_def)
next
  case (Message now payload)
  then show ?thesis using on_message_cases [of loads rp "st_cfg st" now payload]
    by (intro balanced_more [OF assms(3), where cs =
          "map (publish_event dumps st) (fst (on_message loads rp (st_cfg st) now payload))"])
      (auto simp: list_all_iff)
next
  case (ThreadEnds i)
  show ?thesis
  proof (cases "i < length (br_threads b)")
    case True
    obtain evs w where "length evs \<in> {1, 2}" "bridge_step ops loads dumps rp (Suc n) st (ThreadEnds i) b =
      \<lparr>br_calls = br_calls b @ map (publish_event dumps st) evs,
       br_threads = take i (br_threads b) @ drop (Suc i) (br_threads b), br_world = w\<rparr>"
      using thread_end_step [OF assms(1,2) True] .
    then show ?thesis using True ThreadEnds by (intro balanced_more [OF assms(3)]) (auto simp: list_all_iff)
  next
    case False
    then show ?thesis using assms(3) ThreadEnds by simp
  qed
qed

lemma session_run:
  assumes "0 < POLL_INTERVAL (st_cfg st)" and "POLL_MAX (st_cfg st) \<le> int n * POLL_INTERVAL (st_cfg st)"
    and "balanced st m b"
  shows "balanced st (m + length (filter is_message es)) (bridge_run ops loads dumps rp (Suc n) st es b)"
  using assms(3)
proof (induction es arbitrary: m b)
  case (Cons e es)
  have "balanced st (m + of_bool (is_message e) + length (filter is_message es))
      (bridge_run ops loads dumps rp (Suc n) st es (bridge_step ops loads dumps rp (Suc n) st e b))"
    by (rule Cons.IH [OF session_step [OF assms(1,2) Cons.prems]])
  then show ?case by (cases "is_message e") simp_all
qed simp

lemma threads_drain:
  assumes "0 < POLL_INTERVAL (st_cfg st)" and "POLL_MAX (st_cfg st) \<le> int n * POLL_INTERVAL (st_cfg st)"
    and "length (br_threads b) \<le> k"
  shows "br_threads (bridge_run ops loads dumps rp (Suc n) st (replicate k (ThreadEnds 0)) b) = []"
  using assms(3)
proof (induction k arbitrary: b)
  case (Suc k)
  show ?case
  proof (cases "br_threads b")
    case Nil
    then show ?thesis using Suc.IH [of b] by simp
  next
    case (Cons t ts)
    then have "0 < length (br_threads b)" by simp
    from thread_end_step [OF assms(1,2) this] obtain evs w where
      "bridge_step ops loads dumps rp (Suc n) st (ThreadEnds 0) b =
        \<lparr>br_calls = br_calls b @ map (publish_event dumps st) evs,
         br_threads = take 0 (br_threads b) @ drop (Suc 0) (br_threads b), br_world = w\<rparr>" by metis
    then show ?thesis using Suc.IH Suc.prems Cons by (simp del: bridge_step.simps)
  qed
qed simp

end

lemma bridge_run_append:
  "bridge_run ops loads dumps rp n st (es @ fs) b =
     bridge_run ops loads dumps rp n st fs (bridge_run ops loads dumps rp n st es b)"
  by (induction es arbitrary: b) simp_all

lemma balanced_new: "balanced st 0 (new_bridge st w)"
  by (simp add: balanced_def new_bridge_def sent_def bridge_main_def)

text \<open>
  No message is lost over a session, however connections, messages and the ends of threads come: once
  as many threads have ended as there are, every message has been answered by one or two events; and
  besides subscribing to the command topic the bridge only publishes to the event topic, at least once
  and not retained.
\<close>

lemma session_answers_all:
  fixes e :: "'j rest_env"
  assumes "0 < POLL_INTERVAL (st_cfg st)" and "POLL_MAX (st_cfg st) \<le> int n * POLL_INTERVAL (st_cfg st)"
    and "b = bridge_run (service_ops e dumps) loads dumps rp (Suc n) st es (new_bridge st w)"
    and "b' = bridge_run (service_ops e dumps) loads dumps rp (Suc n) st
           (replicate (length (br_threads b)) (ThreadEnds 0)) b"
  shows "br_threads b' = [] \<and> length (filter is_message es) \<le> sent b' \<and>
    sent b' \<le> 2 * length (filter is_message es) \<and>
    (\<exists>cs. br_calls b' = bridge_main st @ cs \<and> list_all (proper_call st) cs)"
proof -
  have none: "filter is_message (replicate k (ThreadEnds 0)) = []" for k by (induction k) simp_all
  let ?es = "es @ replicate (length (br_threads b)) (ThreadEnds 0)"
  have "balanced st (0 + length (filter is_message ?es))
      (bridge_run (service_ops e dumps) loads dumps rp (Suc n) st ?es (new_bridge st w))"
    by (rule svc.session_run [OF assms(1,2) balanced_new])
  then have "balanced st (length (filter is_message es)) b'"
    using assms(3,4) none by (simp add: bridge_run_append)
  moreover have "br_threads b' = []" unfolding assms(4) by (rule svc.threads_drain [OF assms(1,2)]) simp
  ultimately show ?thesis by (simp add: balanced_def)
qed

end
