(* ===== verification/Test_Scenarios.thy ===== *)
theory Test_Scenarios
  imports End_To_End Dispatcher_Monitor
begin

text \<open>
  The test suite of the service, \<^verbatim>\<open>qr-c/src/tests\<close>, as lemmas: every assertion of a test case holds of
  the model, for all payloads and identifiers where the test picks one. The tests of the dispatcher
  wait for a future; here three steps of the worker are enough.
\<close>

section \<open>The encoder of the tests\<close>

text \<open>
  \<^verbatim>\<open>test_jobrunner.cpp\<close> has an encoder of its own, which grows a vector and patches the code bytes: a
  second implementation, independent of the one in the emulator.
\<close>

fun test_encode_loop :: "byte list \<Rightarrow> byte list \<Rightarrow> nat \<Rightarrow> byte \<Rightarrow> byte list" where
  "test_encode_loop [] out code_index code = out[code_index := code]"
| "test_encode_loop (b # bs) out code_index code =
     (if b = 0 then test_encode_loop bs (out[code_index := code] @ [0]) (length out) 1
      else if code + 1 = 0xFF
      then test_encode_loop bs ((out @ [b])[code_index := code + 1] @ [0]) (length (out @ [b])) 1
      else test_encode_loop bs (out @ [b]) code_index (code + 1))"

definition test_encode :: "byte list \<Rightarrow> byte list" where
  "test_encode input = test_encode_loop input [0] 0 1"

definition write_cobs_frame :: "string \<Rightarrow> byte list" where
  "write_cobs_frame payload = test_encode (map (\<lambda>c. of_nat (of_char c)) payload) @ [0]"

lemma test_encode_loop_eq:
  "length blk \<le> 253 \<Longrightarrow> test_encode_loop bs (pre @ p # blk) (length pre) (code_of (length blk)) = pre @ cobs_enc blk bs"
proof (induction bs arbitrary: pre p blk)
  case (Cons b bs)
  consider "b = 0" | "b \<noteq> 0" "length blk = 253" | "b \<noteq> 0" "length blk < 253" using Cons.prems by linarith
  then show ?case
  proof cases
    case 1
    then show ?thesis using Cons.IH [of "[]" "pre @ code_of (length blk) # blk" 0] by (simp add: code_of_0)
  next
    case 2
    then have "code_of (length blk) + 1 = 0xFF" using code_of_FF [of 253] by (simp add: code_of_Suc)
    then show ?thesis using Cons.IH [of "[]" "pre @ 0xFF # blk @ [b]" 0] 2 by (simp add: code_of_0)
  next
    case 3
    then have "code_of (length blk) + 1 \<noteq> 0xFF" by (simp add: code_of_Suc code_of_FF)
    then show ?thesis using Cons.IH [of "blk @ [b]" pre p] 3 by (simp add: code_of_Suc)
  qed
qed simp

text \<open>Both encoders compute the reference encoder, and the decoder of the service undoes them.\<close>

lemma test_encode_eq: "test_encode p = cobs_enc [] p"
  using test_encode_loop_eq [of "[]" p "[]" 0] by (simp add: test_encode_def code_of_0)

lemma test_encode_roundtrip: "cobs_decode (test_encode p) = Some (True, p)"
  by (simp add: test_encode_eq cobs_decode_enc)

section \<open>test\_core.cpp\<close>

lemma test_core_ping:
  "handle_sync_command ''ping'' new_Core =
     (new_Response\<lparr>resp_command := ''PING'', resp_message := ''PONG''\<rparr>, new_Core)"
  "core_st new_Core = NOT_INIT" "resp_ok new_Response" "http_status new_Response = 200"
  by code_simp+

lemma test_core_init:
  "handle_sync_command ''INIT'' new_Core =
     (new_Response\<lparr>resp_command := ''INIT'', resp_message := ''OK'', resp_state := INIT\<rparr>, \<lparr>core_st = INIT\<rparr>)"
  by code_simp

lemma test_core_start_by_command:
  "handle_sync_command ''START'' c =
     (new_Response\<lparr>resp_ok := False, http_status := 400, resp_command := ''START'', resp_state := core_st c,
        resp_message := ''ERR:USE_START_ENDPOINT''\<rparr>, c)"
proof -
  have "upper ''START'' = ''START''" by code_simp
  then show ?thesis by (simp add: handle_sync_command_def new_Response_def Let_def)
qed

lemma test_core_start_requires_init:
  "fst (start_job tmo new_Core) =
     new_Response\<lparr>resp_ok := False, http_status := 409, resp_command := ''START'', resp_message := ''ERR:NOT_INIT''\<rparr>"
  "start_job tmo \<lparr>core_st = INIT\<rparr> =
     (new_Response\<lparr>http_status := 202, resp_command := ''START'', resp_state := RUNNING,
        resp_message := ''ACCEPTED''\<rparr>, \<lparr>core_st = RUNNING\<rparr>)"
  by (simp_all add: start_job_def new_Core_def new_Response_def)

lemma test_core_stop:
  "core_stop c = (new_Response\<lparr>resp_command := ''STOP'', resp_state := STOPPED, resp_message := ''OK''\<rparr>,
     c\<lparr>core_st := STOPPED\<rparr>)"
  by (simp add: core_stop_def)

section \<open>test\_dispatcher.cpp\<close>

definition asked :: "core_op list \<Rightarrow> Dispatcher" where
  "asked xs = disp_run (\<lambda>_. False) (concat (map (\<lambda>x. Submit x # replicate 3 Worker) xs)) (new_Dispatcher new_Core)"

lemma test_dispatcher_ping:
  "d_proms (asked [OpSync ''PING'']) 0 = Some (new_Response\<lparr>resp_command := ''PING'', resp_message := ''PONG''\<rparr>)"
  by code_simp

lemma test_dispatcher_sequence:
  "case d_proms (asked [OpSync ''INIT'', OpStart 200, OpStop]) 0 of None \<Rightarrow> False | Some r \<Rightarrow> resp_state r = INIT"
  "case d_proms (asked [OpSync ''INIT'', OpStart 200, OpStop]) 1 of None \<Rightarrow> False
   | Some r \<Rightarrow> resp_ok r \<and> http_status r = 202 \<and> resp_state r = RUNNING"
  "case d_proms (asked [OpSync ''INIT'', OpStart 200, OpStop]) 2 of None \<Rightarrow> False | Some r \<Rightarrow> resp_state r = STOPPED"
  by code_simp+

section \<open>test\_jobstore.cpp\<close>

lemma test_store_pending:
  "\<not> exists_job jid new_JobStore" "exists_job jid (create jid s)"
  "get_job jid (create jid s) = Inr \<lparr>jr_status = PENDING, jr_message = ''PENDING'', jr_qr = None\<rparr>"
  by (simp_all add: exists_job_def create_def get_job_def at_job_def new_JobStore_def new_JobResult_def)

lemma test_store_done:
  "case set_done jid q (create jid s) of Inl e \<Rightarrow> False
   | Inr s1 \<Rightarrow> get_job jid s1 = Inr \<lparr>jr_status = DONE, jr_message = ''OK'', jr_qr = Some q\<rparr>"
  by (simp add: set_done_def modify_job_def create_def get_job_def at_job_def)

lemma test_store_timeout:
  "case set_done jid q (create jid s) of Inl e \<Rightarrow> False
   | Inr s1 \<Rightarrow> (case set_timeout jid s1 of Inl e \<Rightarrow> False
       | Inr s2 \<Rightarrow> get_job jid s2 = Inr \<lparr>jr_status = TIMEOUT, jr_message = ''TIMEOUT'', jr_qr = None\<rparr>)"
  by (simp add: set_done_def set_timeout_def modify_job_def create_def get_job_def at_job_def)

section \<open>test\_jobrunner.cpp\<close>

text \<open>The set-up of the three tests: INIT, START, a baud rate, and the launch behind \<^verbatim>\<open>stop()\<close>.\<close>

definition runner_events :: "int \<Rightarrow> gw_event list" where
  "runner_events tmo =
     GSubmit (OpSync ''INIT'') # replicate 3 GWorker @ GSubmit (OpStart tmo) # replicate 3 GWorker @
     [GBaud 115200, GClear, GJoin, GLaunch ''0badcafe'' tmo]"

definition runner_status :: "int \<Rightarrow> gw_event list \<Rightarrow> JobResult option" where
  "runner_status tmo es =
     (case gw_run (\<lambda>_. False) (runner_events tmo @ es) (new_Gateway ''/dev/pts/1'') of
        None \<Rightarrow> None
      | Some g \<Rightarrow> (case get_job ''0badcafe'' (gw_store g) of Inl e \<Rightarrow> None | Inr r \<Rightarrow> Some r))"

lemma test_runner_done:
  "runner_status 1000 (map GJob (scan_ins (quiet_in 0) 1000 [] (quiet_in 5)
     [ok_obs (take 5 (write_cobs_frame ''QR:123456'')), ok_obs (drop 5 (write_cobs_frame ''QR:123456''))])) =
   Some \<lparr>jr_status = DONE, jr_message = ''OK'', jr_qr = Some ''QR:123456''\<rparr>"
  by code_simp

lemma test_runner_timeout:
  "map_option jr_status (runner_status 150 (replicate 12 (GJob (quiet_in 0)) @ replicate 6 (GJob (quiet_in 150000000)))) =
   Some TIMEOUT"
  by code_simp

lemma test_runner_cancelled:
  "map_option jr_status (runner_status 2000 (replicate 6 (GJob (quiet_in 0)) @ GClear # replicate 7 (GJob (quiet_in 50000000)) @ [GJoin])) =
   Some CANCELLED"
  by code_simp

section \<open>tests/test\_api.py\<close>

text \<open>
  A dialogue with the service: requests with the document of their body and what the internal threads do
  while the handler waits, and what happens between two requests.
\<close>

datatype api_turn = Ask json "bg list" "bg list" http_request | Meanwhile "gw_event list"

fun api_run :: "api_turn list \<Rightarrow> Gateway \<Rightarrow> http_response list option" where
  "api_run [] g = Some []"
| "api_run (Ask doc s1 s2 req # ts) g =
     (case serve (some_env\<lparr>re_json := tree_json doc, re_s1 := s1, re_s2 := s2\<rparr>) req g of
        Inl e \<Rightarrow> None
      | Inr (resp, g') \<Rightarrow> map_option (\<lambda>rs. resp # rs) (api_run ts g'))"
| "api_run (Meanwhile es # ts) g =
     (case gw_run (\<lambda>_. False) es g of None \<Rightarrow> None | Some g' \<Rightarrow> api_run ts g')"

definition summary :: "http_response \<Rightarrow> int \<times> wvalue \<times> wvalue" where
  "summary resp = (hr_code resp, wget ''ok'' (hr_body resp), wget ''message'' (hr_body resp))"

definition api :: "api_turn list \<Rightarrow> (int \<times> wvalue \<times> wvalue) list option" where
  "api ts = map_option (map summary) (api_run ts (new_Gateway ''/tmp/ttyS1''))"

abbreviation work3 :: "bg list" where
  "work3 \<equiv> replicate 3 BgWorker"

definition ask_command :: "string \<Rightarrow> api_turn" where
  "ask_command cmd = Ask (JObject [(''command'', JString cmd)]) [] work3 (PostCommand ''x'')"

definition ask_start :: "int \<Rightarrow> api_turn" where
  "ask_start tmo = Ask (JObject [(''timeout_ms'', JNumber (Finite tmo 0) tmo)]) work3 [] (PostStart ''x'')"

lemma test_api_health_status_ping:
  "api [Ask JNull [] [] GetHealth, Ask JNull [] [] GetStatus, ask_command ''PING''] =
     Some [(200, WBool True, WStr ''UP''), (200, WBool True, WNull), (200, WBool True, WStr ''PONG'')]"
  by code_simp

lemma test_api_start_states:
  "api [ask_start 1000] = Some [(409, WBool False, WStr ''ERR:NOT_INIT'')]"
  "api [ask_command ''INIT'', ask_start 1000, ask_start 1000] =
     Some [(200, WBool True, WStr ''OK''), (202, WBool True, WStr ''ACCEPTED''),
       (409, WBool False, WStr ''ERR:ALREADY_RUNNING'')]"
  by code_simp+

lemma test_api_flow:
  "api [ask_command ''INIT'', ask_command ''START'', ask_start 1000,
      Meanwhile (map GJob (scan_ins (quiet_in 0) 1000 [] (quiet_in 5) [ok_obs (write_cobs_frame ''QR:123456'')]) @
        replicate 3 GWorker),
      Ask JNull [] [] (GetResult (gen_id (\<lambda>i. i))), Ask JNull [] work3 PostStop] =
    Some [(200, WBool True, WStr ''OK''), (400, WBool False, WStr ''ERR:USE_START_ENDPOINT''),
      (202, WBool True, WStr ''ACCEPTED''), (200, WBool True, WStr ''OK''), (200, WBool True, WStr ''OK'')]"
  by code_simp

text \<open>
  \<^verbatim>\<open>test_stop_cancels_waiting_job\<close> expects that a job which was stopped ends CANCELLED or TIMEOUT. That
  is the property \<open>stop_cancels_job\<close> of \<open>Gateway_System\<close>, with its exception: the test also says that the
  job must not become DONE, which the code does not exclude for a frame that was complete when the
  flag was cleared (\<open>code_after_stop\<close>).
\<close>

end
