(* ===== verification/Spec2Isabelle.thy ===== *)
theory Spec2Isabelle
  imports Prelude Core_Machine Job_Store Dispatcher Dispatcher_Monitor Cobs Serial_Port Fake_Serial Job_Runner
    Job_Delivery Gateway_System Rest_Server Request_Threads Sequential_Clients Service_Recovery Data_Races
    Response_Schema Main_Config End_To_End Mqtt_Bridge Bridge_Process Test_Scenarios
begin

text \<open>
  \<^bold>\<open>The program.\<close> The repository is an edge gateway for a QR scanner on a serial line. Its
  service, \<^verbatim>\<open>qr-c/src\<close>, is a C++ process with three kinds of threads. The request threads of the
  REST adapter (\<^verbatim>\<open>adapters/rest\<close>) validate JSON requests and talk to everything else. One
  worker thread of the dispatcher (\<^verbatim>\<open>app/Dispatcher.hpp\<close>) serialises all calls on the state
  machine (\<^verbatim>\<open>core/\<close>). One job thread at a time (\<^verbatim>\<open>app/JobRunner.cpp\<close>) opens the serial port,
  reads a COBS frame, decodes it, writes the outcome to the job table (\<^verbatim>\<open>app/JobStore.hpp\<close>) and
  submits the end of the job to the dispatcher. \<^verbatim>\<open>main.cpp\<close> builds and destroys the objects.
  \<^verbatim>\<open>fake_serial/fake_serial.c\<close> emulates the scanner; it is the other end of the line.
  \<^verbatim>\<open>gateway-py/gateway.py\<close> is a client of the REST API that takes its orders from an MQTT broker and
  publishes events to it.

  \<^bold>\<open>The theories\<close>, each importing the ones it calls:

  \<^item> \<open>Prelude\<close>: machine types, the conversion to a 32-bit \<^verbatim>\<open>int\<close>, \<^verbatim>\<open>toupper\<close>, list
    lemmas, and the fact collections \<open>gw_defs\<close> and \<open>gw_inv\<close>.
  \<^item> \<open>Core_Machine\<close>: \<^verbatim>\<open>State\<close>, \<^verbatim>\<open>Response\<close> and the class \<^verbatim>\<open>Core\<close>; every member function
    returns the response and the new object. \<open>lifecycle\<close> and \<open>lifecycle_reply\<close> are the state
    diagram of \<^verbatim>\<open>docs/ARCHITECTURE.md\<close>; the core refines them.
  \<^item> \<open>Job_Store\<close>: the table, an exception of \<^verbatim>\<open>at\<close> being the left of a sum, and the order in which a
    status can change. The locale \<open>job_table\<close> is its contract (interpretation \<open>store\<close>).
  \<^item> \<open>Dispatcher\<close>: queue, promises, stop flag and the program point of the worker. Events of any
    threads in any order are lists; the specification is the serial execution of the
    submissions, and \<open>serial_at\<close> is the simulation invariant. The locale
    \<open>core_executor\<close> is what a waiting client relies on (interpretation \<open>disp\<close>).
  \<^item> \<open>Dispatcher_Monitor\<close>: the same class below its member functions: the mutex, the condition variable
    with its spurious wake-ups, and every thread with a program point for each lock, wait and
    notification (\<open>mn_exec\<close>). \<open>abs_mn\<close> maps its states to those of \<open>Dispatcher\<close>.
  \<^item> \<open>Cobs\<close>: the decoder of the service and the encoder of the emulator with their index
    arithmetic, where \<open>None\<close> stands for an access out of bounds, and a reference codec on lists.
  \<^item> \<open>Serial_Port\<close>: \<^verbatim>\<open>getenv_int\<close> with the \<^verbatim>\<open>strtol\<close> it calls, the termios configuration, and
    \<^verbatim>\<open>read_cobs_frame\<close> over what \<^verbatim>\<open>poll\<close> and \<^verbatim>\<open>read\<close> answer.
  \<^item> \<open>Fake_Serial\<close>: the emulator, \<^verbatim>\<open>send_all\<close>, \<^verbatim>\<open>msleep\<close> and the loops of its \<^verbatim>\<open>main\<close>, as functions from the
    answers of the system calls to a trace of the calls it makes. \<open>emu_allows\<close> is an automaton of the
    allowed traces.
  \<^item> \<open>Job_Runner\<close>: \<^verbatim>\<open>run_job\<close> as a machine whose steps make at most one access to shared memory and
    list their actions; the runner object and the effects of the actions on the shared objects.
  \<^item> \<open>Job_Delivery\<close>: the rounds of a job, from the bytes of the port to the result: rounds that bring
    nothing (\<open>fruitless\<close>) and the round that brings a code.
  \<^item> \<open>Gateway_System\<close>: the step relation of the whole process, its reachable states and their
    invariant.
  \<^item> \<open>Rest_Server\<close>: the six handlers as functions of the gateway. Crow's JSON reader is an
    argument, and so are the steps the internal threads take while a handler waits.
  \<^item> \<open>Request_Threads\<close>: the same handlers as programs whose steps make one access to shared state
    each, any number of them at once (\<open>sv_step\<close>). The locale \<open>forward_simulation\<close> relates them to
    \<open>Gateway_System\<close> (interpretation \<open>requests\<close>).
  \<^item> \<open>Sequential_Clients\<close>: runs in which the requests that change something come one after the other
    (\<open>seq_steps\<close>); \<open>agrees\<close> ties the history of the dispatcher to the request in progress and to the job
    thread.
  \<^item> \<open>Service_Recovery\<close>: a job that finds nothing, from its deadline until the next scan can start.
  \<^item> \<open>Data_Races\<close>: the memory the threads share, what protects it, and the accesses of every step. The
    locale \<open>shared_memory\<close> says what makes such lists right (interpretation \<open>mem\<close>, on \<open>sv_exec\<close>).
  \<^item> \<open>Response_Schema\<close>: the response schemas of \<^verbatim>\<open>docs/openapi.yaml\<close> as types, and a typing of the
    program points of the request threads.
  \<^item> \<open>Main_Config\<close>: the options of the command line, the configuration, construction, the routes and the
    start of the server, and shutdown.
  \<^item> \<open>End_To_End\<close>: the components together, one job from the request to the result, over the byte
    stream of the emulator.
  \<^item> \<open>Mqtt_Bridge\<close>: the message handler of the bridge and its threads. The locale \<open>rest_api\<close> is what
    they rely on (interpretation \<open>svc\<close>: the service of \<open>Rest_Server\<close>, with any events of the gateway
    happening between two requests).
  \<^item> \<open>Bridge_Process\<close>: the settings and the logger of the bridge, its calls on the MQTT client, and
    sessions of connections, messages and ending threads in any order.
  \<^item> \<open>Test_Scenarios\<close>: the test suite, every test case a lemma; the encoder of the tests is the reference
    encoder of \<open>Cobs\<close>.

  \<^bold>\<open>What is shown.\<close> A job that is started while the scanner sends a code ends with that code
  as its result, whatever failed before, wherever in the stream it starts to read and whatever other
  threads do between its steps (\<open>End_To_End\<close>, \<open>Job_Delivery\<close>). In every reachable state a job is PENDING exactly while the job thread works on
  it; results are final; no job outlives its deadline, and a stopped job is cancelled; the core hears of the end of each job exactly
  once (\<open>Gateway_System\<close>). The dispatcher is linearizable (\<open>Dispatcher\<close>), and its locks and
  notifications implement that: the mutex excludes, no wake-up is lost, nothing hangs
  (\<open>Dispatcher_Monitor\<close>). Nothing but a payload of the scanner is ever
  reported DONE; a job reports once, stops within seven steps of its own after a stop request, ends
  after its deadline and closes what it opens (\<open>Job_Runner\<close>, on top of the frame reader and codec
  results of \<open>Serial_Port\<close> and \<open>Cobs\<close>). The emulator keeps to its automaton and inside its buffers
  (\<open>Fake_Serial\<close>). Every request is answered with a documented code; \<^verbatim>\<open>/command\<close>, \<^verbatim>\<open>/start\<close> and
  \<^verbatim>\<open>/result\<close> do what the API documents; \<^verbatim>\<open>/stop\<close> leaves no thread and no PENDING job
  (\<open>Rest_Server\<close>); so does the shutdown (\<open>Main_Config\<close>). Concurrent requests keep all of this as long
  as no two are inside the job runner at once, they end, and the handlers as functions are what their
  threads compute (\<open>Request_Threads\<close>). Clients that wait for their answers keep that condition, and for
  them the state of the core and the job thread agree (\<open>Sequential_Clients\<close>), and the service is back in
  INIT a bounded number of steps after the deadline of a job (\<open>Service_Recovery\<close>). Steps that do not
  conflict commute, and the unsynchronised conflicts are two, the state of the core and the thread
  object of the runner; the first is reached by a client that polls (\<open>Data_Races\<close>). The answers have the
  documented schema without any such condition (\<open>Response_Schema\<close>). Every message to the bridge is answered, and what it says of a job is
  what the job table holds (\<open>Mqtt_Bridge\<close>); no message of a session is lost (\<open>Bridge_Process\<close>).

  Several theorems state where the code does something else than its documentation or its callers
  expect: overlapping launches and joins, which the sources do not exclude; the reads of the core's state
  beside the worker; the race between \<^verbatim>\<open>/start\<close>
  and \<^verbatim>\<open>/stop\<close>; the FINISH of an old job that ends a new one; the \<^verbatim>\<open>/start\<close> that is answered 503 and
  runs all the same; the oversized frame whose tail is taken for a frame; the emulator killed by a
  client that disconnects; the bridge that reports TIMEOUT while the job is running. Lemmas record
  the smaller ones: the refused INIT that changes the baud rate, the submission nobody will answer,
  the read budget that counts reads, the log file without a directory, the capacity in a comment, the timeouts and the port that wrap.

  \<^bold>\<open>Bounds.\<close> Every loop of the sources but one is structural recursion or has a termination proof, and
  the loops that wait for the environment consume what the environment answers, a list. That such a
  loop ends is a theorem with an explicit number of steps: seven for the job thread after a stop
  request (\<open>stop_fuel\<close>), two for each millisecond of the read budget after the deadline (\<open>late_fuel\<close>),
  three worker steps for each queued call (\<open>work_left\<close>), four for what an ended job leaves behind, eight for a request thread (\<open>req_fuel\<close>), and
  \<open>mn_fuel\<close> for the threads of the monitor until all of them rest. The
  polling loop of the bridge has fuel; one turn more than the polling budget holds intervals is enough.

  \<^bold>\<open>What is assumed of the outside.\<close> Accesses to atomics are atomic steps, and so are the member functions
  that hold a mutex for their whole body; for the dispatcher, whose functions also wait and notify, that
  is a theorem (\<open>Dispatcher_Monitor\<close>). An exception inside a core call is a parameter (\<open>thr\<close>); the value of
  an out-of-range conversion from \<^verbatim>\<open>double\<close> is a parameter (\<open>ub\<close>). The reads of the core's state that
  bypass the dispatcher are modelled as atomic reads, although the sources do not make them so, and
  so are the accesses to the thread object; \<open>data_race_report\<close> shows that these are the only places
  where the sources leave the order of conflicting accesses open. Text in the bridge is ASCII, and its clock counts microseconds where Python
  has a float.

  \<^bold>\<open>What is not modelled.\<close> Log messages, the text of a JSON document (Crow and Python's \<^verbatim>\<open>json\<close>; bodies are
  trees), the signal handlers of the emulator beyond the flag they set, and the inside of the
  libraries: the command line parser, the HTTP and MQTT clients and the logging back ends, of which the
  calls and what they are documented to answer are modelled.
\<close>

end
